(* ===== verification/Prelude.thy ===== *)
theory Prelude
  imports Complex_Main "HOL-Library.Word" "HOL-Library.Multiset" "HOL-Library.Log_Nat"
begin

unbundle bit_operations_syntax

text \<open>
  Shared vocabulary of the development: the machine types of \<^verbatim>\<open>shared-headers/Units.hpp\<close>, the ways
  a C++ operation can fail or leave the language (\<open>cxx_error\<close>), the compiler builtins used on
  bitmaps (\<open>__builtin_ctzll\<close>, \<open>__builtin_clzll\<close>, \<open>__builtin_popcountll\<close>) and the
  loop idiom that clears the lowest set bit, with generic lemmas on lists, words and results that
  the component theories share.
\<close>

section \<open>Machine types and failures\<close>

type_synonym u8 = "8 word"
type_synonym u16 = "16 word"
type_synonym u64 = "64 word"

text \<open>
  What a C++ operation does when it has no value: an \<open>assert\<close> fires, an index is out of range
  (undefined behaviour of \<open>std::vector::operator[]\<close>), a cast of a floating-point value does not
  fit (undefined behaviour of \<open>static_cast\<close>), a NaN is produced, the allocator throws, freed
  memory is touched, or the program is terminated (\<open>throw;\<close> with no exception to rethrow).
\<close>

datatype cxx_error = AssertFailed | OutOfRange | BadCast | NotANumber | BadAlloc | InvalidArgument
  | UseAfterFree | Diverges | Terminated

type_synonym 'a result = "cxx_error + 'a"

definition bindR :: "'a result \<Rightarrow> ('a \<Rightarrow> 'b result) \<Rightarrow> 'b result" where
  "bindR r f = (case r of Inl e \<Rightarrow> Inl e | Inr x \<Rightarrow> f x)"

named_theorems res_simps \<open>evaluation of results\<close>

lemma bindR_Inl [simp, res_simps]: "bindR (Inl e) f = Inl e"
  by (simp add: bindR_def)

lemma bindR_Inr [simp, res_simps]: "bindR (Inr x) f = f x"
  by (simp add: bindR_def)

lemma bindR_eq_Inr [simp]: "bindR r f = Inr y \<longleftrightarrow> (\<exists>x. r = Inr x \<and> f x = Inr y)"
  by (cases r) auto

lemma bindR_assoc: "bindR (bindR r f) g = bindR r (\<lambda>x. bindR (f x) g)"
  by (cases r) auto

definition assertR :: "bool \<Rightarrow> unit result" where
  "assertR b = (if b then Inr () else Inl AssertFailed)"

lemma assertR_simps [simp, res_simps]: "assertR True = Inr ()" "assertR False = Inl AssertFailed"
  by (simp_all add: assertR_def)

text \<open>A loop over a list whose body may fail.\<close>

fun foldR :: "('a \<Rightarrow> 's \<Rightarrow> 's result) \<Rightarrow> 'a list \<Rightarrow> 's \<Rightarrow> 's result" where
  "foldR f [] s = Inr s"
| "foldR f (x # xs) s = bindR (f x s) (foldR f xs)"

lemma foldR_append: "foldR f (xs @ ys) s = bindR (foldR f xs s) (foldR f ys)"
  by (induction xs arbitrary: s) (simp_all add: bindR_def split: sum.split)

text \<open>A loop over an index range that keeps an invariant and whose body never fails.\<close>

lemma foldR_upt_invariant:
  assumes "P a s" "\<And>i s. a \<le> i \<Longrightarrow> i < b \<Longrightarrow> P i s \<Longrightarrow> \<exists>s'. f i s = Inr s' \<and> P (Suc i) s'" "a \<le> b"
  shows "\<exists>s'. foldR f [a..<b] s = Inr s' \<and> P b s'"
proof -
  have "k \<le> b \<longrightarrow> (\<exists>s'. foldR f [a..<k] s = Inr s' \<and> P k s')" if "a \<le> k" for k
    using that
  proof (induction k rule: dec_induct)
    case (step k)
    show ?case
    proof
      assume "Suc k \<le> b"
      then obtain s' where s': "foldR f [a..<k] s = Inr s'" "P k s'" using step.IH by auto
      obtain s'' where "f k s' = Inr s''" "P (Suc k) s''" using assms(2) [OF step.hyps(1) _ s'(2)] \<open>Suc k \<le> b\<close> by auto
      then show "\<exists>s'. foldR f [a..<Suc k] s = Inr s' \<and> P (Suc k) s'"
        using step.hyps(1) s'(1) by (simp add: foldR_append)
    qed
  qed (simp add: assms(1))
  then show ?thesis using assms(3) by simp
qed

text \<open>A count that a 64-bit counter can hold.\<close>

definition fits64 :: "nat \<Rightarrow> bool" where
  "fits64 n \<longleftrightarrow> n < 2 ^ 64"

lemma fits64_mono: "fits64 n \<Longrightarrow> m \<le> n \<Longrightarrow> fits64 m"
  by (simp add: fits64_def)

lemma fits64_unat [simp]: "fits64 (unat (w :: u64))"
  using unsigned_less [of w, where ?'a = nat] by (simp add: fits64_def)

lemma unat_bump: "unat (c :: u64) \<le> n \<Longrightarrow> fits64 (Suc n) \<Longrightarrow> unat (c + 1) = Suc (unat c)"
  using unat_add_lem [of c 1] by (simp add: fits64_def)

lemma unat_halve: "unat (drop_bit (Suc 0) (c :: u64)) = unat c div 2"
  using unat_drop_bit_eq [of "Suc 0" c] by (simp only: drop_bit_eq_div power_Suc power_0 mult_1_right)

lemma pow2_lessD: "(2::nat) ^ a < 2 ^ b \<Longrightarrow> a < b"
  by simp

lemma unat_pow2: "i < 64 \<Longrightarrow> unat (push_bit i (1 :: u64)) = 2 ^ i"
proof -
  assume "i < 64"
  have "push_bit i (1 :: u64) = word_of_nat (2 ^ i)" by (simp add: push_bit_eq_mult)
  then have "unat (push_bit i (1 :: u64)) = take_bit 64 (2 ^ i)"
    by (simp only: unsigned_of_nat len_of_numeral_defs) simp
  also have "\<dots> = 2 ^ i" unfolding take_bit_eq_mod
    by (rule mod_less) (rule power_strict_increasing [OF \<open>i < 64\<close>], simp)
  finally show ?thesis .
qed

section \<open>Lists\<close>

lemma upt_split: "n \<le> m \<Longrightarrow> [0..<m] = [0..<n] @ [n..<m]"
  by (metis le0 le_add_diff_inverse upt_add_eq_append)

lemma takeWhile_upt_first:
  assumes "P n" "n < m" "\<forall>i<n. \<not> P i"
  shows "takeWhile (\<lambda>i. \<not> P i) [0..<m] = [0..<n]"
proof -
  have "[0..<m] = [0..<n] @ [n..<m]"
    using assms(2) by (simp add: upt_split less_imp_le)
  moreover have "takeWhile (\<lambda>i. \<not> P i) [n..<m] = []"
    using assms(1,2) by (simp add: upt_conv_Cons)
  ultimately show ?thesis
    using assms(3) by (simp add: takeWhile_append2 takeWhile_append)
qed

lemma sum_list_update_nat:
  fixes xs :: "nat list"
  assumes "i < length xs"
  shows "sum_list (xs[i := xs ! i + d]) = sum_list xs + d"
  using assms by (induction xs arbitrary: i) (auto split: nat.splits)

lemma length_filter_mset: "mset xs = mset ys \<Longrightarrow> length (filter P xs) = length (filter P ys)"
proof -
  assume "mset xs = mset ys"
  then have "size (mset (filter P xs)) = size (mset (filter P ys))" by simp
  then show ?thesis by (simp only: size_mset)
qed

lemma filter_filter_conj: "filter P (filter Q xs) = filter (\<lambda>x. P x \<and> Q x) xs"
  by (induction xs) auto

section \<open>Bit scanning\<close>

text \<open>
  \<open>__builtin_ctzll\<close> counts trailing zeros and is undefined on 0; \<open>__builtin_clzll\<close> counts
  leading zeros and is undefined on 0; \<open>__builtin_popcountll\<close> counts set bits.
\<close>

definition ctzll :: "u64 \<Rightarrow> nat" where
  "ctzll w = length (takeWhile (\<lambda>i. \<not> bit w i) [0..<64])"

definition clzll :: "u64 \<Rightarrow> nat" where
  "clzll w = length (takeWhile (\<lambda>i. \<not> bit w i) (rev [0..<64]))"

definition popcountll :: "u64 \<Rightarrow> nat" where
  "popcountll w = length (filter (bit w) [0..<64])"

lemma bit_u64_less: "bit (w :: u64) i \<Longrightarrow> i < 64"
  using bit_imp_le_length [of w i] by simp

lemma bit_u64_unat: "bit (w :: u64) i = bit (unat w) i"
  by (simp add: bit_unsigned_iff)

lemma exists_lowest_bit:
  fixes w :: u64
  assumes "w \<noteq> 0"
  obtains n where "n < 64" "bit w n" "\<forall>i<n. \<not> bit w i" "ctzll w = n"
proof -
  from assms obtain k where "bit w k" by (auto simp: bit_eq_iff)
  then have "\<exists>n. bit w n \<and> (\<forall>i<n. \<not> bit w i)" by (rule ex_least_nat_le [of "bit w", THEN exE]) blast
  then obtain n where n: "bit w n" "\<forall>i<n. \<not> bit w i" by blast
  moreover have "n < 64" using n(1) by (rule bit_u64_less)
  moreover have "ctzll w = n"
    using takeWhile_upt_first [of "bit w" n 64] n \<open>n < 64\<close> by (simp add: ctzll_def)
  ultimately show ?thesis using that by blast
qed

lemma bit_pred_nat:
  fixes m :: nat
  assumes "bit m n" "\<forall>i<n. \<not> bit m i"
  shows "bit m j \<and> bit (m - 1) j \<longleftrightarrow> bit m j \<and> j \<noteq> n"
  using assms
proof (induction n arbitrary: m j)
  case 0
  then have "odd m" by (simp add: bit_0)
  then show ?case by (cases j) (auto simp: bit_0 odd_bit_iff_bit_pred)
next
  case (Suc n)
  from Suc.prems(2) have "even m" by (auto simp: bit_0)
  then obtain k where k: "m = 2 * k" by blast
  from Suc.prems(1) have "bit k n" by (simp add: k bit_Suc)
  moreover have "\<forall>i<n. \<not> bit k i"
    using Suc.prems(2) by (metis Suc_less_eq bit_Suc even_mult_iff even_numeral k
        nonzero_mult_div_cancel_left zero_neq_numeral)
  ultimately have IH: "\<And>j. bit k j \<and> bit (k - 1) j \<longleftrightarrow> bit k j \<and> j \<noteq> n" by (rule Suc.IH)
  have "k > 0" using \<open>bit k n\<close> by (cases k) auto
  then have "m - 1 = 2 * (k - 1) + 1" by (simp add: k)
  then have "bit (m - 1) (Suc i) = bit (k - 1) i" for i by (simp add: bit_Suc)
  then show ?case using IH \<open>even m\<close> by (cases j) (auto simp: bit_0 k bit_Suc)
qed

text \<open>\<open>bits &= bits - 1\<close> clears exactly the lowest set bit.\<close>

lemma bit_clear_lowest:
  fixes w :: u64
  assumes "w \<noteq> 0"
  shows "bit (w AND (w - 1)) j \<longleftrightarrow> bit w j \<and> j \<noteq> ctzll w"
proof -
  obtain n where n: "bit w n" "\<forall>i<n. \<not> bit w i" "ctzll w = n"
    using assms by (rule exists_lowest_bit)
  have u: "unat (w - 1) = unat w - 1" using assms by (simp add: unat_minus_one)
  have b: "bit w j = bit (unat w) j" "bit (w - 1) j = bit (unat (w - 1)) j" for j
    by (simp_all add: bit_u64_unat)
  show ?thesis using bit_pred_nat [of "unat w" n j] n by (simp add: bit_and_iff b u)
qed

lemma clear_lowest_less: "w \<noteq> 0 \<Longrightarrow> unat (w AND (w - 1)) < unat (w :: u64)"
proof -
  assume "w \<noteq> 0"
  have "unat (w AND (w - 1)) \<le> unat (w - 1)"
    using word_and_le1 [of w "w - 1"] by (simp add: word_le_nat_alt)
  also have "\<dots> < unat w" using \<open>w \<noteq> 0\<close> by (simp add: unat_minus_one word_neq_0_conv unat_gt_0)
  finally show ?thesis .
qed

text \<open>
  The scanning loop \<open>while (bits) { bit = ctz(bits); \<dots>; bits &= bits - 1; }\<close> visits the set
  bits in ascending order.
\<close>

function scan_bits :: "u64 \<Rightarrow> nat list" where
  "scan_bits w = (if w = 0 then [] else ctzll w # scan_bits (w AND (w - 1)))"
  by pat_completeness auto
termination
  by (relation "measure unat") (auto simp: clear_lowest_less)

declare scan_bits.simps [simp del]

lemma scan_bits_0 [simp]: "scan_bits 0 = []"
  by (simp add: scan_bits.simps)

lemma filter_bit_step:
  fixes w :: u64
  assumes "w \<noteq> 0"
  shows "filter (bit w) [0..<64] = ctzll w # filter (bit (w AND (w - 1))) [0..<64]"
proof -
  obtain n where n: "n < 64" "bit w n" "\<forall>i<n. \<not> bit w i" "ctzll w = n"
    using assms by (rule exists_lowest_bit)
  have split: "[0..<64] = [0..<n] @ n # [Suc n..<64]"
    using upt_split [OF less_imp_le [OF n(1)]] upt_conv_Cons [OF n(1)] by metis
  have low: "filter (bit w) [0..<n] = []" "filter (bit (w AND (w - 1))) [0..<n] = []"
    using n(3) by (auto simp: filter_empty_conv bit_and_iff)
  have high: "filter (bit (w AND (w - 1))) [Suc n..<64] = filter (bit w) [Suc n..<64]"
    by (rule filter_cong) (auto simp: bit_clear_lowest [OF assms] n(4))
  have at: "\<not> bit (w AND (w - 1)) n" by (simp add: bit_clear_lowest [OF assms] n(4))
  show ?thesis using n(2,4) at by (simp only: split filter_append low filter.simps high simp_thms if_True if_False
        append_Nil)
qed

lemma scan_bits_eq: "scan_bits w = filter (bit w) [0..<64]"
proof (induction w rule: scan_bits.induct)
  case (1 w)
  show ?case
  proof (cases "w = 0")
    case True
    then show ?thesis by simp
  next
    case False
    with 1 show ?thesis by (simp add: scan_bits.simps [of w] filter_bit_step [of w])
  qed
qed

lemma length_scan_bits: "length (scan_bits w) = popcountll w"
  by (simp add: scan_bits_eq popcountll_def)

lemma popcountll_le: "popcountll w \<le> 64"
  using length_filter_le [of "bit w" "[0..<64]"] by (simp add: popcountll_def)

lemma popcountll_0 [simp]: "popcountll 0 = 0"
  by (simp add: popcountll_def)

text \<open>\<open>63 - __builtin_clzll(x)\<close> is the floor of the binary logarithm.\<close>

lemma clzll_bounds:
  assumes "w \<noteq> 0"
  shows "clzll w < 64" "2 ^ (63 - clzll w) \<le> unat w" "unat w < 2 ^ (64 - clzll w)"
proof -
  define n where "n = floorlog 2 (unat w) - 1"
  have pos: "0 < unat w" using assms by (simp add: unat_gt_0)
  have fl: "0 < floorlog 2 (unat w)" using pos by (metis floorlog_eq_zero_iff gr0I leD numeral_le_one_iff semiring_norm(69))
  have lo: "2 ^ n \<le> unat w" and hi: "unat w < 2 ^ Suc n"
    using floorlog_bounds [of "unat w" 2] pos fl by (auto simp: n_def)
  have n64: "n < 64"
  proof (rule ccontr)
    assume "\<not> n < 64"
    then have "(2::nat) ^ 64 \<le> 2 ^ n" by (intro power_increasing) auto
    moreover have "unat w < 2 ^ 64" using unsigned_less [of w, where ?'a = nat] by simp
    ultimately show False using lo by linarith
  qed
  have bn: "bit w n"
  proof -
    have "unat w div 2 ^ n = 1" using lo hi
      by (metis One_nat_def div_nat_eqI mult.commute mult_1 power_Suc numeral_2_eq_2 add_2_eq_Suc mult_2 plus_1_eq_Suc add.commute mult_Suc)
    then show ?thesis by (simp add: bit_u64_unat bit_iff_odd)
  qed
  have above: "\<not> bit w i" if "n < i" for i
  proof -
    have "(2::nat) ^ Suc n \<le> 2 ^ i" using that by (intro power_increasing) auto
    then have "unat w div 2 ^ i = 0" using hi by simp
    then show ?thesis by (simp add: bit_u64_unat bit_iff_odd)
  qed
  have split: "[0..<64] = [0..<Suc n] @ [Suc n..<64]" using n64 by (intro upt_split) simp
  have "takeWhile (\<lambda>i. \<not> bit w i) (rev [0..<64]) = rev [Suc n..<64]"
    using above bn by (simp only: split rev_append takeWhile_append) auto
  then have c: "clzll w = 63 - n" by (simp only: clzll_def length_rev length_upt)
  show "clzll w < 64" "2 ^ (63 - clzll w) \<le> unat w" "unat w < 2 ^ (64 - clzll w)"
    using c n64 lo hi by auto
qed

end
