(* ===== verification/Doubles.thy ===== *)
theory Doubles
  imports Prelude
begin

text \<open>
  IEEE-754 binary64 arithmetic as the admission code uses it. A finite double is represented by the
  rational it denotes; every operation rounds its exact result to the nearest double, ties to even
  (53 significant bits, subnormals with exponent -1074). Overflow to infinity is not represented:
  every quantity the code computes is far below \<open>2 ^ 1024\<close>. A division by zero, whose result would
  be an infinity or a NaN, and a cast whose truncated value does not fit are failures.
\<close>

type_synonym double = rat

definition round_half_even :: "rat \<Rightarrow> int" where
  "round_half_even z =
     (let f = \<lfloor>z\<rfloor>; r = z - of_int f
      in if r < 1 / 2 then f else if 1 / 2 < r then f + 1 else if even f then f else f + 1)"

text \<open>The binary exponent of a positive rational: \<open>2 ^ e \<le> x < 2 ^ (e + 1)\<close>.\<close>

definition bin_exp :: "rat \<Rightarrow> int" where
  "bin_exp x =
     (case quotient_of x of (p, q) \<Rightarrow>
        let k = bitlen p - bitlen q in if 2 powi k \<le> x then k else k - 1)"

definition ulp_exp :: "rat \<Rightarrow> int" where
  "ulp_exp x = max (bin_exp x - 52) (- 1074)"

definition rnd_pos :: "rat \<Rightarrow> rat" where
  "rnd_pos x = of_int (round_half_even (x / 2 powi ulp_exp x)) * 2 powi ulp_exp x"

definition rnd :: "rat \<Rightarrow> double" where
  "rnd x = (if x = 0 then 0 else if 0 < x then rnd_pos x else - rnd_pos (- x))"

definition dmul :: "double \<Rightarrow> double \<Rightarrow> double" where
  "dmul a b = rnd (a * b)"

definition dadd :: "double \<Rightarrow> double \<Rightarrow> double" where
  "dadd a b = rnd (a + b)"

definition dsub :: "double \<Rightarrow> double \<Rightarrow> double" where
  "dsub a b = rnd (a - b)"

definition ddiv :: "double \<Rightarrow> double \<Rightarrow> double result" where
  "ddiv a b = (if b = 0 then Inl NotANumber else Inr (rnd (a / b)))"

definition double_of_nat :: "nat \<Rightarrow> double" where
  "double_of_nat n = rnd (of_nat n)"

text \<open>\<open>static_cast<double>\<close> of an unsigned 64-bit value and \<open>static_cast<u64>\<close> of a double.\<close>

definition double_of_u64 :: "u64 \<Rightarrow> double" where
  "double_of_u64 w = double_of_nat (unat w)"

definition cast_u64 :: "double \<Rightarrow> u64 result" where
  "cast_u64 d =
     (if - 1 < d \<and> d < 2 ^ 64 then Inr (word_of_nat (nat \<lfloor>d\<rfloor>)) else Inl BadCast)"

text \<open>\<open>std::clamp(x, lo, hi)\<close> and \<open>std::ceil\<close>.\<close>

definition dclamp :: "double \<Rightarrow> double \<Rightarrow> double \<Rightarrow> double" where
  "dclamp x lo hi = (if x < lo then lo else if hi < x then hi else x)"

definition dceil :: "double \<Rightarrow> double" where
  "dceil x = of_int \<lceil>x\<rceil>"

section \<open>Rounding is monotone and exact on small integers\<close>

lemma round_half_even_of_int [simp]: "round_half_even (of_int m) = m"
  by (simp add: round_half_even_def)

lemma round_half_even_bounds: "\<lfloor>z\<rfloor> \<le> round_half_even z" "round_half_even z \<le> \<lfloor>z\<rfloor> + 1"
  by (simp_all add: round_half_even_def Let_def)

lemma round_half_even_mono: "z \<le> w \<Longrightarrow> round_half_even z \<le> round_half_even w"
proof -
  assume zw: "z \<le> w"
  then have fg: "\<lfloor>z\<rfloor> \<le> \<lfloor>w\<rfloor>" by (rule floor_mono)
  show ?thesis
  proof (cases "\<lfloor>z\<rfloor> = \<lfloor>w\<rfloor>")
    case True
    then have "z - of_int \<lfloor>z\<rfloor> \<le> w - of_int \<lfloor>w\<rfloor>" using zw by simp
    then show ?thesis using True by (auto simp: round_half_even_def Let_def)
  next
    case False
    with fg have "\<lfloor>z\<rfloor> + 1 \<le> \<lfloor>w\<rfloor>" by simp
    then show ?thesis using round_half_even_bounds [of z] round_half_even_bounds [of w] by linarith
  qed
qed

lemma bitlen_bounds_pos:
  assumes "0 < n"
  shows "(2::rat) powi (bitlen n - 1) \<le> of_int n" "of_int n < (2::rat) powi (bitlen n)"
proof -
  have b: "2 ^ nat (bitlen n - 1) \<le> n" "n < 2 ^ nat (bitlen n)" and p: "0 < bitlen n"
    using bitlen_bounds [of n] assms bitlen_nonneg [of n] bitlen_eq_zero_iff [of n] by auto
  have e1: "(2::rat) powi (bitlen n - 1) = of_int (2 ^ nat (bitlen n - 1))"
    and e2: "(2::rat) powi (bitlen n) = of_int (2 ^ nat (bitlen n))"
    using p by (simp_all add: power_int_def)
  show "(2::rat) powi (bitlen n - 1) \<le> of_int n" using b(1) unfolding e1 of_int_le_iff .
  show "of_int n < (2::rat) powi (bitlen n)" using b(2) unfolding e2 of_int_less_iff .
qed

lemma bin_exp_bounds:
  assumes "0 < x"
  shows "2 powi bin_exp x \<le> x" "x < 2 powi (bin_exp x + 1)"
proof -
  obtain p q where pq: "quotient_of x = (p, q)" by force
  have q: "0 < q" and x: "x = of_int p / of_int q"
    using pq by (auto dest: quotient_of_denom_pos quotient_of_div)
  have p: "0 < p" using assms q x by (simp add: zero_less_divide_iff)
  define k where "k = bitlen p - bitlen q"
  have "x < 2 powi bitlen p / 2 powi (bitlen q - 1)"
    unfolding x using bitlen_bounds_pos [OF p] bitlen_bounds_pos [OF q] p q
    by (intro frac_less) auto
  also have "\<dots> = 2 powi (k + 1)" by (simp add: k_def flip: power_int_diff) (simp add: algebra_simps)
  finally have hi: "x < 2 powi (k + 1)" .
  have "2 powi (k - 1) = (2::rat) powi (bitlen p - 1) / 2 powi bitlen q"
    by (simp add: k_def flip: power_int_diff) (simp add: algebra_simps)
  also have "\<dots> \<le> x"
    unfolding x using bitlen_bounds_pos [OF p] bitlen_bounds_pos [OF q] p q
    by (intro frac_le) auto
  finally have lo: "2 powi (k - 1) \<le> x" .
  show "2 powi bin_exp x \<le> x" "x < 2 powi (bin_exp x + 1)"
    using hi lo by (auto simp: bin_exp_def pq k_def [symmetric] Let_def)
qed

lemma bin_exp_mono:
  assumes "0 < x" "x \<le> y"
  shows "bin_exp x \<le> bin_exp y"
proof -
  have "2 powi bin_exp x < (2::rat) powi (bin_exp y + 1)"
    using bin_exp_bounds [of x] bin_exp_bounds [of y] assms by simp
  then have "bin_exp x < bin_exp y + 1"
    by (metis linorder_not_le one_le_numeral power_int_increasing)
  then show ?thesis by simp
qed

text \<open>A multiple of the unit in the last place that bounds the argument bounds the result.\<close>

lemma powi_multiple:
  assumes "e \<le> d"
  obtains m :: int where "(2::rat) powi d = of_int m * 2 powi e"
proof -
  have "(2::rat) powi d = 2 powi (d - e) * 2 powi e" by (simp flip: power_int_add)
  also have "2 powi (d - e) = (of_int (2 ^ nat (d - e)) :: rat)"
    using assms by (simp add: power_int_def)
  finally show ?thesis by (rule that)
qed

lemma rnd_pos_le_powi:
  assumes "x \<le> 2 powi d" "ulp_exp x \<le> d"
  shows "rnd_pos x \<le> 2 powi d"
proof -
  obtain m :: int where m: "(2::rat) powi d = of_int m * 2 powi ulp_exp x"
    using assms(2) by (rule powi_multiple)
  have "x / 2 powi ulp_exp x \<le> of_int m" using assms(1) by (simp add: m divide_le_eq)
  then have "round_half_even (x / 2 powi ulp_exp x) \<le> m"
    using round_half_even_mono by fastforce
  then show ?thesis by (simp add: rnd_pos_def m mult_right_mono)
qed

lemma rnd_pos_ge_powi:
  assumes "2 powi d \<le> x" "ulp_exp x \<le> d"
  shows "2 powi d \<le> rnd_pos x"
proof -
  obtain m :: int where m: "(2::rat) powi d = of_int m * 2 powi ulp_exp x"
    using assms(2) by (rule powi_multiple)
  have "of_int m \<le> x / 2 powi ulp_exp x" using assms(1) by (simp add: m le_divide_eq)
  then have "m \<le> round_half_even (x / 2 powi ulp_exp x)"
    using round_half_even_mono by fastforce
  then show ?thesis by (simp add: rnd_pos_def m mult_right_mono)
qed

lemma rnd_pos_mono:
  assumes "0 < x" "x \<le> y"
  shows "rnd_pos x \<le> rnd_pos y"
proof (cases "ulp_exp x = ulp_exp y")
  case True
  have "x / 2 powi ulp_exp y \<le> y / 2 powi ulp_exp y" using assms by (simp add: divide_right_mono)
  then have "round_half_even (x / 2 powi ulp_exp y) \<le> round_half_even (y / 2 powi ulp_exp y)"
    by (rule round_half_even_mono)
  then show ?thesis using True by (simp add: rnd_pos_def mult_right_mono)
next
  case False
  have le: "bin_exp x \<le> bin_exp y" using assms by (rule bin_exp_mono)
  with False have lt: "bin_exp x + 1 \<le> bin_exp y" and big: "ulp_exp y = bin_exp y - 52"
    and ux: "ulp_exp x \<le> bin_exp y"
    by (auto simp: ulp_exp_def max_def split: if_splits)
  have "x \<le> 2 powi bin_exp y"
    using bin_exp_bounds(2) [OF assms(1)] power_int_increasing [OF lt, of "2::rat"] by simp
  then have "rnd_pos x \<le> 2 powi bin_exp y" using ux by (rule rnd_pos_le_powi)
  also have "\<dots> \<le> rnd_pos y"
    using bin_exp_bounds(1) [of y] assms big by (intro rnd_pos_ge_powi) auto
  finally show ?thesis .
qed

lemma round_half_even_nonneg: "0 \<le> z \<Longrightarrow> 0 \<le> round_half_even z"
  using round_half_even_bounds(1) [of z] by (meson order_trans zero_le_floor)

lemma rnd_pos_nonneg: "0 < x \<Longrightarrow> 0 \<le> rnd_pos x"
  by (simp add: rnd_pos_def round_half_even_nonneg)

lemma rnd_0 [simp]: "rnd 0 = 0"
  by (simp add: rnd_def)

lemma rnd_nonneg: "0 \<le> x \<Longrightarrow> 0 \<le> rnd x"
  by (simp add: rnd_def rnd_pos_nonneg)

theorem rnd_mono: "x \<le> y \<Longrightarrow> rnd x \<le> rnd y"
  using rnd_pos_mono [of x y] rnd_pos_mono [of "- y" "- x"] rnd_pos_nonneg [of y]
    rnd_pos_nonneg [of "- x"]
  by (auto simp: rnd_def)

theorem rnd_of_nat:
  assumes "n \<le> 2 ^ 53"
  shows "rnd (of_nat n) = of_nat n"
proof (cases "n = 0")
  case False
  then have pos: "(0::rat) < of_nat n" by simp
  show ?thesis
  proof (cases "n = 2 ^ 53")
    case True
    then have x: "(of_nat n :: rat) = 2 powi 53" by simp
    have "bin_exp (of_nat n) \<le> 53"
      using bin_exp_bounds(1) [OF pos] by (metis linorder_not_le one_less_numeral_iff
          power_int_strict_increasing semiring_norm(76) x)
    then have "ulp_exp (of_nat n) \<le> 53" by (simp add: ulp_exp_def)
    then have "rnd_pos (of_nat n) = 2 powi 53"
      using rnd_pos_le_powi [of "of_nat n" 53] rnd_pos_ge_powi [of 53 "of_nat n"] x by simp
    then show ?thesis using pos x by (simp add: rnd_def)
  next
    case less: False
    have "(of_nat n :: rat) < of_nat (2 ^ 53)"
      using assms less by (subst of_nat_less_iff) simp
    then have "(of_nat n :: rat) < 2 powi 53" by simp
    then have "2 powi bin_exp (of_nat n) < (2::rat) powi 53" using bin_exp_bounds(1) [OF pos] by simp
    then have "bin_exp (of_nat n) < 53"
      by (metis linorder_not_le one_le_numeral power_int_increasing)
    then have u: "ulp_exp (of_nat n) \<le> 0" by (simp add: ulp_exp_def)
    then obtain m :: int where m: "(2::rat) powi 0 = of_int m * 2 powi ulp_exp (of_nat n)"
      by (rule powi_multiple)
    then have "of_nat n / 2 powi ulp_exp (of_nat n) = (of_int (int n * m) :: rat)"
      by (simp add: field_simps)
    then have "rnd_pos (of_nat n) = of_int (int n * m) * 2 powi ulp_exp (of_nat n)"
      by (simp only: rnd_pos_def round_half_even_of_int)
    then show ?thesis using m pos by (simp add: rnd_def mult.assoc)
  qed
qed simp

lemma rnd_1 [simp]: "rnd 1 = 1"
  using rnd_of_nat [of 1] by simp

subsection \<open>Rounding is idempotent\<close>

lemma rnd_pos_exact:
  assumes "y = of_int k * 2 powi d" "ulp_exp y \<le> d"
  shows "rnd_pos y = y"
proof -
  obtain m :: int where m: "(2::rat) powi d = of_int m * 2 powi ulp_exp y"
    using assms(2) by (rule powi_multiple)
  have y: "y = of_int (k * m) * 2 powi ulp_exp y"
    using assms(1) unfolding m by (simp add: mult.assoc)
  then have "y / 2 powi ulp_exp y = of_int (k * m)" by (metis nonzero_mult_div_cancel_right power_int_not_zero zero_neq_numeral)
  then show ?thesis using y by (simp only: rnd_pos_def round_half_even_of_int)
qed

lemma bin_exp_lessI:
  assumes "0 < y" "y < 2 powi d"
  shows "bin_exp y < d"
proof (rule ccontr)
  assume "\<not> bin_exp y < d"
  then have "(2::rat) powi d \<le> 2 powi bin_exp y" by (intro power_int_increasing) auto
  then show False using bin_exp_bounds(1) [OF assms(1)] assms(2) by linarith
qed

lemma rnd_pos_idem:
  assumes "0 < x" "rnd_pos x \<noteq> 0"
  shows "rnd_pos (rnd_pos x) = rnd_pos x"
proof -
  let ?y = "rnd_pos x" and ?d = "max (bin_exp x + 1) (- 1074)"
  have pos: "0 < ?y" using rnd_pos_nonneg [OF assms(1)] assms(2) by simp
  have "(2::rat) powi (bin_exp x + 1) \<le> 2 powi ?d" by (intro power_int_increasing) auto
  then have "x \<le> 2 powi ?d" using bin_exp_bounds(2) [OF assms(1)] by linarith
  then have le: "?y \<le> 2 powi ?d" by (rule rnd_pos_le_powi) (simp add: ulp_exp_def)
  show ?thesis
  proof (cases "?y = 2 powi ?d")
    case True
    have "(2::rat) powi ?d < 2 powi (?d + 1)" by (rule power_int_strict_increasing) auto
    then have "bin_exp ?y < ?d + 1" using pos True by (intro bin_exp_lessI) auto
    then have "ulp_exp ?y \<le> ?d" by (simp add: ulp_exp_def)
    then show ?thesis using True by (intro rnd_pos_exact [where k = 1]) simp_all
  next
    case False
    then have "bin_exp ?y < ?d" using pos le by (intro bin_exp_lessI) auto
    then have "ulp_exp ?y \<le> ulp_exp x" by (simp add: ulp_exp_def)
    then show ?thesis by (intro rnd_pos_exact [OF rnd_pos_def])
  qed
qed

lemma rnd_rnd [simp]: "rnd (rnd x) = rnd x"
proof -
  have "rnd (rnd_pos z) = rnd_pos z" if "0 < z" for z
    using rnd_pos_nonneg [OF that] rnd_pos_idem [OF that] by (auto simp: rnd_def)
  moreover have "rnd (- z) = - rnd z" for z by (simp add: rnd_def)
  ultimately show ?thesis by (cases "x = 0"; cases "0 < x") (simp_all add: rnd_def [of x])
qed

lemma double_of_nat_exact: "n \<le> 2 ^ 53 \<Longrightarrow> double_of_nat n = of_nat n"
  by (simp add: double_of_nat_def rnd_of_nat)

lemma double_of_nat_mono: "m \<le> n \<Longrightarrow> double_of_nat m \<le> double_of_nat n"
  by (simp add: double_of_nat_def rnd_mono)

lemma double_of_nat_nonneg [simp]: "0 \<le> double_of_nat n"
  by (simp add: double_of_nat_def rnd_nonneg)

lemma dmul_mono: "a \<le> b \<Longrightarrow> 0 \<le> c \<Longrightarrow> dmul c a \<le> dmul c b"
  by (simp add: dmul_def rnd_mono mult_left_mono)

lemma dmul_nonneg: "0 \<le> a \<Longrightarrow> 0 \<le> b \<Longrightarrow> 0 \<le> dmul a b"
  by (simp add: dmul_def rnd_nonneg)

lemma dadd_mono: "a \<le> b \<Longrightarrow> dadd c a \<le> dadd c b"
  by (simp add: dadd_def rnd_mono)

lemma dclamp_bounds: "lo \<le> hi \<Longrightarrow> lo \<le> dclamp x lo hi \<and> dclamp x lo hi \<le> hi"
  by (simp add: dclamp_def)

lemma dclamp_mono: "lo \<le> hi \<Longrightarrow> x \<le> y \<Longrightarrow> dclamp x lo hi \<le> dclamp y lo hi"
  by (simp add: dclamp_def)

text \<open>Scaling a small integer by a factor at most one and truncating never increases it.\<close>

lemma cast_dmul_le:
  assumes "unat w \<le> 2 ^ 53" "0 \<le> r" "r \<le> 1" "cast_u64 (dmul (double_of_u64 w) r) = Inr v"
  shows "unat v \<le> unat w"
proof -
  have w: "double_of_u64 w = of_nat (unat w)"
    using assms(1) by (simp add: double_of_u64_def double_of_nat_exact)
  have "of_nat (unat w) * r \<le> of_nat (unat w)"
    using assms(3) by (intro mult_left_le of_nat_0_le_iff)
  then have "dmul (double_of_u64 w) r \<le> rnd (of_nat (unat w))"
    unfolding dmul_def w by (rule rnd_mono)
  then have le: "dmul (double_of_u64 w) r \<le> of_nat (unat w)"
    using rnd_of_nat [OF assms(1)] by metis
  then have "\<lfloor>dmul (double_of_u64 w) r\<rfloor> \<le> int (unat w)"
    by (metis floor_mono floor_of_nat)
  then have "nat \<lfloor>dmul (double_of_u64 w) r\<rfloor> \<le> unat w" by (metis nat_int nat_mono)
  moreover have "v = word_of_nat (nat \<lfloor>dmul (double_of_u64 w) r\<rfloor>)"
    using assms(4) by (simp add: cast_u64_def split: if_splits)
  ultimately show ?thesis
    by (metis le_unat_uoi)
qed

lemma cast_u64_mono:
  assumes "a \<le> b" "cast_u64 a = Inr v" "cast_u64 b = Inr w"
  shows "unat v \<le> unat w"
proof -
  have "nat \<lfloor>a\<rfloor> \<le> nat \<lfloor>b\<rfloor>" using assms(1) by (simp add: floor_mono nat_mono)
  moreover have "nat \<lfloor>b\<rfloor> < 2 ^ 64"
  proof -
    have "b < 2 ^ 64" using assms(3) by (simp add: cast_u64_def split: if_splits)
    then have "\<lfloor>b\<rfloor> < int (2 ^ 64)" by (subst floor_less_iff) simp
    then show ?thesis by (metis nat_int of_nat_0_less_iff zero_less_numeral zero_less_power
        zless_nat_conj)
  qed
  ultimately show ?thesis
    using assms(2,3) by (auto simp: cast_u64_def unat_of_nat split: if_splits)
qed

end
