(* ===== verification/CountMinSketch.thy ===== *)
theory CountMinSketch
  imports Doubles
begin

text \<open>
  The count-min sketch of \<^verbatim>\<open>two-level-admission-control/CountMinSketch.hpp\<close>: a matrix of 64-bit
  counters, one row per hash function, kept in one array in row-major order. \<open>std::hash\<close> on the key
  type is the argument \<open>hasher\<close>; the row seeds come from \<open>std::mt19937_64\<close>, which the standard
  fixes and which is written out here. Counters are words, so \<open>fetch_add\<close> wraps; the laws state
  the room they need.
\<close>

section \<open>The generator of the row seeds: std::mt19937\_64\<close>

definition mt_init :: "u64 \<Rightarrow> u64 list" where
  "mt_init seed =
     rev (fold (\<lambda>i xs. (6364136223846793005 * (hd xs XOR drop_bit 62 (hd xs)) + word_of_nat i) # xs)
       [1..<312] [seed])"

definition mt_twist :: "u64 list \<Rightarrow> u64 list" where
  "mt_twist x =
     fold (\<lambda>i x.
        let y = (x ! i AND 0xFFFFFFFF80000000) OR (x ! ((i + 1) mod 312) AND 0x7FFFFFFF)
        in x[i := x ! ((i + 156) mod 312) XOR drop_bit 1 y XOR
                   (if odd y then 0xB5026F5AA96619E9 else 0)])
       [0..<312] x"

definition mt_temper :: "u64 \<Rightarrow> u64" where
  "mt_temper y0 =
     (let y1 = y0 XOR (drop_bit 29 y0 AND 0x5555555555555555);
          y2 = y1 XOR (push_bit 17 y1 AND 0x71D67FFFEDA60000);
          y3 = y2 XOR (push_bit 37 y2 AND 0xFFF7EEE000000000)
      in y3 XOR drop_bit 43 y3)"

text \<open>The \<open>n\<close>-th output: every 312 outputs the state is twisted once more.\<close>

definition mt19937_64 :: "u64 \<Rightarrow> nat \<Rightarrow> u64" where
  "mt19937_64 seed n = mt_temper (((mt_twist ^^ (n div 312 + 1)) (mt_init seed)) ! (n mod 312))"

section \<open>State and operations\<close>

record cms =
  cms_row_num :: nat
  cms_col_num :: nat
  cms_matrix :: "u64 list"
  cms_hash_seeds :: "u64 list"

definition newCountMinSketch :: "nat \<Rightarrow> nat \<Rightarrow> cms" where
  "newCountMinSketch rows cols =
     \<lparr>cms_row_num = rows, cms_col_num = cols, cms_matrix = replicate (rows * cols) 0,
      cms_hash_seeds = map (mt19937_64 0x9e3779b9) [0..<rows]\<rparr>"

definition cms_at :: "cms \<Rightarrow> nat \<Rightarrow> nat \<Rightarrow> u64" where
  "cms_at s i j = cms_matrix s ! (i * cms_col_num s + j)"

definition cms_put :: "nat \<Rightarrow> nat \<Rightarrow> u64 \<Rightarrow> cms \<Rightarrow> cms" where
  "cms_put i j v s = s\<lparr>cms_matrix := (cms_matrix s)[i * cms_col_num s + j := v]\<rparr>"

definition murmur_mix :: "u64 \<Rightarrow> u64" where
  "murmur_mix h0 =
     (let h1 = h0 XOR drop_bit 33 h0;
          h2 = h1 * 0xff51afd7e558ccd;
          h3 = h2 XOR drop_bit 33 h2;
          h4 = h3 * 0xc4ceb9fe1a85ec53
      in h4 XOR drop_bit 33 h4)"

definition Hash :: "('k \<Rightarrow> u64) \<Rightarrow> cms \<Rightarrow> 'k \<Rightarrow> nat \<Rightarrow> u64" where
  "Hash hasher s key hash_index = murmur_mix (hasher key + cms_hash_seeds s ! hash_index)"

definition col_index :: "('k \<Rightarrow> u64) \<Rightarrow> cms \<Rightarrow> 'k \<Rightarrow> nat \<Rightarrow> nat" where
  "col_index hasher s key i = unat (Hash hasher s key i) mod cms_col_num s"

text \<open>The body of the update loop for row \<open>i\<close>, and a store to one cell computed from its value.\<close>

definition bump_row :: "('k \<Rightarrow> u64) \<Rightarrow> 'k \<Rightarrow> nat \<Rightarrow> cms \<Rightarrow> cms" where
  "bump_row hasher key i s =
     (let c = col_index hasher s key i in cms_put i c (cms_at s i c + 1) s)"

definition map_cell :: "(u64 \<Rightarrow> u64) \<Rightarrow> nat \<Rightarrow> nat \<Rightarrow> cms \<Rightarrow> cms" where
  "map_cell f i j s = cms_put i j (f (cms_at s i j)) s"

definition CMSUpdate :: "('k \<Rightarrow> u64) \<Rightarrow> cms \<Rightarrow> 'k \<Rightarrow> cms" where
  "CMSUpdate hasher s key = fold (bump_row hasher key) [0..<cms_row_num s] s"

definition CMSQuery :: "('k \<Rightarrow> u64) \<Rightarrow> cms \<Rightarrow> 'k \<Rightarrow> u64" where
  "CMSQuery hasher s key =
     fold (\<lambda>i min_count. min min_count (cms_at s i (col_index hasher s key i)))
       [0..<cms_row_num s] (- 1)"

definition CMSAging :: "cms \<Rightarrow> cms" where
  "CMSAging s =
     fold (\<lambda>i s. fold (map_cell (drop_bit 1) i) [0..<cms_col_num s] s) [0..<cms_row_num s] s"

definition CMSReset :: "cms \<Rightarrow> cms" where
  "CMSReset s =
     fold (\<lambda>i s. fold (map_cell (\<lambda>_. 0) i) [0..<cms_col_num s] s) [0..<cms_row_num s] s"

definition CMSGetMemoryUsage :: "cms \<Rightarrow> nat" where
  "CMSGetMemoryUsage s = cms_row_num s * cms_col_num s * 8"

subsection \<open>The page sketch and the record sketch\<close>

text \<open>\<open>std::hash\<close> on a pair of page id and slot id, given in the source over \<open>std::hash\<close> on integers.\<close>

definition pair_hash :: "(u64 \<Rightarrow> u64) \<Rightarrow> (u16 \<Rightarrow> u64) \<Rightarrow> u64 \<times> u16 \<Rightarrow> u64" where
  "pair_hash hash64 hash16 p = hash64 (fst p) XOR (hash16 (snd p) * 2654435761)"

definition CMSPageAccessUpdate :: "(u64 \<Rightarrow> u64) \<Rightarrow> cms \<Rightarrow> u64 \<Rightarrow> cms" where
  "CMSPageAccessUpdate hash64 s page_id = CMSUpdate hash64 s page_id"

definition CMSGetPageAccessCount :: "(u64 \<Rightarrow> u64) \<Rightarrow> cms \<Rightarrow> u64 \<Rightarrow> u64" where
  "CMSGetPageAccessCount hash64 s page_id = CMSQuery hash64 s page_id"

definition CMSRecordAccessUpdate ::
    "(u64 \<Rightarrow> u64) \<Rightarrow> (u16 \<Rightarrow> u64) \<Rightarrow> cms \<Rightarrow> u64 \<Rightarrow> u16 \<Rightarrow> cms" where
  "CMSRecordAccessUpdate hash64 hash16 s page_id slot_id =
     CMSUpdate (pair_hash hash64 hash16) s (page_id, slot_id)"

definition CMSGetRecordAccessCount ::
    "(u64 \<Rightarrow> u64) \<Rightarrow> (u16 \<Rightarrow> u64) \<Rightarrow> cms \<Rightarrow> u64 \<Rightarrow> u16 \<Rightarrow> u64" where
  "CMSGetRecordAccessCount hash64 hash16 s page_id slot_id =
     CMSQuery (pair_hash hash64 hash16) s (page_id, slot_id)"

section \<open>Invariant and cell-level effect of the operations\<close>

definition cms_wf :: "cms \<Rightarrow> bool" where
  "cms_wf s \<longleftrightarrow> 0 < cms_row_num s \<and> 0 < cms_col_num s
     \<and> length (cms_matrix s) = cms_row_num s * cms_col_num s
     \<and> length (cms_hash_seeds s) = cms_row_num s"

lemma cms_wf_row: "cms_wf s \<Longrightarrow> 0 < cms_row_num s"
  by (simp add: cms_wf_def)

text \<open>Every counter is at most \<open>n\<close>: the room that is left before \<open>fetch_add\<close> wraps.\<close>

definition cms_bounded :: "nat \<Rightarrow> cms \<Rightarrow> bool" where
  "cms_bounded n s \<longleftrightarrow> (\<forall>c \<in> set (cms_matrix s). unat c \<le> n)"

definition same_shape :: "cms \<Rightarrow> cms \<Rightarrow> bool" where
  "same_shape s t \<longleftrightarrow> cms_row_num t = cms_row_num s \<and> cms_col_num t = cms_col_num s
     \<and> cms_hash_seeds t = cms_hash_seeds s \<and> length (cms_matrix t) = length (cms_matrix s)"

lemma same_shape_refl [simp]: "same_shape s s"
  by (simp add: same_shape_def)

lemma same_shape_put [simp]: "same_shape s (cms_put i j v t) = same_shape s t"
  by (simp add: same_shape_def cms_put_def)

lemma same_shape_col_index: "same_shape s t \<Longrightarrow> col_index hasher t = col_index hasher s"
  by (simp add: same_shape_def col_index_def Hash_def fun_eq_iff)

lemma same_shape_wf: "same_shape s t \<Longrightarrow> cms_wf s \<Longrightarrow> cms_wf t"
  by (simp add: same_shape_def cms_wf_def)

lemma cms_wf_new [simp]: "0 < rows \<Longrightarrow> 0 < cols \<Longrightarrow> cms_wf (newCountMinSketch rows cols)"
  by (simp add: cms_wf_def newCountMinSketch_def)

lemma cell_index_less:
  assumes "i < r" "j < (c::nat)"
  shows "i * c + j < r * c"
proof -
  have "i * c + j < (i + 1) * c" using assms(2) by simp
  also have "\<dots> \<le> r * c" using assms(1) by (intro mult_right_mono) auto
  finally show ?thesis .
qed

lemma cell_index_inj:
  assumes "i * c + j = i' * c + j'" "j < c" "j' < (c::nat)"
  shows "i = i' \<and> j = j'"
proof -
  have "i = (i * c + j) div c" "i' = (i' * c + j') div c" using assms(2,3) by simp_all
  then have "i = i'" using assms(1) by simp
  then show ?thesis using assms(1) by simp
qed

lemma cms_at_put:
  assumes "cms_wf t" "i < cms_row_num t" "j < cms_col_num t" "i' < cms_row_num t" "j' < cms_col_num t"
  shows "cms_at (cms_put i j v t) i' j' = (if i = i' \<and> j = j' then v else cms_at t i' j')"
  using assms cell_index_less [of i "cms_row_num t" j "cms_col_num t"]
  by (auto simp: cms_at_def cms_put_def cms_wf_def nth_list_update dest: cell_index_inj)

lemma col_index_less [simp]: "cms_wf s \<Longrightarrow> col_index hasher s key i < cms_col_num s"
  by (simp add: cms_wf_def col_index_def)

lemma cms_bounded_cell:
  "cms_wf s \<Longrightarrow> cms_bounded n s \<longleftrightarrow> (\<forall>i<cms_row_num s. \<forall>j<cms_col_num s. unat (cms_at s i j) \<le> n)"
proof -
  assume wf: "cms_wf s"
  have "c \<in> set (cms_matrix s) \<longleftrightarrow> (\<exists>i<cms_row_num s. \<exists>j<cms_col_num s. c = cms_at s i j)" for c
  proof
    assume "c \<in> set (cms_matrix s)"
    then obtain k where k: "k < cms_row_num s * cms_col_num s" "c = cms_matrix s ! k"
      using wf by (auto simp: in_set_conv_nth cms_wf_def)
    then have "k div cms_col_num s < cms_row_num s" "k mod cms_col_num s < cms_col_num s"
      using wf by (auto simp: cms_wf_def less_mult_imp_div_less)
    moreover have "c = cms_at s (k div cms_col_num s) (k mod cms_col_num s)"
      using k(2) by (simp add: cms_at_def)
    ultimately show "\<exists>i<cms_row_num s. \<exists>j<cms_col_num s. c = cms_at s i j" by blast
  next
    assume "\<exists>i<cms_row_num s. \<exists>j<cms_col_num s. c = cms_at s i j"
    then show "c \<in> set (cms_matrix s)"
      using wf cell_index_less by (auto simp: cms_at_def cms_wf_def)
  qed
  then show ?thesis by (auto simp: cms_bounded_def)
qed

subsection \<open>Update\<close>

lemma update_prefix:
  assumes "cms_wf s" "n \<le> cms_row_num s"
  shows "same_shape s (fold (bump_row hasher key) [0..<n] s) \<and> (\<forall>i<cms_row_num s. \<forall>j<cms_col_num s.
           cms_at (fold (bump_row hasher key) [0..<n] s) i j =
             (if i < n \<and> j = col_index hasher s key i then cms_at s i j + 1 else cms_at s i j))"
  using assms(2)
proof (induction n)
  case 0
  then show ?case by simp
next
  case (Suc n)
  define u where
    "u = fold (bump_row hasher key) [0..<n] s"
  from Suc have sh: "same_shape s u"
    and cells: "\<forall>i<cms_row_num s. \<forall>j<cms_col_num s.
      cms_at u i j = (if i < n \<and> j = col_index hasher s key i then cms_at s i j + 1 else cms_at s i j)"
    by (auto simp: u_def)
  have wf: "cms_wf u" using sh assms(1) by (rule same_shape_wf)
  have dims: "cms_row_num u = cms_row_num s" "cms_col_num u = cms_col_num s"
    using sh by (simp_all add: same_shape_def)
  let ?c = "col_index hasher s key n"
  have c: "?c < cms_col_num s" using assms(1) by simp
  have step: "fold (bump_row hasher key) [0..<Suc n] s
      = cms_put n ?c (cms_at u n ?c + 1) u"
    by (simp add: u_def [symmetric] bump_row_def Let_def same_shape_col_index [OF sh])
  show ?case unfolding step
    using sh Suc.prems c cells by (auto simp: cms_at_put [OF wf] dims less_Suc_eq)
qed

lemma same_shape_update: "cms_wf s \<Longrightarrow> same_shape s (CMSUpdate hasher s key)"
  using update_prefix [of s "cms_row_num s" hasher key] by (simp add: CMSUpdate_def)

lemma cms_at_update:
  assumes "cms_wf s" "i < cms_row_num s" "j < cms_col_num s"
  shows "cms_at (CMSUpdate hasher s key) i j =
    (if j = col_index hasher s key i then cms_at s i j + 1 else cms_at s i j)"
  using update_prefix [of s "cms_row_num s" hasher key] assms by (simp add: CMSUpdate_def)

subsection \<open>Loops over all cells\<close>

lemma row_loop:
  assumes "cms_wf s" "i < cms_row_num s" "n \<le> cms_col_num s"
  shows "same_shape s (fold (map_cell f i) [0..<n] s) \<and> (\<forall>i'<cms_row_num s. \<forall>j<cms_col_num s.
           cms_at (fold (map_cell f i) [0..<n] s) i' j = (if i' = i \<and> j < n then f (cms_at s i' j) else cms_at s i' j))"
  using assms(3) 
proof (induction n)
  case (Suc n)
  define u where "u = fold (map_cell f i) [0..<n] s"
  from Suc have sh: "same_shape s u"
    and cells: "\<forall>i'<cms_row_num s. \<forall>j<cms_col_num s.
      cms_at u i' j = (if i' = i \<and> j < n then f (cms_at s i' j) else cms_at s i' j)"
    by (auto simp: u_def)
  have wf: "cms_wf u" using sh assms(1) by (rule same_shape_wf)
  have dims: "cms_row_num u = cms_row_num s" "cms_col_num u = cms_col_num s"
    using sh by (simp_all add: same_shape_def)
  have step: "fold (map_cell f i) [0..<Suc n] s = cms_put i n (f (cms_at u i n)) u"
    by (simp add: u_def [symmetric]) (simp add: map_cell_def)
  show ?case unfolding step
    using sh Suc.prems assms(2) cells
    by (auto simp: cms_at_put [OF wf] dims less_Suc_eq)
qed simp

lemma cell_loop:
  assumes "cms_wf s" "n \<le> cms_row_num s"
  shows "same_shape s (fold (\<lambda>i s. fold (map_cell f i) [0..<cms_col_num s] s) [0..<n] s) \<and> (\<forall>i<cms_row_num s. \<forall>j<cms_col_num s.
           cms_at (fold (\<lambda>i s. fold (map_cell f i) [0..<cms_col_num s] s) [0..<n] s) i j =
             (if i < n then f (cms_at s i j) else cms_at s i j))"
  using assms(2) 
proof (induction n)
  case (Suc n)
  define u where
    "u = fold (\<lambda>i s. fold (map_cell f i) [0..<cms_col_num s] s) [0..<n] s"
  from Suc have sh: "same_shape s u"
    and cells: "\<forall>i<cms_row_num s. \<forall>j<cms_col_num s.
      cms_at u i j = (if i < n then f (cms_at s i j) else cms_at s i j)"
    by (auto simp: u_def)
  have wf: "cms_wf u" using sh assms(1) by (rule same_shape_wf)
  have dims: "cms_row_num u = cms_row_num s" "cms_col_num u = cms_col_num s"
    using sh by (simp_all add: same_shape_def)
  have row: "same_shape u (fold (map_cell f n) [0..<cms_col_num u] u)"
      "\<forall>i'<cms_row_num u. \<forall>j<cms_col_num u.
        cms_at (fold (map_cell f n) [0..<cms_col_num u] u) i' j
          = (if i' = n then f (cms_at u i' j) else cms_at u i' j)"
    using row_loop [OF wf, of n "cms_col_num u" f] Suc.prems dims by auto
  show ?case
    using sh Suc.prems cells row by (auto simp: u_def [symmetric] dims less_Suc_eq same_shape_def)
qed simp

lemma same_shape_aging: "cms_wf s \<Longrightarrow> same_shape s (CMSAging s)"
  using cell_loop [of s "cms_row_num s" "drop_bit 1"] by (simp add: CMSAging_def)

lemma cms_at_aging:
  assumes "cms_wf s" "i < cms_row_num s" "j < cms_col_num s"
  shows "cms_at (CMSAging s) i j = drop_bit 1 (cms_at s i j)"
  using cell_loop [of s "cms_row_num s" "drop_bit 1"] assms by (simp add: CMSAging_def)

lemma same_shape_reset: "cms_wf s \<Longrightarrow> same_shape s (CMSReset s)"
  using cell_loop [of s "cms_row_num s" "\<lambda>_. 0"] by (simp add: CMSReset_def)

lemma cms_at_reset:
  assumes "cms_wf s" "i < cms_row_num s" "j < cms_col_num s"
  shows "cms_at (CMSReset s) i j = 0"
  using cell_loop [of s "cms_row_num s" "\<lambda>_. 0"] assms by (simp add: CMSReset_def)

lemmas cms_wf_ops =
  same_shape_wf [OF same_shape_update] same_shape_wf [OF same_shape_aging]
  same_shape_wf [OF same_shape_reset]

subsection \<open>Query\<close>

lemma fold_min_le: "fold (\<lambda>i m. min m (g i)) xs (a :: u64) \<le> a"
proof (induction xs arbitrary: a)
  case (Cons x xs)
  then have "fold (\<lambda>i m. min m (g i)) xs (min a (g x)) \<le> min a (g x)" .
  then show ?case by simp
qed simp

lemma fold_min_lower: "i \<in> set xs \<Longrightarrow> fold (\<lambda>i m. min m (g i)) xs (a :: u64) \<le> g i"
proof (induction xs arbitrary: a)
  case (Cons x xs)
  show ?case
  proof (cases "i = x")
    case True
    then show ?thesis using fold_min_le [of g xs "min a (g x)"] by (auto intro: order_trans)
  next
    case False
    then show ?thesis using Cons by auto
  qed
qed simp

lemma fold_min_attained:
  "fold (\<lambda>i m. min m (g i)) xs (a :: u64) = a \<or> (\<exists>i \<in> set xs. fold (\<lambda>i m. min m (g i)) xs a = g i)"
proof (induction xs arbitrary: a)
  case (Cons x xs)
  from Cons [of "min a (g x)"] show ?case by (auto simp: min_def split: if_splits)
qed simp

lemma query_le_cell:
  "i < cms_row_num s \<Longrightarrow> CMSQuery hasher s key \<le> cms_at s i (col_index hasher s key i)"
  unfolding CMSQuery_def by (rule fold_min_lower) simp

lemma query_attained:
  assumes "cms_wf s"
  obtains i where "i < cms_row_num s" "CMSQuery hasher s key = cms_at s i (col_index hasher s key i)"
proof -
  have pos: "0 < cms_row_num s" using assms by (simp add: cms_wf_def)
  let ?g = "\<lambda>i. cms_at s i (col_index hasher s key i)"
  consider (top) "CMSQuery hasher s key = - 1"
    | (cell) "\<exists>i \<in> set [0..<cms_row_num s]. CMSQuery hasher s key = ?g i"
    unfolding CMSQuery_def using fold_min_attained [of ?g "[0..<cms_row_num s]" "- 1"] by blast
  then show ?thesis
  proof cases
    case top
    have "CMSQuery hasher s key \<le> ?g 0" using pos by (rule query_le_cell)
    then have "?g 0 = - 1" using top by (simp add: word_order.extremum_uniqueI)
    then show ?thesis using that [OF pos] top by simp
  next
    case cell
    then show ?thesis using that by auto
  qed
qed

lemma query_eqI:
  assumes "cms_wf s" "i < cms_row_num s" "unat (cms_at s i (col_index hasher s key i)) = m"
    and "\<And>j. j < cms_row_num s \<Longrightarrow> m \<le> unat (cms_at s j (col_index hasher s key j))"
  shows "unat (CMSQuery hasher s key) = m"
proof -
  obtain j where j: "j < cms_row_num s" "CMSQuery hasher s key = cms_at s j (col_index hasher s key j)"
    using assms(1) by (rule query_attained)
  have "unat (CMSQuery hasher s key) \<le> m"
    using query_le_cell [OF assms(2)] assms(3) by (metis word_le_nat_alt)
  moreover have "m \<le> unat (CMSQuery hasher s key)" using j assms(4) by simp
  ultimately show ?thesis by simp
qed

lemma query_Min:
  assumes "cms_wf s"
  shows "unat (CMSQuery hasher s key) =
    Min ((\<lambda>i. unat (cms_at s i (col_index hasher s key i))) ` {..<cms_row_num s})"
proof (rule sym, rule Min_eqI)
  obtain j where "j < cms_row_num s" "CMSQuery hasher s key = cms_at s j (col_index hasher s key j)"
    using assms by (rule query_attained)
  then show "unat (CMSQuery hasher s key)
      \<in> (\<lambda>i. unat (cms_at s i (col_index hasher s key i))) ` {..<cms_row_num s}"
    by auto
qed (auto simp: query_le_cell simp flip: word_le_nat_alt)

definition cms_inv :: "nat \<Rightarrow> cms \<Rightarrow> bool" where
  "cms_inv n s \<longleftrightarrow> cms_wf s \<and> cms_bounded n s"

lemma cms_inv_cell:
  "cms_inv n s \<Longrightarrow> i < cms_row_num s \<Longrightarrow> j < cms_col_num s \<Longrightarrow> unat (cms_at s i j) \<le> n"
  using cms_bounded_cell [of s n] by (auto simp: cms_inv_def)

lemma cms_invI:
  assumes "cms_wf s"
    and "\<And>i j. i < cms_row_num s \<Longrightarrow> j < cms_col_num s \<Longrightarrow> unat (cms_at s i j) \<le> n"
  shows "cms_inv n s"
  using assms by (simp add: cms_inv_def cms_bounded_cell)

lemma cms_inv_wf [dest]: "cms_inv n s \<Longrightarrow> cms_wf s"
  by (simp add: cms_inv_def)

lemma unat_cell_update:
  assumes "cms_inv n s" "fits64 (Suc n)" "i < cms_row_num s" "j < cms_col_num s"
  shows "unat (cms_at (CMSUpdate hasher s key) i j) =
    (if j = col_index hasher s key i then Suc (unat (cms_at s i j)) else unat (cms_at s i j))"
  using unat_bump [OF cms_inv_cell [OF assms(1,3,4)] assms(2)] assms
  by (auto simp: cms_at_update [OF cms_inv_wf])

lemmas shape_dims = same_shape_def [THEN iffD1]

lemma col_index_ops [simp]:
  "cms_wf s \<Longrightarrow> col_index hasher (CMSUpdate hasher s key) = col_index hasher s"
  "cms_wf s \<Longrightarrow> col_index hasher (CMSAging s) = col_index hasher s"
  "cms_wf s \<Longrightarrow> col_index hasher (CMSReset s) = col_index hasher s"
  by (simp_all add: same_shape_col_index same_shape_update same_shape_aging same_shape_reset)

lemma dims_ops [simp]:
  "cms_wf s \<Longrightarrow> cms_row_num (CMSUpdate hasher s key) = cms_row_num s"
  "cms_wf s \<Longrightarrow> cms_col_num (CMSUpdate hasher s key) = cms_col_num s"
  "cms_wf s \<Longrightarrow> cms_row_num (CMSAging s) = cms_row_num s"
  "cms_wf s \<Longrightarrow> cms_col_num (CMSAging s) = cms_col_num s"
  "cms_wf s \<Longrightarrow> cms_row_num (CMSReset s) = cms_row_num s"
  "cms_wf s \<Longrightarrow> cms_col_num (CMSReset s) = cms_col_num s"
  using same_shape_update [of s hasher key] same_shape_aging [of s] same_shape_reset [of s]
  by (simp_all add: same_shape_def)

section \<open>The contract of a frequency sketch\<close>

text \<open>
  What the admission code relies on: an update raises the estimate of its key by exactly one and
  that of any other key by at most one, aging halves every estimate, a reset clears them, and no
  estimate exceeds the bound that says how much room the counters have.
\<close>

datatype 'k sketch_op = Touch 'k | Age | Clear

fun sketch_run :: "('s \<Rightarrow> 'k \<Rightarrow> 's) \<Rightarrow> ('s \<Rightarrow> 's) \<Rightarrow> ('s \<Rightarrow> 's) \<Rightarrow> 's \<Rightarrow> 'k sketch_op list \<Rightarrow> 's" where
  "sketch_run upd age reset s [] = s"
| "sketch_run upd age reset s (Touch k # ops) = sketch_run upd age reset (upd s k) ops"
| "sketch_run upd age reset s (Age # ops) = sketch_run upd age reset (age s) ops"
| "sketch_run upd age reset s (Clear # ops) = sketch_run upd age reset (reset s) ops"

text \<open>The exact count of one key under the same operations: what the sketch approximates.\<close>

fun exact_count :: "'k \<Rightarrow> nat \<Rightarrow> 'k sketch_op list \<Rightarrow> nat" where
  "exact_count key c [] = c"
| "exact_count key c (Touch k # ops) = exact_count key (if k = key then c + 1 else c) ops"
| "exact_count key c (Age # ops) = exact_count key (c div 2) ops"
| "exact_count key c (Clear # ops) = exact_count key 0 ops"

fun touches :: "'k sketch_op list \<Rightarrow> nat" where
  "touches [] = 0"
| "touches (Touch k # ops) = Suc (touches ops)"
| "touches (Age # ops) = touches ops"
| "touches (Clear # ops) = touches ops"

locale frequency_sketch =
  fixes upd :: "'s \<Rightarrow> 'k \<Rightarrow> 's" and age :: "'s \<Rightarrow> 's" and reset :: "'s \<Rightarrow> 's"
    and query :: "'s \<Rightarrow> 'k \<Rightarrow> u64" and sinv :: "nat \<Rightarrow> 's \<Rightarrow> bool"
  assumes inv_upd: "sinv n s \<Longrightarrow> fits64 (Suc n) \<Longrightarrow> sinv (Suc n) (upd s k)"
    and inv_age: "sinv n s \<Longrightarrow> sinv (n div 2) (age s)"
    and inv_reset: "sinv n s \<Longrightarrow> sinv 0 (reset s)"
    and query_bound: "sinv n s \<Longrightarrow> unat (query s k) \<le> n"
    and query_upd_self: "sinv n s \<Longrightarrow> fits64 (Suc n) \<Longrightarrow> unat (query (upd s k) k) = Suc (unat (query s k))"
    and query_upd_ge: "sinv n s \<Longrightarrow> fits64 (Suc n) \<Longrightarrow> unat (query s k') \<le> unat (query (upd s k) k')"
    and query_upd_le: "sinv n s \<Longrightarrow> fits64 (Suc n) \<Longrightarrow> unat (query (upd s k) k') \<le> Suc (unat (query s k'))"
    and query_age: "sinv n s \<Longrightarrow> unat (query (age s) k) = unat (query s k) div 2"
    and query_reset: "sinv n s \<Longrightarrow> unat (query (reset s) k) = 0"
begin

lemma inv_weaken_run: "sinv n s \<Longrightarrow> fits64 (n + touches ops) \<Longrightarrow> \<exists>m. m \<le> n + touches ops \<and> sinv m (sketch_run upd age reset s ops)"
proof (induction ops arbitrary: s n rule: touches.induct)
  case (2 k ops)
  then have "sinv (Suc n) (upd s k)" using fits64_mono by (auto intro!: inv_upd)
  from "2.IH" [OF this] "2.prems" show ?case by simp
next
  case (3 ops)
  have le: "n div 2 + touches ops \<le> n + touches ops" by simp
  then have "fits64 (n div 2 + touches ops)" using "3.prems"(2) fits64_mono by simp
  from "3.IH" [OF inv_age [OF "3.prems"(1)] this] show ?case
    using le by (metis order_trans sketch_run.simps(3) touches.simps(3))
next
  case (4 ops)
  have le: "0 + touches ops \<le> n + touches ops" by simp
  then have "fits64 (0 + touches ops)" using "4.prems"(2) fits64_mono by simp
  from "4.IH" [OF inv_reset [OF "4.prems"(1)] this] show ?case
    using le by (metis order_trans sketch_run.simps(4) touches.simps(4))
qed auto

theorem estimate_dominates:
  assumes "sinv n s" "fits64 (n + touches ops)" "c \<le> unat (query s key)"
  shows "exact_count key c ops \<le> unat (query (sketch_run upd age reset s ops) key)"
  using assms
proof (induction ops arbitrary: s n c rule: touches.induct)
  case (2 k ops)
  have room: "fits64 (Suc n)" using "2.prems"(2) fits64_mono by simp
  have i: "sinv (Suc n) (upd s k)" using "2.prems"(1) room by (rule inv_upd)
  have "(if k = key then c + 1 else c) \<le> unat (query (upd s k) key)"
    using query_upd_self [OF "2.prems"(1) room, of k] "2.prems"(3)
      query_upd_ge [OF "2.prems"(1) room, of key k] by auto
  with "2.IH" [OF i] "2.prems"(2) show ?case by simp
next
  case (3 ops)
  have "c div 2 \<le> unat (query (age s) key)"
    using "3.prems"(1,3) by (simp add: query_age div_le_mono)
  moreover have "fits64 (n div 2 + touches ops)" using "3.prems"(2) fits64_mono by simp
  ultimately show ?case using "3.IH" [OF inv_age [OF "3.prems"(1)]] by simp
next
  case (4 ops)
  have "fits64 (0 + touches ops)" using "4.prems"(2) fits64_mono by simp
  from "4.IH" [OF inv_reset [OF "4.prems"(1)] this] show ?case by simp
qed simp

theorem estimate_at_most:
  assumes "sinv n s" "fits64 (n + touches ops)"
  shows "unat (query (sketch_run upd age reset s ops) key) \<le> n + touches ops"
  using inv_weaken_run [OF assms] query_bound order_trans by blast

end

lemma cms_inv_update: "cms_inv n s \<Longrightarrow> fits64 (Suc n) \<Longrightarrow> cms_inv (Suc n) (CMSUpdate hasher s key)"
  by (rule cms_invI) (auto simp: cms_wf_ops cms_inv_wf unat_cell_update intro: cms_inv_cell le_SucI)

lemma cms_inv_aging: "cms_inv n s \<Longrightarrow> cms_inv (n div 2) (CMSAging s)"
  by (rule cms_invI)
    (auto simp: cms_wf_ops cms_inv_wf cms_at_aging unat_halve intro!: div_le_mono intro: cms_inv_cell)

lemma cms_inv_reset: "cms_inv n s \<Longrightarrow> cms_inv 0 (CMSReset s)"
  by (rule cms_invI) (auto simp: cms_wf_ops cms_inv_wf cms_at_reset)

lemma query_update_self:
  assumes "cms_inv n s" "fits64 (Suc n)"
  shows "unat (CMSQuery hasher (CMSUpdate hasher s k) k) = Suc (unat (CMSQuery hasher s k))"
proof -
  have wf: "cms_wf s" using assms(1) by blast
  obtain i where i: "i < cms_row_num s" "CMSQuery hasher s k = cms_at s i (col_index hasher s k i)"
    using wf by (rule query_attained)
  have "cms_at s i (col_index hasher s k i) \<le> cms_at s j (col_index hasher s k j)"
    if "j < cms_row_num s" for j using query_le_cell [OF that, of hasher k] i(2) by simp
  then show ?thesis
    by (intro query_eqI [of _ i])
      (use i wf in \<open>auto simp: cms_wf_ops unat_cell_update [OF assms] simp flip: word_le_nat_alt\<close>)
qed

lemma query_update_ge:
  assumes "cms_inv n s" "fits64 (Suc n)"
  shows "unat (CMSQuery hasher s k') \<le> unat (CMSQuery hasher (CMSUpdate hasher s k) k')"
proof -
  have wf: "cms_wf s" using assms(1) by blast
  have "cms_wf (CMSUpdate hasher s k)" using wf by (simp add: cms_wf_ops)
  then obtain i where i: "i < cms_row_num s"
    "CMSQuery hasher (CMSUpdate hasher s k) k' = cms_at (CMSUpdate hasher s k) i (col_index hasher s k' i)"
    by (rule query_attained [where hasher = hasher and key = k']) (simp add: wf)
  have "unat (CMSQuery hasher s k') \<le> unat (cms_at s i (col_index hasher s k' i))"
    using query_le_cell [OF i(1)] by (simp add: word_le_nat_alt)
  also have "\<dots> \<le> unat (CMSQuery hasher (CMSUpdate hasher s k) k')"
    using i wf by (simp add: unat_cell_update [OF assms])
  finally show ?thesis .
qed

lemma query_update_le:
  assumes "cms_inv n s" "fits64 (Suc n)"
  shows "unat (CMSQuery hasher (CMSUpdate hasher s k) k') \<le> Suc (unat (CMSQuery hasher s k'))"
proof -
  have wf: "cms_wf s" using assms(1) by blast
  obtain i where i: "i < cms_row_num s" "CMSQuery hasher s k' = cms_at s i (col_index hasher s k' i)"
    using wf by (rule query_attained)
  have "unat (CMSQuery hasher (CMSUpdate hasher s k) k')
      \<le> unat (cms_at (CMSUpdate hasher s k) i (col_index hasher s k' i))"
    using query_le_cell [of i "CMSUpdate hasher s k" hasher k'] i(1) wf by (simp add: word_le_nat_alt)
  also have "\<dots> \<le> Suc (unat (CMSQuery hasher s k'))"
    using i wf by (simp add: unat_cell_update [OF assms])
  finally show ?thesis .
qed

lemma query_aging:
  assumes "cms_wf s"
  shows "unat (CMSQuery hasher (CMSAging s) k) = unat (CMSQuery hasher s k) div 2"
proof -
  obtain i where i: "i < cms_row_num s" "CMSQuery hasher s k = cms_at s i (col_index hasher s k i)"
    using assms by (rule query_attained)
  have "cms_at s i (col_index hasher s k i) \<le> cms_at s j (col_index hasher s k j)"
    if "j < cms_row_num s" for j using query_le_cell [OF that, of hasher k] i(2) by simp
  then show ?thesis
    by (intro query_eqI [of _ i])
      (use i assms in \<open>auto simp: cms_wf_ops cms_at_aging unat_halve word_le_nat_alt intro!: div_le_mono\<close>)
qed

lemma query_reset: "cms_wf s \<Longrightarrow> unat (CMSQuery hasher (CMSReset s) k) = 0"
  by (rule query_eqI [of _ 0]) (auto simp: cms_wf_ops cms_at_reset cms_wf_row)

lemma query_bounded: "cms_inv n s \<Longrightarrow> unat (CMSQuery hasher s k) \<le> n"
proof -
  assume inv: "cms_inv n s"
  then obtain i where "i < cms_row_num s" "CMSQuery hasher s k = cms_at s i (col_index hasher s k i)"
    by (rule query_attained [OF cms_inv_wf])
  then show ?thesis using cms_inv_cell [OF inv] inv by auto
qed

lemmas cms_laws = cms_inv_update cms_inv_aging cms_inv_reset query_bounded query_update_self
  query_update_ge query_update_le query_aging [OF cms_inv_wf] query_reset [OF cms_inv_wf]

lemma cms_frequency_sketch:
  "frequency_sketch (CMSUpdate hasher) CMSAging CMSReset (CMSQuery hasher) cms_inv"
  by unfold_locales (rule cms_laws; assumption)+

interpretation page_sketch: frequency_sketch "CMSPageAccessUpdate hash64" CMSAging CMSReset
    "CMSGetPageAccessCount hash64" cms_inv for hash64
proof -
  have "CMSPageAccessUpdate hash64 = CMSUpdate hash64" "CMSGetPageAccessCount hash64 = CMSQuery hash64"
    by (simp_all add: fun_eq_iff CMSPageAccessUpdate_def CMSGetPageAccessCount_def)
  then show "frequency_sketch (CMSPageAccessUpdate hash64) CMSAging CMSReset
      (CMSGetPageAccessCount hash64) cms_inv"
    by (simp add: cms_frequency_sketch)
qed

interpretation record_sketch: frequency_sketch
    "\<lambda>s (page_id, slot_id). CMSRecordAccessUpdate hash64 hash16 s page_id slot_id" CMSAging CMSReset
    "\<lambda>s (page_id, slot_id). CMSGetRecordAccessCount hash64 hash16 s page_id slot_id" cms_inv
  for hash64 hash16
proof -
  have "(\<lambda>s (p, t). CMSRecordAccessUpdate hash64 hash16 s p t) = CMSUpdate (pair_hash hash64 hash16)"
    and "(\<lambda>s (p, t). CMSGetRecordAccessCount hash64 hash16 s p t) = CMSQuery (pair_hash hash64 hash16)"
    by (simp_all add: fun_eq_iff CMSRecordAccessUpdate_def CMSGetRecordAccessCount_def)
  then show "frequency_sketch (\<lambda>s (p, t). CMSRecordAccessUpdate hash64 hash16 s p t) CMSAging CMSReset
      (\<lambda>s (p, t). CMSGetRecordAccessCount hash64 hash16 s p t) cms_inv"
    by (simp add: cms_frequency_sketch)
qed

section \<open>Cells and estimates after a run of updates\<close>

lemma cms_inv_new: "0 < rows \<Longrightarrow> 0 < cols \<Longrightarrow> cms_inv 0 (newCountMinSketch rows cols)"
  by (simp add: cms_inv_def) (simp add: newCountMinSketch_def cms_bounded_def)

lemma cells_after_updates:
  fixes hasher :: "'k \<Rightarrow> u64"
  assumes "cms_inv n s" "fits64 (n + length ks)"
  defines "t \<equiv> fold (\<lambda>k s. CMSUpdate hasher s k) ks s"
  shows "cms_inv (n + length ks) t \<and> same_shape s t \<and>
    (\<forall>i<cms_row_num s. \<forall>j<cms_col_num s.
      unat (cms_at t i j) = unat (cms_at s i j) + length (filter (\<lambda>k. col_index hasher s k i = j) ks))"
  using assms(1,2) unfolding t_def
proof (induction ks arbitrary: n s)
  case (Cons k ks)
  let ?u = "CMSUpdate hasher s k"
  have room: "fits64 (Suc n)" using Cons.prems(2) fits64_mono by simp
  have wf: "cms_wf s" using Cons.prems(1) by blast
  have sh: "same_shape s ?u" using wf by (rule same_shape_update)
  have inv: "cms_inv (Suc n) ?u" using Cons.prems(1) room by (rule cms_inv_update)
  note IH = Cons.IH [OF inv] Cons.prems(2)
  then show ?case
    using sh wf unat_cell_update [OF Cons.prems(1) room, of _ _ hasher k]
    by (auto simp: same_shape_def)
qed (simp add: same_shape_def)

subsection \<open>The hash finaliser is a bijection\<close>

lemma xorshift33_inj: "inj (\<lambda>h :: u64. h XOR drop_bit 33 h)"
proof (rule inj_on_inverseI)
  fix h :: u64
  have "drop_bit 66 h = 0" by (rule bit_eqI) (auto simp: bit_drop_bit_eq dest: bit_u64_less)
  then show "(\<lambda>h. h XOR drop_bit 33 h) (h XOR drop_bit 33 h) = h"
    by (simp add: drop_bit_xor drop_bit_drop_bit ac_simps xor.left_commute)
qed

lemma odd_mult_inj:
  fixes c d :: u64
  assumes "c * d = 1"
  shows "inj (\<lambda>h. h * c)"
  by (rule inj_on_inverseI [where g = "\<lambda>h. h * d"]) (simp add: assms mult.assoc)

lemma murmur_mix_inj: "inj murmur_mix"
proof -
  have m1: "inj (\<lambda>h :: u64. h * 0xff51afd7e558ccd)" by (rule odd_mult_inj [of _ "0xce794fe0f9a54005"]) simp
  have m2: "inj (\<lambda>h :: u64. h * 0xc4ceb9fe1a85ec53)" by (rule odd_mult_inj [of _ "0x9cb4b2f8129337db"]) simp
  have eq: "murmur_mix = (\<lambda>h. h XOR drop_bit 33 h) \<circ> (\<lambda>h. h * 0xc4ceb9fe1a85ec53)
      \<circ> (\<lambda>h. h XOR drop_bit 33 h) \<circ> (\<lambda>h. h * 0xff51afd7e558ccd) \<circ> (\<lambda>h. h XOR drop_bit 33 h)"
    by (rule ext) (simp add: murmur_mix_def Let_def)
  show ?thesis unfolding eq by (intro inj_compose m1 m2 xorshift33_inj)
qed

section \<open>Properties\<close>

text \<open>
  C21. The page sketch never underestimates. From a fresh sketch, after any interleaving of page
  accesses, agings and resets that makes fewer than \<open>2 ^ 64\<close> accesses, the count returned for a
  page is at least its exact count under the same operations (halved at each aging, cleared at each
  reset), and at most the number of accesses.
\<close>

theorem page_cms_estimate_sound:
  assumes "0 < rows" "0 < cols" "fits64 (touches ops)"
  shows "exact_count page_id 0 ops \<le> unat (CMSGetPageAccessCount hash64
      (sketch_run (CMSPageAccessUpdate hash64) CMSAging CMSReset (newCountMinSketch rows cols) ops) page_id)
    \<and> unat (CMSGetPageAccessCount hash64
      (sketch_run (CMSPageAccessUpdate hash64) CMSAging CMSReset (newCountMinSketch rows cols) ops) page_id)
      \<le> touches ops"
  using page_sketch.estimate_dominates [OF cms_inv_new [OF assms(1,2)], of ops 0 hash64 page_id]
    page_sketch.estimate_at_most [OF cms_inv_new [OF assms(1,2)], of ops hash64 page_id] assms(3)
  by simp

theorem page_cms_estimate_sound_witness:
  "1 \<le> unat (CMSGetPageAccessCount id (sketch_run (CMSPageAccessUpdate id) CMSAging CMSReset
     (newCountMinSketch 2 4) [Touch 7, Touch 9, Touch 7, Age]) 7)"
  using page_cms_estimate_sound [of 2 4 "[Touch 7, Touch 9, Touch 7, Age]" 7 id]
  by (simp add: fits64_def)

text \<open>
  The same contract holds for the record sketch, keyed by page id and slot id.
\<close>

theorem record_cms_estimate_sound:
  assumes "0 < rows" "0 < cols" "fits64 (touches ops)"
  shows "exact_count (page_id, slot_id) 0 ops
      \<le> unat (CMSGetRecordAccessCount hash64 hash16 (sketch_run
          (\<lambda>s (p, t). CMSRecordAccessUpdate hash64 hash16 s p t) CMSAging CMSReset
          (newCountMinSketch rows cols) ops) page_id slot_id)
    \<and> unat (CMSGetRecordAccessCount hash64 hash16 (sketch_run
          (\<lambda>s (p, t). CMSRecordAccessUpdate hash64 hash16 s p t) CMSAging CMSReset
          (newCountMinSketch rows cols) ops) page_id slot_id) \<le> touches ops"
  using record_sketch.estimate_dominates
      [OF cms_inv_new [OF assms(1,2)], where c = 0 and ops = ops and key = "(page_id, slot_id)"]
    record_sketch.estimate_at_most
      [OF cms_inv_new [OF assms(1,2)], where ops = ops and key = "(page_id, slot_id)"] assms(3)
  by simp

theorem record_cms_estimate_sound_witness:
  "1 \<le> unat (CMSGetRecordAccessCount id ucast (sketch_run
     (\<lambda>s (p, t). CMSRecordAccessUpdate id ucast s p t) CMSAging CMSReset (newCountMinSketch 3 8)
     [Touch (7, 2), Touch (7, 3)]) 7 2)"
  using record_cms_estimate_sound [of 3 8 "[Touch (7, 2), Touch (7, 3)]" 7 2 id ucast]
  by (simp add: fits64_def)

text \<open>
  Without aging the estimate is exactly the minimum, over the rows, of the number of updates
  whose key falls into the same column: the count-min sketch of the literature.
\<close>

theorem CMSQuery_counts_collisions:
  assumes "0 < rows" "0 < cols" "fits64 (length ks)"
  shows "unat (CMSQuery hasher (fold (\<lambda>k s. CMSUpdate hasher s k) ks (newCountMinSketch rows cols)) key) =
    Min ((\<lambda>i. length (filter (\<lambda>k. col_index hasher (newCountMinSketch rows cols) k i
        = col_index hasher (newCountMinSketch rows cols) key i) ks)) ` {..<rows})"
proof -
  define s0 where "s0 = newCountMinSketch rows cols"
  have inv: "cms_inv 0 s0" unfolding s0_def using assms(1,2) by (rule cms_inv_new)
  define t where "t = fold (\<lambda>k s. CMSUpdate hasher s k) ks s0"
  have t: "cms_inv (length ks) t" "same_shape s0 t"
    "\<And>i j. i < rows \<Longrightarrow> j < cols \<Longrightarrow> unat (cms_at t i j) =
      length (filter (\<lambda>k. col_index hasher s0 k i = j) ks)"
    using cells_after_updates [OF inv, of ks hasher] assms cell_index_less
    by (auto simp: t_def s0_def newCountMinSketch_def cms_at_def)
  have rows: "cms_row_num t = rows" and cols: "cms_col_num s0 = cols"
    using t(2) by (simp_all add: same_shape_def s0_def newCountMinSketch_def)
  have "unat (CMSQuery hasher t key) =
      Min ((\<lambda>i. unat (cms_at t i (col_index hasher t key i))) ` {..<cms_row_num t})"
    using t(1) by (intro query_Min) blast
  also have "(\<lambda>i. unat (cms_at t i (col_index hasher t key i))) ` {..<cms_row_num t} =
      (\<lambda>i. length (filter (\<lambda>k. col_index hasher s0 k i = col_index hasher s0 key i) ks)) ` {..<rows}"
    using t(3) col_index_less [OF cms_inv_wf [OF inv], of hasher key] same_shape_col_index [OF t(2), of hasher]
    by (simp add: rows cols cong: image_cong_simp)
  finally show ?thesis by (simp add: t_def s0_def)
qed

theorem CMSQuery_counts_collisions_witness:
  "unat (CMSQuery id (fold (\<lambda>k s. CMSUpdate id s k) [5, 5] (newCountMinSketch 1 4)) 5) = 2"
  using CMSQuery_counts_collisions [of 1 4 "[5, 5]" id 5] by (simp add: fits64_def lessThan_Suc)

text \<open>
  Every row's hash function is injective on keys that \<open>std::hash\<close> separates: the finaliser,
  with its multiplier \<open>0xff51afd7e558ccd\<close>, loses no information, so two keys collide in a row only
  through the reduction modulo the number of columns.
\<close>

theorem Hash_injective:
  assumes "inj hasher"
  shows "inj (\<lambda>key. Hash hasher s key i)"
proof -
  have "inj (\<lambda>key. hasher key + cms_hash_seeds s ! i)"
    using assms by (auto simp: inj_def)
  from inj_compose [OF murmur_mix_inj this] show ?thesis by (simp add: Hash_def comp_def)
qed

theorem Hash_injective_witness:
  "Hash id (newCountMinSketch 1 4) (3 :: u64) 0 \<noteq> Hash id (newCountMinSketch 1 4) 4 0"
  using injD [OF Hash_injective [OF inj_on_id, of "newCountMinSketch 1 4" 0], of 3 4] by auto

end
