(* ===== verification/VisitCountBucket.thy ===== *)
theory VisitCountBucket
  imports CountMinSketch
begin

text \<open>
  The visit-frequency buckets of \<^verbatim>\<open>two-level-admission-control/VisitCountBucket.hpp\<close>: bucket \<open>n\<close>
  counts the sampled pages whose visit count lies in \<open>[2 ^ n, 2 ^ (n + 1) - 1]\<close>; the last bucket
  also takes every larger count. Aging shifts the counts one bucket down.
\<close>

section \<open>State and operations\<close>

record visit_bucket =
  bucket_index :: nat
  bucket_range_lower_bound :: u64
  bucket_range_upper_bound :: u64
  page_in_range_count :: u64

definition newVisitFrequencyBucket :: "nat \<Rightarrow> visit_bucket" where
  "newVisitFrequencyBucket index =
     \<lparr>bucket_index = index, bucket_range_lower_bound = push_bit index 1,
      bucket_range_upper_bound = push_bit (index + 1) 1 - 1, page_in_range_count = 0\<rparr>"

definition Accumulate_the_bucket :: "visit_bucket \<Rightarrow> visit_bucket" where
  "Accumulate_the_bucket b = b\<lparr>page_in_range_count := page_in_range_count b + 1\<rparr>"

definition GetBucketCount :: "visit_bucket \<Rightarrow> u64" where
  "GetBucketCount b = page_in_range_count b"

definition SetBucketCount :: "u64 \<Rightarrow> visit_bucket \<Rightarrow> visit_bucket" where
  "SetBucketCount cnt b = b\<lparr>page_in_range_count := cnt\<rparr>"

definition bucket_Reset :: "visit_bucket \<Rightarrow> visit_bucket" where
  "bucket_Reset b = b\<lparr>page_in_range_count := 0\<rparr>"

record bucket_array =
  total_bucket_num :: nat
  buckets :: "visit_bucket list"

definition newVisitFrequencyBucketArray :: "nat \<Rightarrow> bucket_array" where
  "newVisitFrequencyBucketArray n =
     \<lparr>total_bucket_num = n, buckets = map newVisitFrequencyBucket [0..<n]\<rparr>"

definition GetTargetBucket :: "bucket_array \<Rightarrow> nat \<Rightarrow> visit_bucket result" where
  "GetTargetBucket a i = (if i < length (buckets a) then Inr (buckets a ! i) else Inl OutOfRange)"

text \<open>Unsigned decrement of a 64-bit size: 0 wraps to the largest value.\<close>

definition dec64 :: "nat \<Rightarrow> nat" where
  "dec64 n = (if n = 0 then 2 ^ 64 - 1 else n - 1)"

definition CalculateBucketIndex :: "bucket_array \<Rightarrow> u64 \<Rightarrow> nat result" where
  "CalculateBucketIndex a one_page_visit_count =
     bindR (assertR (0 < one_page_visit_count)) (\<lambda>_.
       if one_page_visit_count = 1 then Inr 0
       else
         let bucket_index = 63 - clzll one_page_visit_count in
         if total_bucket_num a \<le> bucket_index then Inr (dec64 (total_bucket_num a))
         else Inr bucket_index)"

definition UpdateVisitFrequencyBucket :: "bucket_array \<Rightarrow> u64 \<Rightarrow> bucket_array result" where
  "UpdateVisitFrequencyBucket a one_page_visit_count =
     bindR (assertR (0 < one_page_visit_count)) (\<lambda>_.
     bindR (CalculateBucketIndex a one_page_visit_count) (\<lambda>i.
     bindR (GetTargetBucket a i) (\<lambda>b.
       Inr (a\<lparr>buckets := (buckets a)[i := Accumulate_the_bucket b]\<rparr>))))"

definition GetCumulativePageCount :: "bucket_array \<Rightarrow> nat \<Rightarrow> u64" where
  "GetCumulativePageCount a begin_bucket_index =
     fold (\<lambda>i acc. acc + GetBucketCount (buckets a ! i)) [begin_bucket_index..<total_bucket_num a] 0"

text \<open>The first \<open>n\<close> rounds of the array shift of the aging loop.\<close>

definition array_shift :: "nat \<Rightarrow> visit_bucket list \<Rightarrow> visit_bucket list" where
  "array_shift n bs =
     fold (\<lambda>i bs. bs[i := SetBucketCount (GetBucketCount (bs ! (i + 1))) (bs ! i)]) [0..<n] bs"

definition AgingVisitFrequencyBuckets :: "bucket_array \<Rightarrow> bucket_array result" where
  "AgingVisitFrequencyBuckets a =
     (if total_bucket_num a = 0 then Inl OutOfRange
      else
        let bs = array_shift (total_bucket_num a - 1) (buckets a);
            l = total_bucket_num a - 1
        in Inr (a\<lparr>buckets := bs[l := bucket_Reset (bs ! l)]\<rparr>))"

definition buckets_ResetAll :: "bucket_array \<Rightarrow> bucket_array" where
  "buckets_ResetAll a = a\<lparr>buckets := map bucket_Reset (buckets a)\<rparr>"

section \<open>Invariant\<close>

text \<open>
  The array has its declared number of buckets, at least one and at most 63 (a shift by 64 is
  undefined), and each bucket carries the range of its index.
\<close>

definition buckets_wf :: "bucket_array \<Rightarrow> bool" where
  "buckets_wf a \<longleftrightarrow> length (buckets a) = total_bucket_num a
     \<and> 0 < total_bucket_num a \<and> total_bucket_num a \<le> 63
     \<and> (\<forall>i < total_bucket_num a. bucket_index (buckets a ! i) = i
          \<and> bucket_range_lower_bound (buckets a ! i) = push_bit i 1
          \<and> bucket_range_upper_bound (buckets a ! i) = push_bit (i + 1) 1 - 1)"

definition counts :: "bucket_array \<Rightarrow> u64 list" where
  "counts a = map page_in_range_count (buckets a)"

lemma unat_pow2_minus: "i < 63 \<Longrightarrow> unat (push_bit (i + 1) (1 :: u64) - 1) = 2 ^ (i + 1) - 1"
proof -
  assume i: "i < 63"
  then have u: "unat (push_bit (i + 1) (1 :: u64)) = 2 ^ (i + 1)" by (intro unat_pow2) simp
  then have "push_bit (i + 1) (1 :: u64) \<noteq> 0" by (metis unat_0 power_not_zero zero_neq_numeral)
  then show ?thesis using u by (simp add: unat_minus_one)
qed

lemma buckets_wf_new: "0 < n \<Longrightarrow> n \<le> 63 \<Longrightarrow> buckets_wf (newVisitFrequencyBucketArray n)"
  by (simp add: buckets_wf_def newVisitFrequencyBucketArray_def newVisitFrequencyBucket_def)

definition same_range :: "visit_bucket \<Rightarrow> visit_bucket \<Rightarrow> bool" where
  "same_range b c \<longleftrightarrow> bucket_index b = bucket_index c
     \<and> bucket_range_lower_bound b = bucket_range_lower_bound c
     \<and> bucket_range_upper_bound b = bucket_range_upper_bound c"

lemma same_range_ops [simp]:
  "same_range b b" "same_range (Accumulate_the_bucket b) b" "same_range (SetBucketCount c b) b"
  "same_range (bucket_Reset b) b"
  by (simp_all add: same_range_def Accumulate_the_bucket_def SetBucketCount_def bucket_Reset_def)

lemma same_range_trans [trans]: "same_range a b \<Longrightarrow> same_range b c \<Longrightarrow> same_range a c"
  by (simp add: same_range_def)

lemma buckets_wf_same_range:
  assumes "buckets_wf a" "length bs = length (buckets a)"
    "\<And>i. i < length (buckets a) \<Longrightarrow> same_range (bs ! i) (buckets a ! i)"
  shows "buckets_wf (a\<lparr>buckets := bs\<rparr>)"
  using assms by (simp add: buckets_wf_def same_range_def)

lemma counts_new: "counts (newVisitFrequencyBucketArray n) = replicate n 0"
  by (simp add: counts_def newVisitFrequencyBucketArray_def newVisitFrequencyBucket_def map_replicate_const comp_def)

lemma buckets_wf_eqI:
  assumes "buckets_wf a" "buckets_wf b" "total_bucket_num a = total_bucket_num b" "counts a = counts b"
  shows "a = b"
proof -
  have "buckets a = buckets b"
  proof (rule nth_equalityI)
    fix i assume "i < length (buckets a)"
    moreover have "page_in_range_count (buckets a ! i) = page_in_range_count (buckets b ! i)"
      using assms \<open>i < length (buckets a)\<close> by (metis buckets_wf_def counts_def nth_map)
    ultimately show "buckets a ! i = buckets b ! i"
      using assms by (simp add: buckets_wf_def)
  qed (use assms in \<open>simp add: buckets_wf_def\<close>)
  then show ?thesis using assms(3) by simp
qed

section \<open>Bucket of a visit count\<close>

text \<open>The bucket a positive visit count belongs to: the floor of its logarithm, capped.\<close>

definition bucket_of :: "nat \<Rightarrow> u64 \<Rightarrow> nat" where
  "bucket_of n v = min (63 - clzll v) (n - 1)"

lemma clzll_1 [simp]: "clzll 1 = 63"
  by code_simp

lemma bucket_of_1 [simp]: "bucket_of n 1 = 0"
  by (simp add: bucket_of_def)

lemma bucket_of_less: "0 < n \<Longrightarrow> bucket_of n v < n"
  unfolding bucket_of_def by linarith

lemma bucket_of_lower: "v \<noteq> 0 \<Longrightarrow> 2 ^ bucket_of n v \<le> unat v"
proof -
  assume "v \<noteq> 0"
  have "(2::nat) ^ bucket_of n v \<le> 2 ^ (63 - clzll v)"
    by (intro power_increasing) (auto simp: bucket_of_def)
  also have "\<dots> \<le> unat v" using \<open>v \<noteq> 0\<close> by (rule clzll_bounds)
  finally show ?thesis .
qed

lemma clzll_upper: "v \<noteq> 0 \<Longrightarrow> unat v < 2 ^ Suc (63 - clzll v)"
proof -
  assume "v \<noteq> 0"
  moreover from this have "Suc (63 - clzll v) = 64 - clzll v" using clzll_bounds(1) [of v] by linarith
  ultimately show ?thesis using clzll_bounds(3) [of v] by presburger
qed

lemma bucket_of_upper: "v \<noteq> 0 \<Longrightarrow> bucket_of n v < n - 1 \<Longrightarrow> unat v < 2 ^ (bucket_of n v + 1)"
  using clzll_upper [of v] by (simp add: bucket_of_def min_def split: if_splits)

lemma log2_eqI:
  assumes "v \<noteq> 0" "2 ^ k \<le> unat v" "unat v < 2 ^ (k + 1)"
  shows "63 - clzll v = k"
proof -
  have "(2::nat) ^ k < 2 ^ (64 - clzll v)" "(2::nat) ^ (63 - clzll v) < 2 ^ (k + 1)"
    using clzll_bounds [OF assms(1)] assms(2,3) by linarith+
  then have "k < 64 - clzll v" "63 - clzll v < k + 1"
    by (auto dest: pow2_lessD simp del: power_Suc power_strict_increasing_iff Suc_eq_plus1)
  then show ?thesis by linarith
qed

lemma CalculateBucketIndex_eq:
  assumes "0 < total_bucket_num a" "v \<noteq> 0"
  shows "CalculateBucketIndex a v = Inr (bucket_of (total_bucket_num a) v)"
  using assms by (auto simp: CalculateBucketIndex_def bucket_of_def dec64_def Let_def word_gt_0)

lemma CalculateBucketIndex_0 [simp]: "CalculateBucketIndex a 0 = Inl AssertFailed"
  by (simp add: CalculateBucketIndex_def)

section \<open>Effect of the operations on the counts\<close>

lemma GetTargetBucket_ok: "i < length (buckets a) \<Longrightarrow> GetTargetBucket a i = Inr (buckets a ! i)"
  by (simp add: GetTargetBucket_def)

lemma update_bucket_counts:
  assumes "buckets_wf a" "v \<noteq> 0"
  obtains a' where "UpdateVisitFrequencyBucket a v = Inr a'" "buckets_wf a'"
    "total_bucket_num a' = total_bucket_num a"
    "counts a' = (counts a)[bucket_of (total_bucket_num a) v :=
       counts a ! bucket_of (total_bucket_num a) v + 1]"
proof -
  let ?i = "bucket_of (total_bucket_num a) v"
  have n: "0 < total_bucket_num a" and len: "length (buckets a) = total_bucket_num a"
    using assms(1) by (simp_all add: buckets_wf_def)
  have i: "?i < length (buckets a)" using n len by (simp add: bucket_of_less)
  let ?a = "a\<lparr>buckets := (buckets a)[?i := Accumulate_the_bucket (buckets a ! ?i)]\<rparr>"
  have "UpdateVisitFrequencyBucket a v = Inr ?a"
    using assms(2) i n
    by (simp add: UpdateVisitFrequencyBucket_def CalculateBucketIndex_eq GetTargetBucket_ok word_gt_0)
  moreover have "buckets_wf ?a"
    using assms(1) by (rule buckets_wf_same_range) (simp_all add: nth_list_update i)
  moreover have "counts ?a = (counts a)[?i := counts a ! ?i + 1]"
    using i by (simp add: counts_def map_update Accumulate_the_bucket_def)
  ultimately show ?thesis by (intro that) auto
qed

text \<open>The loop that adds every sampled page with a positive count (step 4 of the histogram update).\<close>

fun fill_buckets :: "bucket_array \<Rightarrow> u64 list \<Rightarrow> bucket_array result" where
  "fill_buckets a [] = Inr a"
| "fill_buckets a (v # vs) =
     (if 0 < v then bindR (UpdateVisitFrequencyBucket a v) (\<lambda>a. fill_buckets a vs)
      else fill_buckets a vs)"

text \<open>How many of the positive counts \<open>vs\<close> fall into bucket \<open>i\<close> of \<open>n\<close>.\<close>

definition in_bucket :: "nat \<Rightarrow> u64 list \<Rightarrow> nat \<Rightarrow> nat" where
  "in_bucket n vs i = length (filter (\<lambda>v. v \<noteq> 0 \<and> bucket_of n v = i) vs)"

lemma in_bucket_Nil [simp]: "in_bucket n [] i = 0"
  by (simp add: in_bucket_def)

lemma in_bucket_Cons [simp]:
  "in_bucket n (v # vs) i = (if v \<noteq> 0 \<and> bucket_of n v = i then 1 else 0) + in_bucket n vs i"
  by (simp add: in_bucket_def)

definition counts_bounded :: "nat \<Rightarrow> bucket_array \<Rightarrow> bool" where
  "counts_bounded m a \<longleftrightarrow> (\<forall>c \<in> set (counts a). unat c \<le> m)"

lemma length_counts: "buckets_wf a \<Longrightarrow> length (counts a) = total_bucket_num a"
  by (simp add: buckets_wf_def counts_def)

lemma fill_buckets_counts:
  assumes "buckets_wf a" "counts_bounded m a" "fits64 (m + length vs)"
  shows "\<exists>a'. fill_buckets a vs = Inr a' \<and> buckets_wf a' \<and> total_bucket_num a' = total_bucket_num a
    \<and> counts_bounded (m + length vs) a'
    \<and> (\<forall>i < total_bucket_num a.
         unat (counts a' ! i) = unat (counts a ! i) + in_bucket (total_bucket_num a) vs i)"
  using assms
proof (induction vs arbitrary: a m)
  case (Cons v vs)
  show ?case
  proof (cases "v = 0")
    case True
    have "fits64 (m + length vs)" using Cons.prems(3) fits64_mono by simp
    from Cons.IH [OF Cons.prems(1,2) this] True show ?thesis
      by (auto simp: counts_bounded_def intro: le_SucI)
  next
    case False
    then obtain a1 where a1: "UpdateVisitFrequencyBucket a v = Inr a1" "buckets_wf a1"
      "total_bucket_num a1 = total_bucket_num a"
      "counts a1 = (counts a)[bucket_of (total_bucket_num a) v := counts a ! bucket_of (total_bucket_num a) v + 1]"
      using update_bucket_counts [OF Cons.prems(1)] by metis
    let ?i = "bucket_of (total_bucket_num a) v"
    have i: "?i < length (counts a)"
      using Cons.prems(1) by (simp add: length_counts bucket_of_less buckets_wf_def)
    then have "unat (counts a ! ?i) \<le> m" using Cons.prems(2) by (simp add: counts_bounded_def)
    moreover have "fits64 (Suc m)" using Cons.prems(3) fits64_mono by simp
    ultimately have bump: "unat (counts a ! ?i + 1) = Suc (unat (counts a ! ?i))" by (rule unat_bump)
    have "counts_bounded (Suc m) a1"
      unfolding counts_bounded_def
    proof
      fix c assume "c \<in> set (counts a1)"
      then consider "c = counts a ! ?i + 1" | "c \<in> set (counts a)"
        unfolding a1(4) using set_update_subset_insert by fastforce
      then show "unat c \<le> Suc m"
        using bump \<open>unat (counts a ! ?i) \<le> m\<close> Cons.prems(2) by cases (auto simp: counts_bounded_def le_SucI)
    qed
    from Cons.IH [OF a1(2) this] Cons.prems(3) False a1(1,3) bump i show ?thesis
      by (auto simp: a1(4) nth_list_update word_gt_0)
  qed
qed (simp add: counts_bounded_def)

lemma array_shift_Suc:
  "array_shift (Suc n) bs = (let cs = array_shift n bs in
     cs[n := SetBucketCount (GetBucketCount (cs ! (n + 1))) (cs ! n)])"
  by (simp add: array_shift_def Let_def)

lemma array_shift_nth:
  assumes "n < length bs"
  shows "length (array_shift n bs) = length bs \<and> (\<forall>i<length bs.
      page_in_range_count (array_shift n bs ! i) = page_in_range_count (bs ! (if i < n then i + 1 else i))
      \<and> same_range (array_shift n bs ! i) (bs ! i))"
  using assms
proof (induction n)
  case (Suc n)
  let ?cs = "array_shift n bs"
  have IH: "length ?cs = length bs"
    "\<And>i. i < length bs \<Longrightarrow> page_in_range_count (?cs ! i) = page_in_range_count (bs ! (if i < n then i + 1 else i))"
    "\<And>i. i < length bs \<Longrightarrow> same_range (?cs ! i) (bs ! i)"
    using Suc by simp_all
  show ?case unfolding array_shift_Suc Let_def
  proof (intro conjI allI impI)
    fix i assume i: "i < length bs"
    let ?ds = "?cs[n := SetBucketCount (GetBucketCount (?cs ! (n + 1))) (?cs ! n)]"
    show "page_in_range_count (?ds ! i) = page_in_range_count (bs ! (if i < Suc n then i + 1 else i))"
      using i IH(1,2) Suc.prems by (simp add: nth_list_update SetBucketCount_def GetBucketCount_def)
    show "same_range (?ds ! i) (bs ! i)"
      using i IH(1,3) same_range_trans [OF same_range_ops(3)] by (cases "i = n") simp_all
  qed (simp add: IH(1))
qed (simp add: array_shift_def)

lemma aging_counts:
  assumes "buckets_wf a"
  obtains a' where "AgingVisitFrequencyBuckets a = Inr a'" "buckets_wf a'"
    "total_bucket_num a' = total_bucket_num a" "counts a' = tl (counts a) @ [0]"
proof -
  let ?n = "total_bucket_num a - 1"
  let ?bs = "array_shift ?n (buckets a)"
  let ?a = "a\<lparr>buckets := ?bs[?n := bucket_Reset (?bs ! ?n)]\<rparr>"
  have len: "length (buckets a) = Suc ?n" and n: "?n < length (buckets a)"
    using assms by (auto simp: buckets_wf_def)
  have loop: "length ?bs = Suc ?n"
    "\<And>i. i < Suc ?n \<Longrightarrow> page_in_range_count (?bs ! i) = page_in_range_count (buckets a ! (if i < ?n then i + 1 else i))"
    "\<And>i. i < length (buckets a) \<Longrightarrow> same_range (?bs ! i) (buckets a ! i)"
    using array_shift_nth [OF n] len by simp_all
  have "AgingVisitFrequencyBuckets a = Inr ?a"
    using assms by (simp add: AgingVisitFrequencyBuckets_def buckets_wf_def Let_def)
  moreover have "buckets_wf ?a"
    using assms
  proof (rule buckets_wf_same_range)
    fix i assume "i < length (buckets a)"
    then show "same_range (?bs[?n := bucket_Reset (?bs ! ?n)] ! i) (buckets a ! i)"
      using loop(1,3) len same_range_trans [OF same_range_ops(4)] by (cases "i = ?n") simp_all
  qed (use loop(1) len in simp)
  moreover have "counts ?a = tl (counts a) @ [0]"
  proof (rule nth_equalityI)
    fix i assume "i < length (counts ?a)"
    then have "i < Suc ?n" using loop(1) by (simp add: counts_def)
    then show "counts ?a ! i = (tl (counts a) @ [0]) ! i"
      using loop(1,2) len
      by (auto simp: counts_def nth_append nth_tl nth_list_update bucket_Reset_def less_Suc_eq)
  qed (use loop(1) len in \<open>simp add: counts_def\<close>)
  ultimately show ?thesis by (intro that) auto
qed

lemma reset_all_counts:
  assumes "buckets_wf a"
  shows "buckets_wf (buckets_ResetAll a)" "counts (buckets_ResetAll a) = replicate (total_bucket_num a) 0"
    "total_bucket_num (buckets_ResetAll a) = total_bucket_num a"
  using assms by (auto simp: buckets_wf_def buckets_ResetAll_def bucket_Reset_def counts_def comp_def
      map_replicate_const)

lemma cumulative_counts:
  assumes "length (buckets a) = total_bucket_num a"
  shows "GetCumulativePageCount a i = sum_list (drop i (counts a))"
proof -
  let ?n = "total_bucket_num a"
  have "fold (\<lambda>i acc. acc + GetBucketCount (buckets a ! i)) xs c = c + sum_list (map (\<lambda>i. counts a ! i) xs)"
    if "\<forall>i \<in> set xs. i < ?n" for xs and c :: u64
    using that assms by (induction xs arbitrary: c) (simp_all add: counts_def GetBucketCount_def add.assoc)
  from this [of "[i..<?n]" 0]
  have "GetCumulativePageCount a i = sum_list (map (\<lambda>i. counts a ! i) [i..<?n])"
    by (simp add: GetCumulativePageCount_def)
  moreover have "map (\<lambda>i. counts a ! i) [i..<?n] = drop i (counts a)"
    using assms by (intro nth_equalityI) (auto simp: counts_def)
  ultimately show ?thesis by simp
qed

lemma bucket_of_halve:
  assumes "v \<noteq> 0" "unat v < 2 ^ n"
  shows "drop_bit (Suc 0) v \<noteq> 0 \<and> bucket_of n (drop_bit (Suc 0) v) = i
    \<longleftrightarrow> bucket_of n v = Suc i" (is "?h \<noteq> 0 \<and> _ \<longleftrightarrow> _")
proof -
  define k where "k = 63 - clzll v"
  have k: "2 ^ k \<le> unat v" "unat v < 2 ^ (k + 1)"
    using clzll_bounds(2) [OF assms(1)] clzll_upper [OF assms(1)] by (simp_all add: k_def)
  have "(2::nat) ^ k < 2 ^ n" using k(1) assms(2) by linarith
  then have "k < n" by (rule pow2_lessD)
  then have bk: "bucket_of n v = k" by (simp add: bucket_of_def k_def)
  have h: "unat ?h = unat v div 2" by (rule unat_halve)
  show ?thesis
  proof (cases k)
    case 0
    then have "unat ?h = 0" using h k by simp
    then have "?h = 0" using unat_eq_zero by blast
    then show ?thesis using bk 0 by simp
  next
    case (Suc j)
    have hj: "2 ^ j \<le> unat ?h" "unat ?h < 2 ^ (j + 1)" unfolding h using k Suc by simp_all
    then have "?h \<noteq> 0" by (metis unat_0 not_one_le_zero one_le_power le_trans one_le_numeral)
    moreover from log2_eqI [OF this hj] have "bucket_of n ?h = j"
      using Suc \<open>k < n\<close> by (simp add: bucket_of_def)
    ultimately show ?thesis using bk Suc by simp
  qed
qed

lemma in_bucket_halve:
  assumes "\<forall>v \<in> set vs. unat v < 2 ^ n"
  shows "in_bucket n (map (drop_bit (Suc 0)) vs) i = in_bucket n vs (Suc i)"
  using assms
proof (induction vs)
  case (Cons v vs)
  then show ?case by (cases "v = 0") (simp_all add: bucket_of_halve)
qed simp

lemma in_bucket_out:
  assumes "0 < n" "n \<le> i"
  shows "in_bucket n vs i = 0"
proof -
  have "bucket_of n v \<noteq> i" for v using bucket_of_less [OF assms(1), of v] assms(2) by linarith
  then show ?thesis by (simp add: in_bucket_def)
qed

lemma fill_fresh:
  assumes "0 < n" "n \<le> 63" "fits64 (length vs)"
  obtains a where "fill_buckets (newVisitFrequencyBucketArray n) vs = Inr a" "buckets_wf a"
    "total_bucket_num a = n" "length (counts a) = n" "\<forall>i < n. unat (counts a ! i) = in_bucket n vs i"
proof -
  let ?a = "newVisitFrequencyBucketArray n"
  have tn: "total_bucket_num ?a = n" by (simp add: newVisitFrequencyBucketArray_def)
  have "counts_bounded 0 ?a" by (simp add: counts_bounded_def counts_new)
  from fill_buckets_counts [OF buckets_wf_new [OF assms(1,2)] this, of vs] assms(3)
  obtain a where a: "fill_buckets ?a vs = Inr a" "buckets_wf a" "total_bucket_num a = n"
    "\<forall>i < n. unat (counts a ! i) = in_bucket n vs i"
    by (auto simp: tn counts_new)
  then show ?thesis using that length_counts by blast
qed

section \<open>Properties\<close>

text \<open>
  A positive visit count is put into a bucket of the array whose range contains it: the
  count is at least the bucket's lower bound, and at most its upper bound unless the bucket is
  the last one, which also takes all larger counts.
\<close>

theorem CalculateBucketIndex_range:
  assumes "0 < n" "n \<le> 63" "0 < v"
  shows "\<exists>i b. CalculateBucketIndex (newVisitFrequencyBucketArray n) v = Inr i
    \<and> GetTargetBucket (newVisitFrequencyBucketArray n) i = Inr b
    \<and> i < n \<and> bucket_index b = i
    \<and> bucket_range_lower_bound b \<le> v
    \<and> (i < n - 1 \<longrightarrow> v \<le> bucket_range_upper_bound b)"
proof -
  let ?a = "newVisitFrequencyBucketArray n" and ?i = "bucket_of n v"
  have v: "v \<noteq> 0" using assms(3) by simp
  have wf: "buckets_wf ?a" using assms by (intro buckets_wf_new)
  have tn: "total_bucket_num ?a = n" by (simp add: newVisitFrequencyBucketArray_def)
  have i: "?i < n" using assms(1) by (rule bucket_of_less)
  let ?b = "buckets ?a ! ?i"
  have b: "bucket_index ?b = ?i" "bucket_range_lower_bound ?b = push_bit ?i 1"
    "bucket_range_upper_bound ?b = push_bit (?i + 1) 1 - 1"
    using wf i unfolding buckets_wf_def tn by blast+
  have lo: "push_bit ?i 1 \<le> v"
    using bucket_of_lower [OF v, of n] i assms(2) unfolding word_le_nat_alt by (subst unat_pow2) simp_all
  have hi: "v \<le> push_bit (?i + 1) 1 - 1" if "?i < n - 1"
    using bucket_of_upper [OF v that] that assms(2)
    unfolding word_le_nat_alt by (subst unat_pow2_minus) simp_all
  have "CalculateBucketIndex ?a v = Inr ?i" using v assms(1) by (simp add: CalculateBucketIndex_eq tn)
  moreover have "GetTargetBucket ?a ?i = Inr ?b"
    using wf i by (intro GetTargetBucket_ok) (simp add: buckets_wf_def tn)
  ultimately show ?thesis using b lo hi i by auto
qed

theorem CalculateBucketIndex_range_witness:
  "(0::nat) < 15 \<and> (15::nat) \<le> 63 \<and> (0::u64) < 10000
   \<and> (\<exists>i b. CalculateBucketIndex (newVisitFrequencyBucketArray 15) 10000 = Inr i
    \<and> GetTargetBucket (newVisitFrequencyBucketArray 15) i = Inr b
    \<and> i < 15 \<and> bucket_index b = i
    \<and> bucket_range_lower_bound b \<le> 10000
    \<and> (i < 15 - 1 \<longrightarrow> 10000 \<le> bucket_range_upper_bound b))"
  using CalculateBucketIndex_range [of 15 10000] by simp

text \<open>
  C22. Aging is exact: shifting every bucket down by one gives, for visit counts that no bucket
  had to clip, the very histogram that the halved visit counts build from scratch. So aging the
  buckets agrees with the halving that the sketch applies to its cells.
\<close>

theorem aging_commutes_with_halving:
  assumes "0 < n" "n \<le> 63" "fits64 (length vs)" "\<forall>v \<in> set vs. unat v < 2 ^ n"
  shows "bindR (fill_buckets (newVisitFrequencyBucketArray n) vs) AgingVisitFrequencyBuckets
    = fill_buckets (newVisitFrequencyBucketArray n) (map (drop_bit (Suc 0)) vs)"
proof -
  obtain a where a: "fill_buckets (newVisitFrequencyBucketArray n) vs = Inr a" "buckets_wf a"
    "total_bucket_num a = n" "length (counts a) = n" "\<forall>i < n. unat (counts a ! i) = in_bucket n vs i"
    by (rule fill_fresh [OF assms(1,2,3)])
  obtain h where h: "fill_buckets (newVisitFrequencyBucketArray n) (map (drop_bit (Suc 0)) vs) = Inr h"
    "buckets_wf h" "total_bucket_num h = n" "length (counts h) = n"
    "\<forall>i < n. unat (counts h ! i) = in_bucket n (map (drop_bit (Suc 0)) vs) i"
    by (rule fill_fresh [OF assms(1,2), of "map (drop_bit (Suc 0)) vs"]) (use assms(3) in simp)
  obtain a' where a': "AgingVisitFrequencyBuckets a = Inr a'" "buckets_wf a'"
    "total_bucket_num a' = total_bucket_num a" "counts a' = tl (counts a) @ [0]"
    by (rule aging_counts [OF a(2)])
  have "counts a' = counts h"
  proof (rule nth_equalityI)
    show "length (counts a') = length (counts h)" using a'(4) a(4) h(4) assms(1) by simp
    fix i assume "i < length (counts a')"
    then have i: "i < n" using a'(4) a(4) assms(1) by simp
    have "unat (counts a' ! i) = in_bucket n vs (Suc i)"
      using i a(4,5) in_bucket_out [OF assms(1), of "Suc i" vs]
      by (simp add: a'(4) nth_append nth_tl)
    also have "\<dots> = unat (counts h ! i)" using h(5) i in_bucket_halve [OF assms(4)] by simp
    finally show "counts a' ! i = counts h ! i" by (rule unsigned_word_eqI)
  qed
  then have "a' = h" using a'(2,3) h(2,3) a(3) by (intro buckets_wf_eqI) simp_all
  then show ?thesis using a(1) a'(1) h(1) by simp
qed

theorem aging_commutes_with_halving_witness:
  "list_all (\<lambda>v. unat v < 2 ^ 4) [1, 2, 7, 15 :: u64]
   \<and> bindR (fill_buckets (newVisitFrequencyBucketArray 4) [1, 2, 7, 15]) AgingVisitFrequencyBuckets
    = fill_buckets (newVisitFrequencyBucketArray 4) (map (drop_bit (Suc 0)) [1, 2, 7, 15])"
  using aging_commutes_with_halving [of 4 "[1, 2, 7, 15]"] by (simp add: fits64_def)

end
