(* ===== verification/DepulicateSet.thy ===== *)
theory DepulicateSet
  imports CountMinSketch Doubles
begin

text \<open>
  The sampling set of \<open>DepulicateSetForPageSampling.hpp\<close>: the distinct page ids seen in the
  current window, up to a limit, each with a visit count filled in at the end of the window. The
  \<open>unordered_map\<close> is an association list with distinct keys, in the order of insertion; nothing
  below depends on that order (the C++ container leaves it open). A worker inserts only when
  \<open>try_lock\<close> succeeds: its outcome is an argument of \<open>OnPageAccess\<close>.
\<close>

section \<open>State and operations\<close>

record dedup =
  max_sampled_page_ids :: u64
  trigger_visit_histogram_update_size :: u64
  depulicate_sets :: "(u64 \<times> u64) list"
  current_request_count :: u64

definition newDepulicateSet :: "u64 \<Rightarrow> u64 \<Rightarrow> dedup" where
  "newDepulicateSet max_ids trigger =
     \<lparr>max_sampled_page_ids = max_ids, trigger_visit_histogram_update_size = trigger,
      depulicate_sets = [], current_request_count = 0\<rparr>"

text \<open>\<open>std::unordered_map::emplace\<close>: an existing key keeps its value.\<close>

definition map_emplace :: "'k \<Rightarrow> 'v \<Rightarrow> ('k \<times> 'v) list \<Rightarrow> ('k \<times> 'v) list" where
  "map_emplace k v m = (if k \<in> fst ` set m then m else m @ [(k, v)])"

definition set_OnPageAccess :: "bool \<Rightarrow> u64 \<Rightarrow> dedup \<Rightarrow> dedup" where
  "set_OnPageAccess try_lock page_id d =
     (let d = d\<lparr>current_request_count := current_request_count d + 1\<rparr>
      in if try_lock then
           if length (depulicate_sets d) < unat (max_sampled_page_ids d)
           then d\<lparr>depulicate_sets := map_emplace page_id 0 (depulicate_sets d)\<rparr>
           else d
         else d)"

definition ShouldTriggerVisitHistogramUpdate :: "dedup \<Rightarrow> bool" where
  "ShouldTriggerVisitHistogramUpdate d \<longleftrightarrow>
     trigger_visit_histogram_update_size d \<le> current_request_count d"

definition FillSampledPageVisitCounts :: "(u64 \<Rightarrow> u64) \<Rightarrow> cms \<Rightarrow> dedup \<Rightarrow> dedup" where
  "FillSampledPageVisitCounts hash64 page_cms d =
     d\<lparr>depulicate_sets :=
         map (\<lambda>(page_id, _). (page_id, CMSQuery hash64 page_cms page_id)) (depulicate_sets d)\<rparr>"

definition GetSampledVisitCountSnapshot :: "dedup \<Rightarrow> (u64 \<times> u64) list" where
  "GetSampledVisitCountSnapshot d = depulicate_sets d"

definition GetCurrentRequestCount :: "dedup \<Rightarrow> u64" where
  "GetCurrentRequestCount d = current_request_count d"

definition GetSampledPageCount :: "dedup \<Rightarrow> u64" where
  "GetSampledPageCount d = word_of_nat (length (depulicate_sets d))"

definition dedup_Reset :: "dedup \<Rightarrow> dedup" where
  "dedup_Reset d = d\<lparr>depulicate_sets := [], current_request_count := 0\<rparr>"

definition SetMaxSampledPageIds :: "u64 \<Rightarrow> dedup \<Rightarrow> dedup" where
  "SetMaxSampledPageIds n d = d\<lparr>max_sampled_page_ids := n\<rparr>"

definition SetTriggerVisitHistogramWindow :: "u64 \<Rightarrow> dedup \<Rightarrow> dedup" where
  "SetTriggerVisitHistogramWindow n d = d\<lparr>trigger_visit_histogram_update_size := n\<rparr>"

record dedup_snapshot =
  snap_request_count :: u64
  snap_sampled_page_ids :: u64
  snap_max_sampled_page_ids :: u64
  snap_trigger_size :: u64
  sampling_progress :: double
  sample_fill_ratio :: double

definition ratio_or_zero :: "u64 \<Rightarrow> u64 \<Rightarrow> double result" where
  "ratio_or_zero a b = (if 0 < b then ddiv (double_of_u64 a) (double_of_u64 b) else Inr 0)"

definition dedup_GetStatistics :: "dedup \<Rightarrow> dedup_snapshot result" where
  "dedup_GetStatistics d =
     (let req_count = current_request_count d;
          sampled_count = word_of_nat (length (depulicate_sets d))
      in bindR (ratio_or_zero req_count (trigger_visit_histogram_update_size d)) (\<lambda>progress.
         bindR (ratio_or_zero sampled_count (max_sampled_page_ids d)) (\<lambda>fill.
           Inr \<lparr>snap_request_count = req_count, snap_sampled_page_ids = sampled_count,
                snap_max_sampled_page_ids = max_sampled_page_ids d,
                snap_trigger_size = trigger_visit_histogram_update_size d,
                sampling_progress = progress, sample_fill_ratio = fill\<rparr>)))"

section \<open>What is sampled\<close>

text \<open>The first occurrences of a sequence of page ids.\<close>

definition first_occurrences :: "'a list \<Rightarrow> 'a list" where
  "first_occurrences xs = rev (remdups (rev xs))"

lemma first_occurrences_simps [simp]:
  "first_occurrences [] = []"
  "first_occurrences (xs @ [x]) =
     (if x \<in> set xs then first_occurrences xs else first_occurrences xs @ [x])"
  by (simp_all add: first_occurrences_def)

lemma first_occurrences_props [simp]:
  "set (first_occurrences xs) = set xs" "distinct (first_occurrences xs)"
  by (simp_all add: first_occurrences_def)

lemma emplace_keys:
  "map fst (map_emplace k v m) = (if k \<in> set (map fst m) then map fst m else map fst m @ [k])"
  by (simp add: map_emplace_def)

definition access_run :: "(u64 \<times> bool) list \<Rightarrow> dedup \<Rightarrow> dedup" where
  "access_run accs d = fold (\<lambda>(p, try_lock). set_OnPageAccess try_lock p) accs d"

lemma access_run_append [simp]:
  "access_run [] d = d"
  "access_run (accs @ [(p, b)]) d = set_OnPageAccess b p (access_run accs d)"
  by (simp_all add: access_run_def)

lemma access_run_frame [simp]:
  "max_sampled_page_ids (access_run accs d) = max_sampled_page_ids d"
  "trigger_visit_histogram_update_size (access_run accs d) = trigger_visit_histogram_update_size d"
  by (induction accs rule: rev_induct) (auto simp: set_OnPageAccess_def Let_def split: prod.splits)

lemma new_max [simp]: "max_sampled_page_ids (newDepulicateSet n t) = n"
  by (simp add: newDepulicateSet_def)

lemma emplace_first_occurrences:
  assumes "map fst m = take n (first_occurrences ps)" "length m < n"
  shows "map fst (map_emplace p 0 m) = take n (first_occurrences (ps @ [p]))"
proof -
  have "length (take n (first_occurrences ps)) < n" using assms by (metis length_map)
  then have "length (first_occurrences ps) < n" by simp
  then show ?thesis using assms(1) by (simp add: emplace_keys)
qed

lemma full_first_occurrences:
  assumes "map fst m = take n (first_occurrences ps)" "n \<le> length m"
  shows "map fst m = take n (first_occurrences (ps @ [p]))"
proof -
  have "n \<le> length (take n (first_occurrences ps))" using assms by (metis length_map)
  then show ?thesis using assms(1) by simp
qed

lemma access_run_keys:
  "map fst (depulicate_sets (access_run accs (newDepulicateSet n t)))
     = take (unat n) (first_occurrences (map fst (filter snd accs)))"
proof (induction accs rule: rev_induct)
  case (snoc a accs)
  obtain p b where a: "a = (p, b)" by fastforce
  let ?d = "access_run accs (newDepulicateSet n t)"
  show ?case
    using emplace_first_occurrences [OF snoc.IH, of p] full_first_occurrences [OF snoc.IH, of p] snoc.IH
    by (cases b; cases "length (depulicate_sets ?d) < unat n")
      (simp_all add: a set_OnPageAccess_def Let_def del: first_occurrences_simps(2) take_append)
qed (simp add: newDepulicateSet_def)

lemma access_run_requests:
  "current_request_count (access_run accs d) = current_request_count d + word_of_nat (length accs)"
  by (induction accs rule: rev_induct) (auto simp: set_OnPageAccess_def Let_def split: prod.splits)

section \<open>Properties\<close>


end
