(* ===== verification/SampledVisitHistogram.thy ===== *)
theory SampledVisitHistogram
  imports VisitCountBucket DepulicateSet
begin

text \<open>
  The histogram of \<open>SampledVisitHistogram.hpp\<close>: at the end of a sampling window it ages the
  buckets and the page sketch, adds the sampled pages to the buckets, and derives two admission
  thresholds from the share of memory that is DRAM. The three components it refers to are fields
  of its state; the configuration flags it reads are a record.
\<close>

section \<open>State and operations\<close>

record tiering_flags =
  FLAGS_cxl_gib :: double
  FLAGS_dram_recordcache_gib :: double
  FLAGS_dram_buffer_pool_gib :: double
  FLAGS_cxl_tiering_enabled :: bool

record histogram =
  page_cms :: cms
  sampling_set :: dedup
  hist_buckets :: bucket_array
  current_admission_threshold_coarse :: u64
  current_admission_threshold_fine :: u64

definition newSampledVisitHistogram :: "cms \<Rightarrow> dedup \<Rightarrow> bucket_array \<Rightarrow> histogram" where
  "newSampledVisitHistogram s d a =
     \<lparr>page_cms = s, sampling_set = d, hist_buckets = a,
      current_admission_threshold_coarse = 1, current_admission_threshold_fine = 1\<rparr>"

definition GetDRAMvsCXLRatio :: "tiering_flags \<Rightarrow> double result" where
  "GetDRAMvsCXLRatio F =
     (let total_capacity = dmul (dadd (dadd (FLAGS_cxl_gib F) (FLAGS_dram_recordcache_gib F))
                                      (FLAGS_dram_buffer_pool_gib F)) 1
      in ddiv (dadd (FLAGS_dram_buffer_pool_gib F) (FLAGS_dram_recordcache_gib F)) total_capacity)"

definition GetTotalSampledPages :: "bucket_array \<Rightarrow> u64" where
  "GetTotalSampledPages a =
     fold (\<lambda>i total. total + GetBucketCount (buckets a ! i)) [0..<total_bucket_num a] 0"

definition target_page_count :: "tiering_flags \<Rightarrow> u64 \<Rightarrow> u64 result" where
  "target_page_count F total_sampled_pages =
     bindR (GetDRAMvsCXLRatio F) (\<lambda>r. cast_u64 (dmul (double_of_u64 total_sampled_pages) r))"

text \<open>
  The accumulation loops from the hottest bucket down; the argument \<open>Suc i\<close> stands for the round
  at index \<open>i\<close>, and \<open>None\<close> for leaving the loop without a hit.
\<close>

fun coarse_scan :: "bucket_array \<Rightarrow> u64 \<Rightarrow> u64 \<Rightarrow> nat \<Rightarrow> nat option" where
  "coarse_scan a target cumulative 0 = None"
| "coarse_scan a target cumulative (Suc i) =
     (let cumulative = cumulative + GetBucketCount (buckets a ! i)
      in if target \<le> cumulative then Some i else coarse_scan a target cumulative i)"

fun critical_scan :: "bucket_array \<Rightarrow> u64 \<Rightarrow> u64 \<Rightarrow> nat \<Rightarrow> (nat \<times> u64) option" where
  "critical_scan a target before 0 = None"
| "critical_scan a target before (Suc i) =
     (let bucket_count = GetBucketCount (buckets a ! i)
      in if target \<le> before + bucket_count then Some (i, before)
         else critical_scan a target (before + bucket_count) i)"

definition CalculateAdmissionThreshold_coarse :: "tiering_flags \<Rightarrow> bucket_array \<Rightarrow> u64 result" where
  "CalculateAdmissionThreshold_coarse F a =
     (let total = GetTotalSampledPages a
      in if total = 0 then Inr 1
         else bindR (target_page_count F total) (\<lambda>target.
                bindR (GetTargetBucket a (case coarse_scan a target 0 (total_bucket_num a) of
                                            Some i \<Rightarrow> i | None \<Rightarrow> 0)) (\<lambda>b.
                  Inr (bucket_range_lower_bound b))))"

text \<open>The refinement inside the critical bucket; index \<open>remaining - 1\<close> wraps when \<open>remaining\<close> is 0.\<close>

definition refine_in_bucket :: "u64 \<Rightarrow> u64 \<Rightarrow> u64 \<Rightarrow> (u64 \<times> u64) list \<Rightarrow> u64 result" where
  "refine_in_bucket critical_lower critical_upper remaining sampled_snapshot =
     (let visit_count_in_ranges =
            map snd (filter (\<lambda>(_, v). critical_lower \<le> v \<and> v \<le> critical_upper) sampled_snapshot)
      in if visit_count_in_ranges = [] then Inr critical_lower
         else let sorted_counts = rev (sort visit_count_in_ranges)
              in if length sorted_counts \<le> unat remaining then Inr critical_lower
                 else let i = unat (remaining - 1)
                      in if i < length sorted_counts then Inr (sorted_counts ! i)
                         else Inl OutOfRange)"

definition CalculateAdmissionThreshold_fine ::
    "tiering_flags \<Rightarrow> bucket_array \<Rightarrow> (u64 \<times> u64) list \<Rightarrow> u64 result" where
  "CalculateAdmissionThreshold_fine F a sampled_snapshot =
     (let total = GetTotalSampledPages a
      in if total = 0 then Inr 1
         else bindR (target_page_count F total) (\<lambda>target.
           case critical_scan a target 0 (total_bucket_num a) of
             None \<Rightarrow> bindR (GetTargetBucket a 0) (\<lambda>b. Inr (bucket_range_lower_bound b))
           | Some (critical, before) \<Rightarrow>
               bindR (GetTargetBucket a critical) (\<lambda>b.
                 refine_in_bucket (bucket_range_lower_bound b) (bucket_range_upper_bound b)
                   (target - before) sampled_snapshot)))"

definition UpdateSampledVisitHistogram ::
    "tiering_flags \<Rightarrow> (u64 \<Rightarrow> u64) \<Rightarrow> histogram \<Rightarrow> histogram result" where
  "UpdateSampledVisitHistogram F hash64 h =
     (let filled = FillSampledPageVisitCounts hash64 (page_cms h) (sampling_set h);
          snapshot = GetSampledVisitCountSnapshot filled
      in bindR (AgingVisitFrequencyBuckets (hist_buckets h)) (\<lambda>aged.
         bindR (fill_buckets aged (map snd snapshot)) (\<lambda>a.
         bindR (CalculateAdmissionThreshold_coarse F a) (\<lambda>coarse.
         bindR (CalculateAdmissionThreshold_fine F a snapshot) (\<lambda>fine.
           Inr \<lparr>page_cms = CMSAging (page_cms h), sampling_set = dedup_Reset filled,
                hist_buckets = a, current_admission_threshold_coarse = coarse,
                current_admission_threshold_fine = fine\<rparr>)))))"

definition ShouldAdmitToDRAM :: "tiering_flags \<Rightarrow> (u64 \<Rightarrow> u64) \<Rightarrow> histogram \<Rightarrow> u64 \<Rightarrow> bool" where
  "ShouldAdmitToDRAM F hash64 h page_id =
     (if \<not> FLAGS_cxl_tiering_enabled F then True
      else current_admission_threshold_coarse h \<le> CMSGetPageAccessCount hash64 (page_cms h) page_id)"

definition ShouldTriggerUpdate :: "histogram \<Rightarrow> bool" where
  "ShouldTriggerUpdate h = ShouldTriggerVisitHistogramUpdate (sampling_set h)"

definition WorkerThreadOnPageAccess :: "(u64 \<Rightarrow> u64) \<Rightarrow> bool \<Rightarrow> u64 \<Rightarrow> histogram \<Rightarrow> histogram" where
  "WorkerThreadOnPageAccess hash64 try_lock page_id h =
     h\<lparr>page_cms := CMSPageAccessUpdate hash64 (page_cms h) page_id,
       sampling_set := set_OnPageAccess try_lock page_id (sampling_set h)\<rparr>"

definition BackgroundThreadTryUpdate ::
    "tiering_flags \<Rightarrow> (u64 \<Rightarrow> u64) \<Rightarrow> histogram \<Rightarrow> (bool \<times> histogram) result" where
  "BackgroundThreadTryUpdate F hash64 h =
     (if ShouldTriggerVisitHistogramUpdate (sampling_set h)
      then bindR (UpdateSampledVisitHistogram F hash64 h) (\<lambda>h. Inr (True, h))
      else Inr (False, h))"

definition hist_OnPageAccess ::
    "tiering_flags \<Rightarrow> (u64 \<Rightarrow> u64) \<Rightarrow> bool \<Rightarrow> u64 \<Rightarrow> histogram \<Rightarrow> histogram result" where
  "hist_OnPageAccess F hash64 try_lock page_id h =
     (let h = h\<lparr>page_cms := CMSPageAccessUpdate hash64 (page_cms h) page_id,
                sampling_set := set_OnPageAccess try_lock page_id (sampling_set h)\<rparr>
      in if ShouldTriggerVisitHistogramUpdate (sampling_set h)
         then UpdateSampledVisitHistogram F hash64 h else Inr h)"

section \<open>The share of DRAM\<close>

text \<open>The flags are doubles, none negative, and there is some memory.\<close>

definition tiering_ok :: "tiering_flags \<Rightarrow> bool" where
  "tiering_ok F \<longleftrightarrow> (\<forall>x \<in> {FLAGS_cxl_gib F, FLAGS_dram_recordcache_gib F, FLAGS_dram_buffer_pool_gib F}.
     0 \<le> x \<and> rnd x = x) \<and> 0 < FLAGS_cxl_gib F + FLAGS_dram_recordcache_gib F + FLAGS_dram_buffer_pool_gib F"

lemma dadd_ge: "rnd x = x \<Longrightarrow> x \<le> a + b \<Longrightarrow> x \<le> dadd a b"
  by (metis dadd_def rnd_mono)

lemma ratio_in_unit_interval:
  assumes "tiering_ok F"
  obtains r where "GetDRAMvsCXLRatio F = Inr r" "0 \<le> r" "r \<le> 1"
proof -
  define c m b where "c = FLAGS_cxl_gib F" and "m = FLAGS_dram_recordcache_gib F"
    and "b = FLAGS_dram_buffer_pool_gib F"
  have nn: "0 \<le> c" "0 \<le> m" "0 \<le> b" and d: "rnd c = c" "rnd m = m" "rnd b = b" and p: "0 < c + m + b"
    using assms by (simp_all add: tiering_ok_def c_def m_def b_def)
  let ?t = "dadd (dadd c m) b"
  have cm: "c \<le> dadd c m" "m \<le> dadd c m" using nn d by (auto intro: dadd_ge)
  then have t: "c \<le> ?t" "m \<le> ?t" "b \<le> ?t" using nn d by (auto intro!: dadd_ge)
  then have tp: "0 < ?t" using nn p by linarith
  have "dadd b m \<le> ?t" using cm(2) by (simp add: dadd_def rnd_mono)
  moreover have "0 \<le> dadd b m" using nn by (simp add: dadd_def rnd_nonneg)
  ultimately have q: "0 \<le> dadd b m / ?t" "dadd b m / ?t \<le> 1" using tp by simp_all
  have "dmul ?t 1 = ?t" by (simp add: dmul_def dadd_def)
  then have "GetDRAMvsCXLRatio F = Inr (rnd (dadd b m / ?t))"
    using tp by (simp add: GetDRAMvsCXLRatio_def ddiv_def c_def m_def b_def)
  moreover have "rnd (dadd b m / ?t) \<le> 1" using rnd_mono [OF q(2)] by simp
  moreover note rnd_nonneg [OF q(1)]
  ultimately show ?thesis by (intro that)
qed

lemma target_at_most_total:
  assumes "tiering_ok F" "unat tot \<le> 2 ^ 53"
  obtains t where "target_page_count F tot = Inr t" "t \<le> tot"
proof -
  obtain r where r: "GetDRAMvsCXLRatio F = Inr r" "0 \<le> r" "r \<le> 1"
    using assms(1) by (rule ratio_in_unit_interval)
  let ?x = "dmul (double_of_u64 tot) r"
  have d: "double_of_u64 tot = of_nat (unat tot)" "0 \<le> double_of_u64 tot"
    using assms(2) by (simp_all only: double_of_u64_def double_of_nat_exact double_of_nat_nonneg)
  have "?x \<le> dmul (double_of_u64 tot) 1" using r(3) d(2) by (rule dmul_mono)
  also have "\<dots> = of_nat (unat tot)"
    unfolding d(1) dmul_def mult_1_right using assms(2) by (rule rnd_of_nat)
  also have "\<dots> \<le> of_nat (2 ^ 53)" using assms(2) of_nat_le_iff by blast
  finally have "?x < 2 ^ 64" by simp
  moreover have "0 \<le> ?x" using d(2) r(2) by (rule dmul_nonneg)
  ultimately obtain t where t: "cast_u64 ?x = Inr t" by (simp add: cast_u64_def)
  then have "t \<le> tot"
    using cast_dmul_le [OF assms(2) r(2,3)] by (simp add: word_le_nat_alt)
  then show ?thesis using t r(1) by (intro that) (simp_all add: target_page_count_def)
qed

section \<open>The accumulation loops\<close>

text \<open>Pages in bucket \<open>i\<close> or a hotter one, by the function the source has for it.\<close>

abbreviation cumul :: "bucket_array \<Rightarrow> nat \<Rightarrow> u64" where
  "cumul a i \<equiv> GetCumulativePageCount a i"

lemma total_is_cumul: "GetTotalSampledPages a = cumul a 0"
  by (simp add: GetTotalSampledPages_def GetCumulativePageCount_def)

lemma cumul_step:
  assumes "length (buckets a) = total_bucket_num a" "i < total_bucket_num a"
  shows "cumul a i = cumul a (Suc i) + GetBucketCount (buckets a ! i)"
proof -
  have "drop i (counts a) = counts a ! i # drop (Suc i) (counts a)"
    using assms by (intro Cons_nth_drop_Suc [symmetric]) (simp add: counts_def)
  then show ?thesis
    using assms by (simp add: cumulative_counts counts_def GetBucketCount_def add.commute)
qed

lemma cumul_end [simp]: "cumul a (total_bucket_num a) = 0"
  by (simp add: GetCumulativePageCount_def)

lemma coarse_is_critical: "coarse_scan a t c i = map_option fst (critical_scan a t c i)"
  by (induction a t c i rule: coarse_scan.induct) (simp_all add: Let_def)

text \<open>The scan finds the hottest bucket at which the target is reached.\<close>

lemma critical_scan_spec:
  assumes "length (buckets a) = total_bucket_num a" "i \<le> total_bucket_num a"
  shows "case critical_scan a t (cumul a i) i of
      None \<Rightarrow> \<forall>j < i. cumul a j < t
    | Some (k, c) \<Rightarrow> k < i \<and> c = cumul a (Suc k) \<and> t \<le> cumul a k \<and> (\<forall>j. k < j \<and> j < i \<longrightarrow> cumul a j < t)"
  using assms(2)
proof (induction i)
  case (Suc i)
  have step: "cumul a (Suc i) + GetBucketCount (buckets a ! i) = cumul a i"
    using cumul_step [OF assms(1), of i] Suc.prems by simp
  show ?case
  proof (cases "t \<le> cumul a i")
    case True
    then show ?thesis by (auto simp: Let_def step)
  next
    case False
    then have "critical_scan a t (cumul a (Suc i)) (Suc i) = critical_scan a t (cumul a i) i"
      by (simp add: Let_def step)
    then show ?thesis using Suc.IH Suc.prems False
      by (auto simp: less_Suc_eq not_le split: option.splits)
  qed
qed simp

lemma critical_scan_hit:
  assumes "length (buckets a) = total_bucket_num a" "t \<le> cumul a 0" "0 < total_bucket_num a"
  obtains k where "critical_scan a t 0 (total_bucket_num a) = Some (k, cumul a (Suc k))"
    "k < total_bucket_num a" "t \<le> cumul a k" "\<forall>j. k < j \<and> j < total_bucket_num a \<longrightarrow> cumul a j < t"
proof (cases "critical_scan a t 0 (total_bucket_num a)")
  case None
  then have "cumul a 0 < t"
    using critical_scan_spec [OF assms(1) order_refl, of t] assms(3) by simp
  then show ?thesis using assms(2) by simp
next
  case (Some kc)
  then show ?thesis
    using critical_scan_spec [OF assms(1) order_refl, of t] by (cases kc) (auto intro!: that)
qed

text \<open>What is still needed inside the critical bucket: positive unless the target is zero.\<close>

lemma remaining_positive:
  assumes "\<forall>j. k < j \<and> j < total_bucket_num a \<longrightarrow> cumul a j < t" "k < total_bucket_num a" "0 < t"
  shows "cumul a (Suc k) < t"
  using assms cumul_end [of a] by (cases "Suc k = total_bucket_num a") auto

section \<open>The order statistic\<close>

lemma kth_largest:
  fixes xs :: "u64 list"
  assumes "0 < r" "r \<le> length xs"
  shows "r \<le> length (filter (\<lambda>v. rev (sort xs) ! (r - 1) \<le> v) xs)"
    and "length (filter (\<lambda>v. rev (sort xs) ! (r - 1) < v) xs) < r"
proof -
  define ys where "ys = rev (sort xs)"
  have len: "length ys = length xs" and s: "sorted (rev ys)" and m: "mset ys = mset xs"
    by (simp_all add: ys_def)
  have cnt: "length (filter P xs) = length (filter P ys)" for P
    using m by (intro length_filter_mset) simp
  have ge: "ys ! j \<le> ys ! i" if "i \<le> j" "j < length ys" for i j
    using s that by (auto simp: sorted_rev_iff_nth_mono)
  have "i \<le> r - 1" "r - 1 < length ys" if "i < r" for i using that assms(2) len by linarith+
  then have "filter (\<lambda>v. ys ! (r - 1) \<le> v) (take r ys) = take r ys"
    by (auto simp: filter_id_conv in_set_conv_nth simp del: One_nat_def intro!: ge)
  then have "r \<le> length (filter (\<lambda>v. ys ! (r - 1) \<le> v) (take r ys @ drop r ys))"
    using assms(2) len by (simp only: filter_append length_append length_take)
  then show "r \<le> length (filter (\<lambda>v. rev (sort xs) ! (r - 1) \<le> v) xs)"
    unfolding cnt ys_def [symmetric] by simp
  have "filter (\<lambda>v. ys ! (r - 1) < v) (drop (r - 1) ys) = []"
    using ge by (auto simp: filter_empty_conv in_set_conv_nth not_less)
  then have "filter (\<lambda>v. ys ! (r - 1) < v) (take (r - 1) ys @ drop (r - 1) ys)
      = filter (\<lambda>v. ys ! (r - 1) < v) (take (r - 1) ys)"
    by (simp only: filter_append append_Nil2)
  then have "length (filter (\<lambda>v. ys ! (r - 1) < v) ys) \<le> length (take (r - 1) ys)"
    by (metis append_take_drop_id length_filter_le)
  then show "length (filter (\<lambda>v. rev (sort xs) ! (r - 1) < v) xs) < r"
    unfolding cnt ys_def [symmetric] using assms(1) by simp
qed

text \<open>The sampled counts inside a range.\<close>

definition counts_in_range :: "u64 \<Rightarrow> u64 \<Rightarrow> (u64 \<times> u64) list \<Rightarrow> u64 list" where
  "counts_in_range lo hi snap = filter (\<lambda>v. lo \<le> v \<and> v \<le> hi) (map snd snap)"

lemma refine_alt:
  assumes "fits64 (length snap)"
  shows "refine_in_bucket lo hi remaining snap =
     (let vs = counts_in_range lo hi snap in
      if length vs \<le> unat remaining then Inr lo
      else if remaining = 0 then Inl OutOfRange
      else Inr (rev (sort vs) ! (unat remaining - 1)))"
proof -
  let ?vs = "counts_in_range lo hi snap"
  have vs: "map snd (filter (\<lambda>(_, v). lo \<le> v \<and> v \<le> hi) snap) = ?vs"
    unfolding counts_in_range_def by (induction snap) auto
  have "length ?vs \<le> length snap"
    unfolding counts_in_range_def using length_filter_le [of _ "map snd snap"] by simp
  then have big: "length ?vs \<le> 2 ^ 64 - 1" using assms by (simp add: fits64_def)
  have nil: "sort ?vs = [] \<longleftrightarrow> ?vs = []" by (metis length_0_conv length_sort)
  show ?thesis
  proof (cases "remaining = 0")
    case True
    then show ?thesis using big by (simp add: nil refine_in_bucket_def vs Let_def unsigned_minus_1_eq_mask mask_eq_exp_minus_1)
  next
    case False
    then have "unat (remaining - 1) = unat remaining - 1" by (rule unat_minus_one)
    moreover have "0 < unat remaining" using False by (simp add: unat_gt_0)
    ultimately show ?thesis using False by (auto simp: refine_in_bucket_def vs Let_def nil)
  qed
qed

lemma refine_range:
  assumes "fits64 (length snap)" "refine_in_bucket lo hi remaining snap = Inr f" "lo \<le> hi"
  shows "lo \<le> f" "f \<le> hi"
proof -
  let ?vs = "counts_in_range lo hi snap"
  have "f = lo \<or> f \<in> set ?vs"
    using assms(2) unfolding refine_alt [OF assms(1)]
    by (auto simp: Let_def rev_nth split: if_splits intro!: nth_mem [of _ "sort _", simplified])
  then show "lo \<le> f" "f \<le> hi" using assms(3) by (auto simp: counts_in_range_def)
qed

lemma refine_rank:
  assumes "fits64 (length snap)" "remaining \<noteq> 0"
  shows "\<exists>f. refine_in_bucket lo hi remaining snap = Inr f
    \<and> (let vs = counts_in_range lo hi snap in
       if length vs \<le> unat remaining then f = lo
       else unat remaining \<le> length (filter (\<lambda>v. f \<le> v) vs) \<and> length (filter (\<lambda>v. f < v) vs) < unat remaining)"
  using kth_largest [of "unat remaining" "counts_in_range lo hi snap"] assms(2)
  unfolding refine_alt [OF assms(1)] by (simp add: Let_def unat_gt_0)

section \<open>Both thresholds\<close>

text \<open>
  The normal case: there are sampled pages, few enough for exact doubles. Then there is a target,
  and a critical bucket \<open>k\<close> that both threshold functions agree on.
\<close>

lemma thresholds_at_critical:
  assumes "tiering_ok F" "buckets_wf a" "GetTotalSampledPages a \<noteq> 0"
    "unat (GetTotalSampledPages a) \<le> 2 ^ 53"
  obtains t k where "target_page_count F (GetTotalSampledPages a) = Inr t"
    "k < total_bucket_num a" "t \<le> cumul a k" "\<forall>j. k < j \<and> j < total_bucket_num a \<longrightarrow> cumul a j < t"
    "CalculateAdmissionThreshold_coarse F a = Inr (push_bit k 1)"
    "CalculateAdmissionThreshold_fine F a snap =
       refine_in_bucket (push_bit k 1) (push_bit (k + 1) 1 - 1) (t - cumul a (Suc k)) snap"
proof -
  obtain t where t: "target_page_count F (GetTotalSampledPages a) = Inr t" "t \<le> GetTotalSampledPages a"
    using assms(1,4) by (rule target_at_most_total)
  have len: "length (buckets a) = total_bucket_num a" "0 < total_bucket_num a"
    using assms(2) by (simp_all add: buckets_wf_def)
  have "t \<le> cumul a 0" using t(2) by (simp add: total_is_cumul)
  with len obtain k where k: "critical_scan a t 0 (total_bucket_num a) = Some (k, cumul a (Suc k))"
    "k < total_bucket_num a" "t \<le> cumul a k" "\<forall>j. k < j \<and> j < total_bucket_num a \<longrightarrow> cumul a j < t"
    by (elim critical_scan_hit)
  have b: "GetTargetBucket a k = Inr (buckets a ! k)"
    "bucket_range_lower_bound (buckets a ! k) = push_bit k 1"
    "bucket_range_upper_bound (buckets a ! k) = push_bit (k + 1) 1 - 1"
    using assms(2) k(2) by (simp_all add: buckets_wf_def GetTargetBucket_ok)
  have "CalculateAdmissionThreshold_coarse F a = Inr (push_bit k 1)"
    using assms(3) unfolding CalculateAdmissionThreshold_coarse_def coarse_is_critical
    by (simp only: Let_def if_False t(1) k(1) bindR_Inr option.map option.case fst_conv b)
  moreover have "CalculateAdmissionThreshold_fine F a snap =
      refine_in_bucket (push_bit k 1) (push_bit (k + 1) 1 - 1) (t - cumul a (Suc k)) snap"
    using assms(3) unfolding CalculateAdmissionThreshold_fine_def
    by (simp only: Let_def if_False t(1) k(1) bindR_Inr option.case prod.case b)
  ultimately show ?thesis by (rule that [OF t(1) k(2,3,4)])
qed

lemma pow2_range_le: "k < 63 \<Longrightarrow> push_bit k (1 :: u64) \<le> push_bit (k + 1) 1 - 1"
  unfolding word_le_nat_alt by (subst unat_pow2_minus, simp, subst unat_pow2) simp_all

section \<open>Properties\<close>

text \<open>
  The DRAM share is a proper fraction for every configuration with non-negative sizes, in
  spite of the rounding of every floating-point step, and the number of pages to admit never
  exceeds the number of sampled pages.
\<close>

theorem dram_share_is_a_fraction:
  assumes "tiering_ok F" "unat n \<le> 2 ^ 53"
  shows "\<exists>r t. GetDRAMvsCXLRatio F = Inr r \<and> 0 \<le> r \<and> r \<le> 1
    \<and> target_page_count F n = Inr t \<and> t \<le> n"
  using ratio_in_unit_interval [OF assms(1)] target_at_most_total [OF assms] by metis

theorem dram_share_is_a_fraction_witness:
  "tiering_ok \<lparr>FLAGS_cxl_gib = 128, FLAGS_dram_recordcache_gib = 16, FLAGS_dram_buffer_pool_gib = 16,
               FLAGS_cxl_tiering_enabled = True\<rparr>
   \<and> unat (1024 :: u64) \<le> 2 ^ 53
   \<and> (\<exists>r t. GetDRAMvsCXLRatio \<lparr>FLAGS_cxl_gib = 128, FLAGS_dram_recordcache_gib = 16,
                FLAGS_dram_buffer_pool_gib = 16, FLAGS_cxl_tiering_enabled = True\<rparr> = Inr r \<and> 0 \<le> r \<and> r \<le> 1
      \<and> target_page_count \<lparr>FLAGS_cxl_gib = 128, FLAGS_dram_recordcache_gib = 16,
                FLAGS_dram_buffer_pool_gib = 16, FLAGS_cxl_tiering_enabled = True\<rparr> 1024 = Inr t \<and> t \<le> 1024)"
proof -
  let ?F = "\<lparr>FLAGS_cxl_gib = 128, FLAGS_dram_recordcache_gib = 16, FLAGS_dram_buffer_pool_gib = 16,
             FLAGS_cxl_tiering_enabled = True\<rparr> :: tiering_flags"
  have "tiering_ok ?F" using rnd_of_nat [of 128] rnd_of_nat [of 16] by (simp add: tiering_ok_def)
  moreover have "unat (1024 :: u64) \<le> 2 ^ 53" by simp
  ultimately show ?thesis using dram_share_is_a_fraction [of ?F 1024] by blast
qed

text \<open>
  The coarse threshold is the lower bound of the hottest bucket at which the accumulated page
  count reaches the target: that bucket and the hotter ones hold at least the target number of
  pages, and the strictly hotter ones hold fewer.
\<close>

theorem coarse_threshold_is_tight:
  assumes "tiering_ok F" "buckets_wf a" "GetTotalSampledPages a \<noteq> 0"
    "unat (GetTotalSampledPages a) \<le> 2 ^ 53"
  shows "\<exists>t k. target_page_count F (GetTotalSampledPages a) = Inr t \<and> k < total_bucket_num a
    \<and> CalculateAdmissionThreshold_coarse F a = Inr (bucket_range_lower_bound (buckets a ! k))
    \<and> t \<le> GetCumulativePageCount a k
    \<and> (\<forall>j. k < j \<and> j < total_bucket_num a \<longrightarrow> GetCumulativePageCount a j < t)"
proof -
  obtain t k where "target_page_count F (GetTotalSampledPages a) = Inr t" "k < total_bucket_num a"
    "t \<le> cumul a k" "\<forall>j. k < j \<and> j < total_bucket_num a \<longrightarrow> cumul a j < t"
    "CalculateAdmissionThreshold_coarse F a = Inr (push_bit k 1)"
    by (rule thresholds_at_critical [OF assms, of "[]"])
  moreover have "bucket_range_lower_bound (buckets a ! k) = push_bit k 1"
    using assms(2) \<open>k < total_bucket_num a\<close> by (simp add: buckets_wf_def)
  ultimately show ?thesis by metis
qed


text \<open>
  C25. The only way the fine threshold can fail is the out-of-range access at
  \<open>remaining_needed_pages - 1\<close>: it happens exactly when the target is zero (few sampled pages and a
  small DRAM share) while some sampled count lies in the range of the last bucket.
\<close>

theorem fine_threshold_error:
  assumes "tiering_ok F" "buckets_wf a" "GetTotalSampledPages a \<noteq> 0"
    "unat (GetTotalSampledPages a) \<le> 2 ^ 53" "fits64 (length snap)"
  shows "CalculateAdmissionThreshold_fine F a snap = Inl e \<longleftrightarrow>
    e = OutOfRange \<and> target_page_count F (GetTotalSampledPages a) = Inr 0
    \<and> counts_in_range (push_bit (total_bucket_num a - 1) 1) (push_bit (total_bucket_num a) 1 - 1) snap \<noteq> []"
proof -
  let ?n = "total_bucket_num a"
  obtain t k where tk: "target_page_count F (GetTotalSampledPages a) = Inr t" "k < ?n"
    "t \<le> cumul a k" "\<forall>j. k < j \<and> j < ?n \<longrightarrow> cumul a j < t"
    "CalculateAdmissionThreshold_coarse F a = Inr (push_bit k 1)"
    and fine: "CalculateAdmissionThreshold_fine F a snap =
       refine_in_bucket (push_bit k 1) (push_bit (k + 1) 1 - 1) (t - cumul a (Suc k)) snap"
    by (rule thresholds_at_critical [OF assms(1,2,3,4), of snap])
  show ?thesis
  proof (cases "t = 0")
    case True
    then have "\<not> (k < ?n - 1)" using tk(4) by auto
    then have k: "k = ?n - 1" "Suc k = ?n" using tk(2) by linarith+
    then show ?thesis using tk(1) fine True k
      by (auto simp: refine_alt [OF assms(5)] Let_def split: if_splits)
  next
    case False
    then have "t - cumul a (Suc k) \<noteq> 0" using remaining_positive [OF tk(4,2)] by (auto simp: word_gt_0)
    then obtain f where "refine_in_bucket (push_bit k 1) (push_bit (k + 1) 1 - 1) (t - cumul a (Suc k)) snap = Inr f"
      using refine_rank [OF assms(5)] by blast
    then show ?thesis using fine tk(1) False by simp
  qed
qed

section \<open>Order of the sampling set\<close>

lemma fill_buckets_wrap:
  assumes "buckets_wf a"
  shows "\<exists>a'. fill_buckets a vs = Inr a' \<and> buckets_wf a' \<and> total_bucket_num a' = total_bucket_num a
    \<and> (\<forall>i < total_bucket_num a. counts a' ! i = counts a ! i + word_of_nat (in_bucket (total_bucket_num a) vs i))"
  using assms
proof (induction vs arbitrary: a)
  case (Cons v vs)
  show ?case
  proof (cases "v = 0")
    case True
    then show ?thesis using Cons by simp
  next
    case False
    then obtain a1 where a1: "UpdateVisitFrequencyBucket a v = Inr a1" "buckets_wf a1"
      "total_bucket_num a1 = total_bucket_num a"
      "counts a1 = (counts a)[bucket_of (total_bucket_num a) v := counts a ! bucket_of (total_bucket_num a) v + 1]"
      using update_bucket_counts [OF Cons.prems] by metis
    have "bucket_of (total_bucket_num a) v < length (counts a)"
      using Cons.prems by (simp add: length_counts bucket_of_less buckets_wf_def)
    with Cons.IH [OF a1(2)] False a1(1,3) show ?thesis
      by (auto simp: a1(4) nth_list_update word_gt_0)
  qed
qed simp

lemma in_bucket_mset: "mset vs = mset ws \<Longrightarrow> in_bucket n vs i = in_bucket n ws i"
  unfolding in_bucket_def by (rule length_filter_mset)

lemma fill_buckets_perm:
  assumes "buckets_wf a" "mset vs = mset ws"
  shows "fill_buckets a vs = fill_buckets a ws"
proof -
  obtain b where b: "fill_buckets a vs = Inr b" "buckets_wf b" "total_bucket_num b = total_bucket_num a"
    "\<forall>i < total_bucket_num a. counts b ! i = counts a ! i + word_of_nat (in_bucket (total_bucket_num a) vs i)"
    using fill_buckets_wrap [OF assms(1), of vs] by blast
  obtain c where c: "fill_buckets a ws = Inr c" "buckets_wf c" "total_bucket_num c = total_bucket_num a"
    "\<forall>i < total_bucket_num a. counts c ! i = counts a ! i + word_of_nat (in_bucket (total_bucket_num a) ws i)"
    using fill_buckets_wrap [OF assms(1), of ws] by blast
  have "counts b = counts c"
    using b(3,4) c(3,4) in_bucket_mset [OF assms(2)] length_counts [OF b(2)] length_counts [OF c(2)]
    by (intro nth_equalityI) simp_all
  then show ?thesis using b c buckets_wf_eqI [of b c] by simp
qed

lemma refine_perm:
  assumes "mset snap = mset snap'"
  shows "refine_in_bucket lo hi r snap = refine_in_bucket lo hi r snap'"
proof -
  let ?f = "\<lambda>s. map snd (filter (\<lambda>(_, v). lo \<le> v \<and> v \<le> hi) s) :: u64 list"
  have m: "mset (?f snap) = mset (?f snap')" using assms by simp
  have "sort (?f snap) = sort (?f snap')"
    using arg_cong [OF m, of sorted_list_of_multiset] by (simp only: sorted_list_of_multiset_mset)
  moreover have "?f snap = [] \<longleftrightarrow> ?f snap' = []"
    using arg_cong [OF m, of "\<lambda>M. M = {#}"] by (simp only: mset_zero_iff)
  ultimately show ?thesis unfolding refine_in_bucket_def Let_def by (simp only:)
qed

lemma fine_perm:
  assumes "mset snap = mset snap'"
  shows "CalculateAdmissionThreshold_fine F a snap = CalculateAdmissionThreshold_fine F a snap'"
  unfolding CalculateAdmissionThreshold_fine_def by (simp only: refine_perm [OF assms])

text \<open>
  The iteration order of the \<open>unordered_map\<close> is immaterial: two sampling sets with the same
  entries in any order lead to the same histogram, thresholds and state (or the same failure).
\<close>

theorem histogram_update_order_independent:
  assumes "buckets_wf (hist_buckets h)"
    "mset (depulicate_sets (sampling_set h)) = mset es"
  shows "UpdateSampledVisitHistogram F hash64 (h\<lparr>sampling_set := (sampling_set h)\<lparr>depulicate_sets := es\<rparr>\<rparr>)
    = UpdateSampledVisitHistogram F hash64 h"
proof -
  let ?d = "sampling_set h" and ?d' = "(sampling_set h)\<lparr>depulicate_sets := es\<rparr>"
  let ?s = "\<lambda>d. GetSampledVisitCountSnapshot (FillSampledPageVisitCounts hash64 (page_cms h) d)"
  have m: "mset (?s ?d') = mset (?s ?d)"
    using assms(2) by (simp add: GetSampledVisitCountSnapshot_def FillSampledPageVisitCounts_def)
  obtain a where a: "AgingVisitFrequencyBuckets (hist_buckets h) = Inr a" "buckets_wf a"
    using aging_counts [OF assms(1)] by metis
  have "fill_buckets a (map snd (?s ?d')) = fill_buckets a (map snd (?s ?d))"
    using a(2) m by (intro fill_buckets_perm) (simp_all only: mset_map)
  moreover have "CalculateAdmissionThreshold_fine F b (?s ?d') = CalculateAdmissionThreshold_fine F b (?s ?d)" for b
    using m by (rule fine_perm)
  moreover have "dedup_Reset (FillSampledPageVisitCounts hash64 (page_cms h) ?d')
      = dedup_Reset (FillSampledPageVisitCounts hash64 (page_cms h) ?d)"
    by (simp add: dedup_Reset_def FillSampledPageVisitCounts_def)
  ultimately show ?thesis
    unfolding UpdateSampledVisitHistogram_def Let_def by (simp add: a(1))
qed

section \<open>Invariant of the histogram\<close>

lemma refine_member:
  assumes "refine_in_bucket lo hi r snap = Inr f" "lo \<le> hi"
  shows "lo \<le> f \<and> f \<le> hi"
proof -
  let ?vs = "map snd (filter (\<lambda>(_, v). lo \<le> v \<and> v \<le> hi) snap)"
  have "f = lo \<or> (\<exists>i < length ?vs. f = rev (sort ?vs) ! i)"
    using assms(1) by (auto simp: refine_in_bucket_def Let_def split: if_splits)
  moreover have "rev (sort ?vs) ! i \<in> set ?vs" if "i < length ?vs" for i
    using nth_mem [of i "rev (sort ?vs)"] that by (simp only: length_rev length_sort set_rev set_sort)
  ultimately show ?thesis using assms(2) by fastforce
qed

lemma thresholds_same_bucket:
  assumes "buckets_wf a" "CalculateAdmissionThreshold_coarse F a = Inr c"
    "CalculateAdmissionThreshold_fine F a snap = Inr f"
  shows "\<exists>k < total_bucket_num a. c = push_bit k 1 \<and> push_bit k 1 \<le> f \<and> f \<le> push_bit (k + 1) 1 - 1"
proof (cases "GetTotalSampledPages a = 0")
  case True
  then have "c = 1" "f = 1"
    using assms(2,3) by (simp_all add: CalculateAdmissionThreshold_coarse_def CalculateAdmissionThreshold_fine_def)
  then show ?thesis using assms(1) by (intro exI [of _ 0]) (simp add: buckets_wf_def)
next
  case False
  then obtain t where t: "target_page_count F (GetTotalSampledPages a) = Inr t"
    using assms(2) by (auto simp: CalculateAdmissionThreshold_coarse_def Let_def)
  have n: "0 < total_bucket_num a" and len: "length (buckets a) = total_bucket_num a"
    and n63: "total_bucket_num a \<le> 63"
    using assms(1) by (simp_all add: buckets_wf_def)
  have b: "GetTargetBucket a k = Inr (buckets a ! k)"
    "bucket_range_lower_bound (buckets a ! k) = push_bit k 1"
    "bucket_range_upper_bound (buckets a ! k) = push_bit (k + 1) 1 - 1" if "k < total_bucket_num a" for k
    using assms(1) that by (simp_all add: buckets_wf_def GetTargetBucket_ok)
  have le: "push_bit k (1 :: u64) \<le> push_bit (k + 1) 1 - 1" if "k < total_bucket_num a" for k
    using that n63 by (intro pow2_range_le) simp
  show ?thesis
  proof (cases "critical_scan a t 0 (total_bucket_num a)")
    case None
    then have "c = push_bit 0 1" "f = push_bit 0 1"
      using assms(2,3) False t b [OF n]
      by (simp_all add: CalculateAdmissionThreshold_coarse_def CalculateAdmissionThreshold_fine_def
          coarse_is_critical Let_def)
    then show ?thesis using le [OF n] n by (intro exI [of _ 0]) simp
  next
    case (Some kc)
    then obtain k where k: "critical_scan a t 0 (total_bucket_num a) = Some (k, cumul a (Suc k))"
      "k < total_bucket_num a"
      using critical_scan_spec [OF len order_refl, of t] by (cases kc) simp
    have "c = push_bit k 1"
      using assms(2) False unfolding CalculateAdmissionThreshold_coarse_def coarse_is_critical Let_def
      by (simp only: if_False t k(1) bindR_Inr option.map option.case fst_conv b [OF k(2)]) simp
    moreover have "refine_in_bucket (push_bit k 1) (push_bit (k + 1) 1 - 1) (t - cumul a (Suc k)) snap = Inr f"
      using assms(3) False unfolding CalculateAdmissionThreshold_fine_def Let_def
      by (simp only: if_False t k(1) bindR_Inr option.case prod.case b [OF k(2)])
    ultimately show ?thesis using refine_member [OF _ le [OF k(2)]] k(2) by blast
  qed
qed

definition hist_inv :: "histogram \<Rightarrow> bool" where
  "hist_inv h \<longleftrightarrow> cms_wf (page_cms h) \<and> buckets_wf (hist_buckets h)
     \<and> distinct (map fst (depulicate_sets (sampling_set h)))
     \<and> length (depulicate_sets (sampling_set h)) \<le> unat (max_sampled_page_ids (sampling_set h))
     \<and> 1 \<le> current_admission_threshold_coarse h
     \<and> current_admission_threshold_coarse h \<le> current_admission_threshold_fine h
     \<and> unat (current_admission_threshold_fine h) < 2 * unat (current_admission_threshold_coarse h)"

lemma hist_inv_new:
  assumes "0 < rows" "0 < cols" "0 < n" "n \<le> 63"
  shows "hist_inv (newSampledVisitHistogram (newCountMinSketch rows cols) (newDepulicateSet m t) (newVisitFrequencyBucketArray n))"
  using assms(1,2) buckets_wf_new [OF assms(3,4)]
  by (simp add: hist_inv_def newSampledVisitHistogram_def) (simp add: newDepulicateSet_def)

lemma hist_inv_access:
  assumes "hist_inv h"
  shows "hist_inv (WorkerThreadOnPageAccess hash64 b p h)"
proof -
  have "cms_wf (CMSPageAccessUpdate hash64 (page_cms h) p)"
    using assms by (simp add: hist_inv_def CMSPageAccessUpdate_def cms_wf_ops)
  then show ?thesis using assms
    by (auto simp: hist_inv_def WorkerThreadOnPageAccess_def set_OnPageAccess_def Let_def
        map_emplace_def)
qed

lemma reset_fill: "dedup_Reset (FillSampledPageVisitCounts hash64 s d) = dedup_Reset d"
  by (simp add: dedup_Reset_def FillSampledPageVisitCounts_def)

lemma update_cases:
  assumes "UpdateSampledVisitHistogram F hash64 h = Inr h'" "buckets_wf (hist_buckets h)"
  obtains snap where
    "snap = map (\<lambda>p. (p, CMSQuery hash64 (page_cms h) p)) (map fst (depulicate_sets (sampling_set h)))"
    "bindR (AgingVisitFrequencyBuckets (hist_buckets h)) (\<lambda>a. fill_buckets a (map snd snap))
       = Inr (hist_buckets h')"
    "buckets_wf (hist_buckets h')" "total_bucket_num (hist_buckets h') = total_bucket_num (hist_buckets h)"
    "CalculateAdmissionThreshold_coarse F (hist_buckets h') = Inr (current_admission_threshold_coarse h')"
    "CalculateAdmissionThreshold_fine F (hist_buckets h') snap = Inr (current_admission_threshold_fine h')"
    "page_cms h' = CMSAging (page_cms h)"
    "sampling_set h' = dedup_Reset (sampling_set h)"
proof -
  let ?snap = "map (\<lambda>p. (p, CMSQuery hash64 (page_cms h) p)) (map fst (depulicate_sets (sampling_set h)))"
  have snap: "GetSampledVisitCountSnapshot (FillSampledPageVisitCounts hash64 (page_cms h) (sampling_set h)) = ?snap"
    by (auto simp: GetSampledVisitCountSnapshot_def FillSampledPageVisitCounts_def)
  obtain a where a: "AgingVisitFrequencyBuckets (hist_buckets h) = Inr a" "buckets_wf a"
    "total_bucket_num a = total_bucket_num (hist_buckets h)"
    by (rule aging_counts [OF assms(2)])
  obtain b where b: "fill_buckets a (map snd ?snap) = Inr b" "buckets_wf b"
    "total_bucket_num b = total_bucket_num a"
    using fill_buckets_wrap [OF a(2), of "map snd ?snap"] by blast
  obtain c f where cf: "CalculateAdmissionThreshold_coarse F b = Inr c"
    "CalculateAdmissionThreshold_fine F b ?snap = Inr f"
    "h' = \<lparr>page_cms = CMSAging (page_cms h),
       sampling_set = dedup_Reset (FillSampledPageVisitCounts hash64 (page_cms h) (sampling_set h)),
       hist_buckets = b, current_admission_threshold_coarse = c, current_admission_threshold_fine = f\<rparr>"
    using assms(1) unfolding UpdateSampledVisitHistogram_def snap Let_def a(1) bindR_Inr b(1)
    by (auto simp del: map_map)
  show ?thesis
    by (rule that [OF refl])
      (simp_all only: a b cf bindR_Inr histogram.select_convs reset_fill)
qed

lemma hist_inv_update:
  assumes "hist_inv h" "UpdateSampledVisitHistogram F hash64 h = Inr h'"
  shows "hist_inv h'"
proof -
  have "buckets_wf (hist_buckets h)" using assms(1) by (simp add: hist_inv_def)
  with assms(2) obtain snap where u: "buckets_wf (hist_buckets h')"
    "CalculateAdmissionThreshold_coarse F (hist_buckets h') = Inr (current_admission_threshold_coarse h')"
    "CalculateAdmissionThreshold_fine F (hist_buckets h') snap = Inr (current_admission_threshold_fine h')"
    "page_cms h' = CMSAging (page_cms h)" "sampling_set h' = dedup_Reset (sampling_set h)"
    by (elim update_cases)
  obtain k where k: "k < total_bucket_num (hist_buckets h')"
    "current_admission_threshold_coarse h' = push_bit k 1"
    "push_bit k 1 \<le> current_admission_threshold_fine h'"
    "current_admission_threshold_fine h' \<le> push_bit (k + 1) 1 - 1"
    using thresholds_same_bucket [OF u(1,2,3)] by blast
  have k63: "k < 63" using u(1) k(1) by (simp add: buckets_wf_def)
  then have c: "unat (current_admission_threshold_coarse h') = 2 ^ k"
    unfolding k(2) by (intro unat_pow2) simp
  have "unat (current_admission_threshold_fine h') < 2 * unat (current_admission_threshold_coarse h')"
    using k(4) unat_pow2_minus [OF k63] zero_less_power [of "2::nat" k]
    unfolding word_le_nat_alt c by (simp only: power_add power_one_right) linarith
  moreover have "1 \<le> current_admission_threshold_coarse h'"
    using c by (simp add: word_le_nat_alt)
  moreover have "cms_wf (page_cms h')" using assms(1) u(4) by (simp add: hist_inv_def cms_wf_ops)
  ultimately show ?thesis using u(1,5) k(2,3) by (simp add: hist_inv_def dedup_Reset_def)
qed

text \<open>
  Any interleaving of worker accesses (with the outcome of their \<open>try_lock\<close>) and attempts of the
  background thread; and what the page sketch sees of it.
\<close>

datatype hist_op = PageAccess u64 bool | TryUpdate

fun hist_run :: "tiering_flags \<Rightarrow> (u64 \<Rightarrow> u64) \<Rightarrow> histogram \<Rightarrow> hist_op list \<Rightarrow> histogram result" where
  "hist_run F hash64 h [] = Inr h"
| "hist_run F hash64 h (PageAccess p b # ops) = hist_run F hash64 (WorkerThreadOnPageAccess hash64 b p h) ops"
| "hist_run F hash64 h (TryUpdate # ops) =
     bindR (BackgroundThreadTryUpdate F hash64 h) (\<lambda>(_, h). hist_run F hash64 h ops)"

fun hist_trace :: "tiering_flags \<Rightarrow> (u64 \<Rightarrow> u64) \<Rightarrow> histogram \<Rightarrow> hist_op list \<Rightarrow> u64 sketch_op list" where
  "hist_trace F hash64 h [] = []"
| "hist_trace F hash64 h (PageAccess p b # ops) =
     Touch p # hist_trace F hash64 (WorkerThreadOnPageAccess hash64 b p h) ops"
| "hist_trace F hash64 h (TryUpdate # ops) =
     (case BackgroundThreadTryUpdate F hash64 h of
        Inl _ \<Rightarrow> []
      | Inr (updated, h) \<Rightarrow> (if updated then [Age] else []) @ hist_trace F hash64 h ops)"

lemma background_cases:
  assumes "BackgroundThreadTryUpdate F hash64 h = Inr (u, h')"
  obtains "u" "UpdateSampledVisitHistogram F hash64 h = Inr h'" | "\<not> u" "h' = h"
  using assms by (auto simp: BackgroundThreadTryUpdate_def split: if_splits)

lemma hist_run_inv:
  "hist_inv h \<Longrightarrow> hist_run F hash64 h ops = Inr h' \<Longrightarrow> hist_inv h'"
proof (induction F hash64 h ops rule: hist_run.induct)
  case (3 F hash64 h ops)
  then obtain u h1 where h1: "BackgroundThreadTryUpdate F hash64 h = Inr (u, h1)" "hist_run F hash64 h1 ops = Inr h'"
    by auto
  from h1(1) have "hist_inv h1" using "3.prems"(1) by (cases rule: background_cases) (auto intro: hist_inv_update)
  then show ?case using "3.IH" h1(2) by simp
qed (simp_all add: hist_inv_access)

lemma hist_run_cms:
  "buckets_wf (hist_buckets h) \<Longrightarrow> hist_run F hash64 h ops = Inr h' \<Longrightarrow>
    page_cms h' = sketch_run (CMSPageAccessUpdate hash64) CMSAging CMSReset (page_cms h) (hist_trace F hash64 h ops)"
proof (induction F hash64 h ops rule: hist_run.induct)
  case (3 F hash64 h ops)
  then obtain u h1 where h1: "BackgroundThreadTryUpdate F hash64 h = Inr (u, h1)" "hist_run F hash64 h1 ops = Inr h'"
    by auto
  from h1(1) show ?case
  proof (cases rule: background_cases)
    case 1
    then have "buckets_wf (hist_buckets h1)" "page_cms h1 = CMSAging (page_cms h)"
      using "3.prems"(1) by (auto elim: update_cases)
    then show ?thesis using "3.IH" h1 1(1) by simp
  next
    case 2
    then show ?thesis using "3.IH" h1 "3.prems"(1) by simp
  qed
qed (simp_all add: WorkerThreadOnPageAccess_def)

section \<open>Properties of whole runs\<close>

text \<open>
  C26. Through any interleaving of worker accesses and background updates that runs without a
  failure, the histogram keeps its invariant: the sketch and the buckets are well formed, the
  sampling set has no duplicates and respects its limit, and the fine threshold stays within the
  bucket of the coarse one.
\<close>

theorem histogram_run_invariant:
  assumes "0 < rows" "0 < cols" "0 < n" "n \<le> 63"
    "hist_run F hash64 (newSampledVisitHistogram (newCountMinSketch rows cols) (newDepulicateSet m t)
       (newVisitFrequencyBucketArray n)) ops = Inr h"
  shows "hist_inv h"
  by (rule hist_run_inv [OF hist_inv_new [OF assms(1-4)] assms(5)])


section \<open>Witnesses\<close>

definition sample_flags :: tiering_flags where
  "sample_flags = \<lparr>FLAGS_cxl_gib = 32, FLAGS_dram_recordcache_gib = 16,
     FLAGS_dram_buffer_pool_gib = 16, FLAGS_cxl_tiering_enabled = True\<rparr>"

definition sample_buckets :: bucket_array where
  "sample_buckets = (newVisitFrequencyBucketArray 3)\<lparr>buckets :=
      map (\<lambda>(i, c). SetBucketCount c (newVisitFrequencyBucket i)) [(0, 4), (1, 2), (2, 2)]\<rparr>"

lemma sample_flags_ok: "tiering_ok sample_flags"
  using rnd_of_nat [of 32] rnd_of_nat [of 16] by (simp add: tiering_ok_def sample_flags_def)

lemma sample_buckets_wf: "buckets_wf sample_buckets"
  by (simp add: buckets_wf_def sample_buckets_def newVisitFrequencyBucketArray_def
      newVisitFrequencyBucket_def SetBucketCount_def less_Suc_eq numeral_3_eq_3 all_conj_distrib
      nth_Cons split: nat.splits)

lemma sample_total: "GetTotalSampledPages sample_buckets = 8"
  by code_simp

lemma sample_target: "target_page_count sample_flags 8 = Inr 4"
  by code_simp

theorem coarse_threshold_is_tight_witness:
  "tiering_ok sample_flags \<and> buckets_wf sample_buckets \<and> GetTotalSampledPages sample_buckets \<noteq> 0
   \<and> unat (GetTotalSampledPages sample_buckets) \<le> 2 ^ 53
   \<and> (\<exists>t k. target_page_count sample_flags (GetTotalSampledPages sample_buckets) = Inr t
    \<and> k < total_bucket_num sample_buckets
    \<and> CalculateAdmissionThreshold_coarse sample_flags sample_buckets
        = Inr (bucket_range_lower_bound (buckets sample_buckets ! k))
    \<and> t \<le> GetCumulativePageCount sample_buckets k
    \<and> (\<forall>j. k < j \<and> j < total_bucket_num sample_buckets \<longrightarrow> GetCumulativePageCount sample_buckets j < t))"
  using coarse_threshold_is_tight [OF sample_flags_ok sample_buckets_wf] sample_flags_ok sample_buckets_wf
  by (simp add: sample_total)


theorem fine_threshold_error_witness:
  "GetTotalSampledPages sample_buckets = 8
   \<and> CalculateAdmissionThreshold_fine sample_flags sample_buckets [(7, 2), (8, 3), (9, 3)] \<noteq> Inl OutOfRange"
proof -
  have "GetTotalSampledPages sample_buckets \<noteq> 0" "unat (GetTotalSampledPages sample_buckets) \<le> 2 ^ 53"
    "fits64 (length [(7, 2), (8, 3), (9, 3) :: u64 \<times> u64])"
    by (simp_all add: sample_total fits64_def)
  from fine_threshold_error [OF sample_flags_ok sample_buckets_wf this, of OutOfRange] show ?thesis
    by (simp add: sample_total sample_target)
qed

definition sample_histogram :: histogram where
  "sample_histogram = newSampledVisitHistogram (newCountMinSketch 2 4) (newDepulicateSet 4 2)
     (newVisitFrequencyBucketArray 3)"

theorem histogram_update_order_independent_witness:
  "buckets_wf (hist_buckets (WorkerThreadOnPageAccess id True 5 (WorkerThreadOnPageAccess id True 9 sample_histogram)))
   \<and> UpdateSampledVisitHistogram sample_flags id
      ((WorkerThreadOnPageAccess id True 5 (WorkerThreadOnPageAccess id True 9 sample_histogram))
        \<lparr>sampling_set := (sampling_set (WorkerThreadOnPageAccess id True 5
           (WorkerThreadOnPageAccess id True 9 sample_histogram)))\<lparr>depulicate_sets := [(5, 0), (9, 0)]\<rparr>\<rparr>)
    = UpdateSampledVisitHistogram sample_flags id
        (WorkerThreadOnPageAccess id True 5 (WorkerThreadOnPageAccess id True 9 sample_histogram))"
proof -
  let ?h = "WorkerThreadOnPageAccess id True 5 (WorkerThreadOnPageAccess id True 9 sample_histogram)"
  have wf: "buckets_wf (hist_buckets ?h)"
    by (simp add: WorkerThreadOnPageAccess_def sample_histogram_def newSampledVisitHistogram_def buckets_wf_new)
  have "depulicate_sets (sampling_set ?h) = [(9, 0), (5, 0)]"
    by (simp add: WorkerThreadOnPageAccess_def sample_histogram_def newSampledVisitHistogram_def
        newDepulicateSet_def set_OnPageAccess_def map_emplace_def)
  then have "mset (depulicate_sets (sampling_set ?h)) = mset [(5, 0), (9, 0)]" by simp
  from histogram_update_order_independent [OF wf this] wf show ?thesis by blast
qed

lemma sample_run:
  "hist_run sample_flags id sample_histogram [PageAccess 5 True, PageAccess 9 False, PageAccess 5 False]
   = Inr (WorkerThreadOnPageAccess id False 5 (WorkerThreadOnPageAccess id False 9
       (WorkerThreadOnPageAccess id True 5 sample_histogram)))"
  by simp

theorem histogram_run_invariant_witness:
  "hist_inv (WorkerThreadOnPageAccess id False 5 (WorkerThreadOnPageAccess id False 9
     (WorkerThreadOnPageAccess id True 5 sample_histogram)))"
  using histogram_run_invariant [OF _ _ _ _ sample_run [unfolded sample_histogram_def]]
  by (simp add: sample_histogram_def)


end
