(* ===== verification/HotPageCandidate.thy ===== *)
theory HotPageCandidate
  imports CountMinSketch Doubles
begin

text \<open>
  \<open>HotPageCandidate\<close> and \<open>CandidateSnapshot\<close> of \<open>SkewRecordAdmission.hpp\<close>: a candidate page with
  three bitmaps over its slots (accessed, promoted, urgent), eight 64-bit words each. A pointer to a
  buffer frame is its address, 0 for \<open>nullptr\<close>.
\<close>

section \<open>Bitmaps\<close>

type_synonym bf_ptr = u64
type_synonym bitmap = "u64 list"

definition MAX_SLOTS_PER_PAGE :: nat where "MAX_SLOTS_PER_PAGE = 512"
definition NUM_BITMAP_WORDS :: nat where "NUM_BITMAP_WORDS = (MAX_SLOTS_PER_PAGE + 63) div 64"

definition slot_word :: "u16 \<Rightarrow> nat" where "slot_word s = unat s div 64"
definition slot_bit :: "u16 \<Rightarrow> nat" where "slot_bit s = unat s mod 64"

text \<open>\<open>(b[s / 64] >> (s % 64)) & 1\<close>, \<open>fetch_or\<close> and \<open>fetch_and\<close> on the word of slot \<open>s\<close>.\<close>

definition bitmap_raw_test :: "bitmap \<Rightarrow> u16 \<Rightarrow> bool" where
  "bitmap_raw_test b s \<longleftrightarrow> drop_bit (slot_bit s) (b ! slot_word s) AND 1 \<noteq> 0"

definition bitmap_test :: "bitmap \<Rightarrow> u16 \<Rightarrow> bool" where
  "bitmap_test b s = (if MAX_SLOTS_PER_PAGE \<le> unat s then False else bitmap_raw_test b s)"

definition bitmap_or :: "bitmap \<Rightarrow> u16 \<Rightarrow> bitmap" where
  "bitmap_or b s =
     (if MAX_SLOTS_PER_PAGE \<le> unat s then b
      else b[slot_word s := b ! slot_word s OR push_bit (slot_bit s) 1])"

definition bitmap_andnot :: "bitmap \<Rightarrow> u16 \<Rightarrow> bitmap" where
  "bitmap_andnot b s =
     (if MAX_SLOTS_PER_PAGE \<le> unat s then b
      else b[slot_word s := b ! slot_word s AND NOT (push_bit (slot_bit s) 1)])"

definition bitmap_count :: "bitmap \<Rightarrow> nat" where
  "bitmap_count b = fold (\<lambda>i n. n + popcountll (b ! i)) [0..<NUM_BITMAP_WORDS] 0"

section \<open>The candidate\<close>

record hot_page =
  page_cms_visit_count :: u64
  page_slot_num :: u16
  cxl_bf :: bf_ptr
  distinct_accessed_slot_set :: bitmap
  already_promoted_slot_set :: bitmap
  urgent_pending_slot_set :: bitmap
  per_hot_page_visit_count :: u64

definition newHotPageCandidate :: "u64 \<Rightarrow> u16 \<Rightarrow> bf_ptr \<Rightarrow> hot_page result" where
  "newHotPageCandidate visits slots bf =
     bindR (assertR (0 < slots \<and> unat slots \<le> MAX_SLOTS_PER_PAGE)) (\<lambda>_.
       Inr \<lparr>page_cms_visit_count = visits, page_slot_num = slots, cxl_bf = bf,
            distinct_accessed_slot_set = replicate NUM_BITMAP_WORDS 0,
            already_promoted_slot_set = replicate NUM_BITMAP_WORDS 0,
            urgent_pending_slot_set = replicate NUM_BITMAP_WORDS 0,
            per_hot_page_visit_count = 0\<rparr>)"

definition GetDistinctAccessedSlotCount :: "hot_page \<Rightarrow> nat" where
  "GetDistinctAccessedSlotCount c = bitmap_count (distinct_accessed_slot_set c)"

definition GetAlreadyPromotedSlotCount :: "hot_page \<Rightarrow> nat" where
  "GetAlreadyPromotedSlotCount c = bitmap_count (already_promoted_slot_set c)"

definition IsSlotAccessed :: "hot_page \<Rightarrow> u16 \<Rightarrow> bool" where
  "IsSlotAccessed c s = bitmap_test (distinct_accessed_slot_set c) s"

definition IsSlotPromoted :: "hot_page \<Rightarrow> u16 \<Rightarrow> bool" where
  "IsSlotPromoted c s = bitmap_test (already_promoted_slot_set c) s"

definition IsSlotUrgent :: "hot_page \<Rightarrow> u16 \<Rightarrow> bool" where
  "IsSlotUrgent c s = bitmap_test (urgent_pending_slot_set c) s"

definition MarkSlotAsAccessed :: "hot_page \<Rightarrow> u16 \<Rightarrow> hot_page" where
  "MarkSlotAsAccessed c s = c\<lparr>distinct_accessed_slot_set := bitmap_or (distinct_accessed_slot_set c) s\<rparr>"

definition MarkSlotAsPromoted :: "hot_page \<Rightarrow> u16 \<Rightarrow> hot_page" where
  "MarkSlotAsPromoted c s = c\<lparr>already_promoted_slot_set := bitmap_or (already_promoted_slot_set c) s\<rparr>"

definition ClearPromotedSlotBit :: "hot_page \<Rightarrow> u16 \<Rightarrow> hot_page" where
  "ClearPromotedSlotBit c s = c\<lparr>already_promoted_slot_set := bitmap_andnot (already_promoted_slot_set c) s\<rparr>"

definition MarkSlotAsUrgent :: "hot_page \<Rightarrow> u16 \<Rightarrow> hot_page" where
  "MarkSlotAsUrgent c s = c\<lparr>urgent_pending_slot_set := bitmap_or (urgent_pending_slot_set c) s\<rparr>"

definition ClearUrgentSlotBit :: "hot_page \<Rightarrow> u16 \<Rightarrow> hot_page" where
  "ClearUrgentSlotBit c s = c\<lparr>urgent_pending_slot_set := bitmap_andnot (urgent_pending_slot_set c) s\<rparr>"

definition IncrementVisitCount :: "hot_page \<Rightarrow> hot_page" where
  "IncrementVisitCount c = c\<lparr>per_hot_page_visit_count := per_hot_page_visit_count c + 1\<rparr>"

section \<open>The snapshot\<close>

record candidate_snapshot =
  snap_page_id :: u64
  snap_cxl_bf :: bf_ptr
  snap_slot_num :: u16
  per_page_visits :: u64
  accessed_bits :: bitmap
  promoted_bits :: bitmap
  urgent_bits :: bitmap

definition snap_IsSlotPromoted :: "candidate_snapshot \<Rightarrow> u16 \<Rightarrow> bool" where
  "snap_IsSlotPromoted sn s = bitmap_raw_test (promoted_bits sn) s"

definition snap_GetDistinctAccessedSlotCount :: "candidate_snapshot \<Rightarrow> nat" where
  "snap_GetDistinctAccessedSlotCount sn =
     popcountll (accessed_bits sn ! 0) + popcountll (accessed_bits sn ! 1) + popcountll (accessed_bits sn ! 2)"

definition snap_GetAlreadyPromotedSlotCount :: "candidate_snapshot \<Rightarrow> nat" where
  "snap_GetAlreadyPromotedSlotCount sn =
     popcountll (promoted_bits sn ! 0) + popcountll (promoted_bits sn ! 1) + popcountll (promoted_bits sn ! 2)"

definition take_snapshot :: "u64 \<times> hot_page \<Rightarrow> candidate_snapshot" where
  "take_snapshot e =
     \<lparr>snap_page_id = fst e, snap_cxl_bf = cxl_bf (snd e), snap_slot_num = page_slot_num (snd e),
      per_page_visits = per_hot_page_visit_count (snd e),
      accessed_bits = distinct_accessed_slot_set (snd e),
      promoted_bits = already_promoted_slot_set (snd e),
      urgent_bits = urgent_pending_slot_set (snd e)\<rparr>"

text \<open>
  The iteration over the set bits of one word, lowest first, that stops at the first slot beyond
  the page, and the loop over all words.
\<close>

function while_bits :: "nat \<Rightarrow> u16 \<Rightarrow> u64 \<Rightarrow> u16 list" where
  "while_bits word slots bits =
     (if bits = 0 then []
      else let slot_id = word_of_nat (word * 64 + ctzll bits)
           in if slots \<le> slot_id then [] else slot_id # while_bits word slots (bits AND (bits - 1)))"
  by pat_completeness auto
termination
  by (relation "measure (\<lambda>(_, _, bits). unat bits)") (simp_all add: clear_lowest_less)

declare while_bits.simps [simp del]

definition visited_slots :: "bitmap \<Rightarrow> u16 \<Rightarrow> u16 list" where
  "visited_slots b slots = concat (map (\<lambda>w. while_bits w slots (b ! w)) [0..<NUM_BITMAP_WORDS])"

section \<open>Bitmaps as sets of slots\<close>

definition bitmap_wf :: "bitmap \<Rightarrow> bool" where
  "bitmap_wf b \<longleftrightarrow> length b = NUM_BITMAP_WORDS"

lemma num_words [simp]: "NUM_BITMAP_WORDS = 8" "MAX_SLOTS_PER_PAGE = 512"
  by (simp_all add: NUM_BITMAP_WORDS_def MAX_SLOTS_PER_PAGE_def)

lemma slot_bounds: "unat s < 512 \<Longrightarrow> slot_word s < 8" "slot_bit s < 64"
  by (simp_all add: slot_word_def slot_bit_def)

lemma slot_eqI: "slot_word s = slot_word t \<Longrightarrow> slot_bit s = slot_bit t \<Longrightarrow> s = t"
  unfolding slot_word_def slot_bit_def by (metis div_mult_mod_eq unsigned_word_eqI)

lemma raw_test_bit: "bitmap_raw_test b s \<longleftrightarrow> bit (b ! slot_word s) (slot_bit s)"
  by (simp add: bitmap_raw_test_def bit_iff_odd_drop_bit and_one_eq odd_iff_mod_2_eq_one)

lemma test_bit: "bitmap_test b s \<longleftrightarrow> unat s < 512 \<and> bit (b ! slot_word s) (slot_bit s)"
  by (auto simp: bitmap_test_def raw_test_bit)

lemma bit_single: "m < 64 \<Longrightarrow> bit (2 ^ n :: u64) m \<longleftrightarrow> m = n"
  by (auto simp: bit_exp_iff)

lemma bitmap_wf_ops [simp]:
  "bitmap_wf (replicate 8 w)" "bitmap_wf b \<Longrightarrow> bitmap_wf (bitmap_or b s)"
  "bitmap_wf b \<Longrightarrow> bitmap_wf (bitmap_andnot b s)"
  by (simp_all add: bitmap_wf_def bitmap_or_def bitmap_andnot_def)

lemma test_replicate_0 [simp]: "\<not> bitmap_test (replicate 8 0) s"
  using slot_bounds [of s] by (auto simp: test_bit)

lemma test_or:
  assumes "bitmap_wf b"
  shows "bitmap_test (bitmap_or b s) t \<longleftrightarrow> s = t \<and> unat s < 512 \<or> bitmap_test b t"
proof (cases "unat s < 512")
  case True
  then have w: "slot_word s < length b" using assms slot_bounds(1) by (simp add: bitmap_wf_def)
  show ?thesis
  proof (cases "slot_word s = slot_word t")
    case eq: True
    have "bitmap_test (bitmap_or b s) t \<longleftrightarrow> unat t < 512 \<and> (bit (b ! slot_word t) (slot_bit t) \<or> slot_bit t = slot_bit s)"
      using True w slot_bounds(2) [of t] eq
      by (simp add: test_bit bitmap_or_def bit_or_iff bit_single)
    then show ?thesis using eq True slot_eqI [of s t] by (auto simp: test_bit)
  next
    case False
    then show ?thesis using True by (auto simp: test_bit bitmap_or_def)
  qed
qed (auto simp: bitmap_or_def)

lemma test_andnot:
  assumes "bitmap_wf b"
  shows "bitmap_test (bitmap_andnot b s) t \<longleftrightarrow> s \<noteq> t \<and> bitmap_test b t"
proof (cases "unat s < 512")
  case True
  then have w: "slot_word s < length b" using assms slot_bounds(1) by (simp add: bitmap_wf_def)
  show ?thesis
  proof (cases "slot_word s = slot_word t")
    case eq: True
    have "bitmap_test (bitmap_andnot b s) t \<longleftrightarrow> unat t < 512 \<and> bit (b ! slot_word t) (slot_bit t) \<and> slot_bit t \<noteq> slot_bit s"
      using True w slot_bounds(2) [of t] eq
      by (simp add: test_bit bitmap_andnot_def bit_and_iff bit_not_iff bit_single)
    then show ?thesis using eq slot_eqI [of s t] by (auto simp: test_bit)
  next
    case False
    then show ?thesis using True by (auto simp: test_bit bitmap_andnot_def)
  qed
qed (auto simp: bitmap_andnot_def test_bit)

subsection \<open>The contract of a slot set\<close>

text \<open>What the admission logic relies on of each bitmap: marking adds a slot of the page range and nothing else.\<close>

locale slot_set =
  fixes mem :: "'s \<Rightarrow> u16 \<Rightarrow> bool" and mark :: "'s \<Rightarrow> u16 \<Rightarrow> 's" and swf :: "'s \<Rightarrow> bool"
  assumes wf_mark: "swf c \<Longrightarrow> swf (mark c s)"
    and mem_mark: "swf c \<Longrightarrow> mem (mark c s) t \<longleftrightarrow> s = t \<and> unat s < 512 \<or> mem c t"
begin

lemma marks:
  "swf c \<Longrightarrow> swf (fold (\<lambda>s c. mark c s) ss c)
    \<and> (mem (fold (\<lambda>s c. mark c s) ss c) t \<longleftrightarrow> t \<in> set ss \<and> unat t < 512 \<or> mem c t)"
  by (induction ss arbitrary: c) (auto simp: wf_mark mem_mark)

end

locale clearable_slot_set = slot_set +
  fixes clear :: "'a \<Rightarrow> u16 \<Rightarrow> 'a"
  assumes wf_clear: "swf c \<Longrightarrow> swf (clear c s)"
    and mem_clear: "swf c \<Longrightarrow> mem (clear c s) t \<longleftrightarrow> s \<noteq> t \<and> mem c t"
begin

lemma mark_clear: "swf c \<Longrightarrow> mem (mark (clear c s) s) t \<longleftrightarrow> s = t \<and> unat s < 512 \<or> mem c t \<and> s \<noteq> t"
  by (auto simp: mem_mark mem_clear wf_clear)

end

definition cand_wf :: "hot_page \<Rightarrow> bool" where
  "cand_wf c \<longleftrightarrow> 0 < page_slot_num c \<and> unat (page_slot_num c) \<le> MAX_SLOTS_PER_PAGE
     \<and> bitmap_wf (distinct_accessed_slot_set c) \<and> bitmap_wf (already_promoted_slot_set c)
     \<and> bitmap_wf (urgent_pending_slot_set c)"

lemmas slot_defs = IsSlotAccessed_def IsSlotPromoted_def IsSlotUrgent_def MarkSlotAsAccessed_def
  MarkSlotAsPromoted_def ClearPromotedSlotBit_def MarkSlotAsUrgent_def ClearUrgentSlotBit_def
  IncrementVisitCount_def

interpretation accessed: slot_set IsSlotAccessed MarkSlotAsAccessed cand_wf
  by unfold_locales (simp_all add: cand_wf_def slot_defs test_or)

interpretation promoted: clearable_slot_set IsSlotPromoted MarkSlotAsPromoted cand_wf ClearPromotedSlotBit
  by unfold_locales (simp_all add: cand_wf_def slot_defs test_or test_andnot)

interpretation urgent: clearable_slot_set IsSlotUrgent MarkSlotAsUrgent cand_wf ClearUrgentSlotBit
  by unfold_locales (simp_all add: cand_wf_def slot_defs test_or test_andnot)

text \<open>The three sets are independent.\<close>

lemma slot_sets_frame [simp]:
  "IsSlotAccessed (MarkSlotAsPromoted c s) = IsSlotAccessed c"
  "IsSlotAccessed (ClearPromotedSlotBit c s) = IsSlotAccessed c"
  "IsSlotAccessed (MarkSlotAsUrgent c s) = IsSlotAccessed c"
  "IsSlotAccessed (ClearUrgentSlotBit c s) = IsSlotAccessed c"
  "IsSlotAccessed (IncrementVisitCount c) = IsSlotAccessed c"
  "IsSlotPromoted (MarkSlotAsAccessed c s) = IsSlotPromoted c"
  "IsSlotPromoted (MarkSlotAsUrgent c s) = IsSlotPromoted c"
  "IsSlotPromoted (ClearUrgentSlotBit c s) = IsSlotPromoted c"
  "IsSlotPromoted (IncrementVisitCount c) = IsSlotPromoted c"
  "IsSlotUrgent (MarkSlotAsAccessed c s) = IsSlotUrgent c"
  "IsSlotUrgent (MarkSlotAsPromoted c s) = IsSlotUrgent c"
  "IsSlotUrgent (ClearPromotedSlotBit c s) = IsSlotUrgent c"
  "IsSlotUrgent (IncrementVisitCount c) = IsSlotUrgent c"
  "cand_wf (IncrementVisitCount c) = cand_wf c"
  by (simp_all add: fun_eq_iff slot_defs cand_wf_def)

lemma new_candidate:
  assumes "newHotPageCandidate v n bf = Inr c"
  shows "cand_wf c \<and> page_slot_num c = n \<and> cxl_bf c = bf \<and> \<not> IsSlotAccessed c s
    \<and> \<not> IsSlotPromoted c s \<and> \<not> IsSlotUrgent c s"
  using assms by (auto simp: newHotPageCandidate_def cand_wf_def slot_defs assertR_def split: if_splits)

section \<open>Iterating over the set bits\<close>

lemma takeWhile_less_sorted:
  fixes xs :: "'a::linorder list"
  shows "sorted xs \<Longrightarrow> takeWhile (\<lambda>x. x < n) xs = filter (\<lambda>x. x < n) xs"
  by (induction xs) (auto simp: not_less intro!: filter_False [symmetric] dest: leD order_trans)

lemma while_bits_takeWhile:
  "while_bits w n bits = takeWhile (\<lambda>s. s < n) (map (\<lambda>b. word_of_nat (w * 64 + b)) (scan_bits bits))"
proof (induction w n bits rule: while_bits.induct)
  case (1 w n bits)
  show ?case
  proof (cases "bits = 0")
    case False
    then have "scan_bits bits = ctzll bits # scan_bits (bits AND (bits - 1))"
      by (simp add: scan_bits.simps [of bits])
    moreover have "n \<le> word_of_nat (w * 64 + ctzll bits) \<longleftrightarrow> \<not> word_of_nat (w * 64 + ctzll bits) < n"
      by (rule linorder_not_less [symmetric])
    ultimately show ?thesis using 1 False
      by (simp add: while_bits.simps [of w n bits] Let_def del: of_nat_add of_nat_mult)
  qed (simp add: while_bits.simps)
qed

lemma unat_slot: "w < 8 \<Longrightarrow> j < 64 \<Longrightarrow> unat (word_of_nat (w * 64 + j) :: u16) = w * 64 + j"
  unfolding unat_of_nat by simp

lemma slot_of_index:
  assumes "w < 8" "j < 64"
  shows "slot_word (word_of_nat (w * 64 + j)) = w" "slot_bit (word_of_nat (w * 64 + j)) = j"
    "bitmap_test b (word_of_nat (w * 64 + j)) \<longleftrightarrow> bit (b ! w) j"
proof -
  show w: "slot_word (word_of_nat (w * 64 + j)) = w" and b: "slot_bit (word_of_nat (w * 64 + j)) = j"
    using assms by (simp_all only: slot_word_def slot_bit_def unat_slot) simp_all
  show "bitmap_test b (word_of_nat (w * 64 + j)) \<longleftrightarrow> bit (b ! w) j"
    using assms unfolding test_bit w b unat_slot [OF assms] by auto
qed

lemma while_bits_filter:
  assumes "w < 8"
  shows "while_bits w n (b ! w) =
    filter (\<lambda>s. bitmap_test b s \<and> s < n) (map (\<lambda>j. word_of_nat (w * 64 + j)) [0..<64])"
proof -
  let ?g = "\<lambda>j. word_of_nat (w * 64 + j) :: u16"
  have mono: "?g i \<le> ?g j" if "i \<le> j" "j < 64" for i j
    using that assms by (simp only: word_le_nat_alt unat_slot)
  have "sorted (map ?g (filter (bit (b ! w)) [0..<64]))"
    unfolding sorted_map
    by (rule sorted_wrt_mono_rel [OF _ sorted_wrt_filter [OF sorted_upt]]) (auto intro: mono simp del: of_nat_add of_nat_mult)
  then have "while_bits w n (b ! w) = filter (\<lambda>s. s < n) (map ?g (filter (bit (b ! w)) [0..<64]))"
    by (simp only: while_bits_takeWhile scan_bits_eq takeWhile_less_sorted)
  also have "\<dots> = map ?g (filter (\<lambda>j. bit (b ! w) j \<and> ?g j < n) [0..<64])"
    by (simp only: filter_map comp_def filter_filter)
  also have "filter (\<lambda>j. bit (b ! w) j \<and> ?g j < n) [0..<64] = filter (\<lambda>j. bitmap_test b (?g j) \<and> ?g j < n) [0..<64]"
    by (rule filter_cong [OF refl]) (simp only: slot_of_index(3) [OF assms] set_upt atLeastLessThan_iff)
  finally show ?thesis by (simp only: filter_map comp_def)
qed

lemma upt_words: "concat (map (\<lambda>w. map (\<lambda>j. w * 64 + j) [0..<64]) [0..<k]) = [0..<k * 64]"
proof (induction k)
  case (Suc k)
  have "map (\<lambda>j. k * 64 + j) [0..<64] = [k * 64..<k * 64 + 64]"
    by (rule nth_equalityI) (simp_all del: upt_rec_numeral)
  moreover have "[0..<Suc k * 64] = [0..<k * 64] @ [k * 64..<k * 64 + 64]"
    by (metis add.commute mult_Suc upt_add_eq_append zero_le)
  ultimately show ?case using Suc
    by (simp only: upt_Suc_append zero_le map_append concat_append list.map concat.simps append_Nil2)
qed simp

lemma all_slots_words:
  "map word_of_nat [0..<512] =
     concat (map (\<lambda>w. map (\<lambda>j. word_of_nat (w * 64 + j) :: u16) [0..<64]) [0..<8])"
proof -
  have "[0..<512] = concat (map (\<lambda>w. map (\<lambda>j. w * 64 + j) [0..<64]) [0..<8])"
    using upt_words [of 8] by simp
  then show ?thesis by (simp only: map_concat map_map comp_def)
qed

text \<open>The bit iteration visits what a plain loop over all slot numbers would.\<close>

lemma visited_slots_filter:
  "visited_slots b n = filter (\<lambda>s. bitmap_test b s \<and> s < n) (map word_of_nat [0..<512])"
proof -
  have "map (\<lambda>w. while_bits w n (b ! w)) [0..<8] =
    map (\<lambda>w. filter (\<lambda>s. bitmap_test b s \<and> s < n) (map (\<lambda>j. word_of_nat (w * 64 + j)) [0..<64])) [0..<8]"
    by (rule map_cong [OF refl]) (simp only: while_bits_filter set_upt atLeastLessThan_iff)
  then show ?thesis unfolding all_slots_words
    by (simp only: visited_slots_def num_words filter_concat map_map comp_def)
qed

lemma inj_on_slots: "inj_on (word_of_nat :: nat \<Rightarrow> u16) {0..<512}"
proof (rule inj_onI)
  fix x y assume xy: "x \<in> {0..<512}" "y \<in> {0..<512}" "(word_of_nat x :: u16) = word_of_nat y"
  then have "unat (word_of_nat x :: u16) = unat (word_of_nat y :: u16)" by simp
  then show "x = y" using xy(1,2) unfolding unat_of_nat by simp
qed

lemma all_slots_set: "set (map word_of_nat [0..<512]) = {s :: u16. unat s < 512}"
proof -
  have "s \<in> word_of_nat ` {0..<512}" if "unat s < 512" for s :: u16
    using that by (intro image_eqI [of _ _ "unat s"]) simp_all
  moreover have "unat (word_of_nat j :: u16) < 512" if "j < 512" for j
    using that unfolding unat_of_nat by simp
  ultimately show ?thesis by (auto simp del: upt_rec_numeral)
qed

lemma distinct_all_slots: "distinct (map (word_of_nat :: nat \<Rightarrow> u16) [0..<512])"
  using inj_on_slots by (simp only: distinct_map distinct_upt set_upt simp_thms)

lemma visited_slots_set: "set (visited_slots b n) = {s. bitmap_test b s \<and> s < n}"
proof -
  have "set (visited_slots b n) = {s \<in> set (map word_of_nat [0..<512]). bitmap_test b s \<and> s < n}"
    unfolding visited_slots_filter by (simp only: set_filter)
  also have "\<dots> = {s. bitmap_test b s \<and> s < n}"
    unfolding all_slots_set by (auto simp: test_bit)
  finally show ?thesis .
qed

lemma visited_slots_distinct: "distinct (visited_slots b n)"
  unfolding visited_slots_filter by (rule distinct_filter [OF distinct_all_slots])

lemma popcount_block:
  "w < 8 \<Longrightarrow> popcountll (b ! w) = length (filter (bitmap_test b) (map (\<lambda>j. word_of_nat (w * 64 + j)) [0..<64]))"
proof -
  assume w: "w < 8"
  have "filter (bit (b ! w)) [0..<64] = filter (\<lambda>j. bitmap_test b (word_of_nat (w * 64 + j))) [0..<64]"
    by (rule filter_cong [OF refl]) (simp only: slot_of_index(3) [OF w] set_upt atLeastLessThan_iff)
  then show ?thesis by (simp only: popcountll_def filter_map comp_def length_map)
qed

lemma popcount_prefix:
  "k \<le> 8 \<Longrightarrow> sum_list (map (\<lambda>w. popcountll (b ! w)) [0..<k]) = length (filter (bitmap_test b) (map word_of_nat [0..<k * 64]))"
proof -
  assume k: "k \<le> 8"
  have "map (\<lambda>w. popcountll (b ! w)) [0..<k] = map (\<lambda>w. length (filter (bitmap_test b) (map (\<lambda>j. word_of_nat (w * 64 + j)) [0..<64]))) [0..<k]"
    using k by (intro map_cong [OF refl]) (auto simp only: popcount_block set_upt atLeastLessThan_iff)
  then show ?thesis
    unfolding upt_words [symmetric] by (simp only: map_concat filter_concat length_concat map_map comp_def)
qed

lemma popcount_prefix_card:
  assumes "k \<le> 8"
  shows "sum_list (map (\<lambda>w. popcountll (b ! w)) [0..<k]) = card {s. bitmap_test b s \<and> unat s < k * 64}"
proof -
  have sub: "{0..<k * 64} \<subseteq> {0..<512}" using assms by auto
  then have d: "distinct (map (word_of_nat :: nat \<Rightarrow> u16) [0..<k * 64])"
    using inj_on_subset [OF inj_on_slots] by (simp only: distinct_map distinct_upt set_upt simp_thms)
  have "set (filter (bitmap_test b) (map word_of_nat [0..<k * 64])) = {s. bitmap_test b s \<and> unat s < k * 64}"
  proof -
    have "s \<in> word_of_nat ` {0..<k * 64} \<longleftrightarrow> unat s < k * 64" if "unat s < 512" for s :: u16
    proof
      assume "s \<in> word_of_nat ` {0..<k * 64}"
      then show "unat s < k * 64" using sub by (auto simp: unat_of_nat)
    qed (auto intro!: image_eqI [of _ _ "unat s"])
    then show ?thesis by (auto simp: test_bit)
  qed
  then show ?thesis
    using popcount_prefix [OF assms, of b] distinct_card [OF distinct_filter [OF d], of "bitmap_test b"] by simp
qed

lemma fold_add_sum_list: "fold (\<lambda>i n. n + f i) xs (a :: nat) = a + sum_list (map f xs)"
  by (induction xs arbitrary: a) simp_all

lemma bitmap_count_card: "bitmap_count b = card {s. bitmap_test b s}"
proof -
  have "bitmap_count b = sum_list (map (\<lambda>w. popcountll (b ! w)) [0..<8])"
    by (simp only: bitmap_count_def num_words fold_add_sum_list add_0)
  also have "\<dots> = card {s. bitmap_test b s \<and> unat s < 8 * 64}" by (rule popcount_prefix_card) simp
  finally show ?thesis by (simp add: test_bit conj_commute) (meson)
qed

lemma snapshot_counts_card:
  "snap_GetDistinctAccessedSlotCount sn = card {s. bitmap_test (accessed_bits sn) s \<and> unat s < 192}"
  "snap_GetAlreadyPromotedSlotCount sn = card {s. bitmap_test (promoted_bits sn) s \<and> unat s < 192}"
  using popcount_prefix_card [of 3] 
  by (simp_all add: snap_GetDistinctAccessedSlotCount_def snap_GetAlreadyPromotedSlotCount_def numeral_3_eq_3
      numeral_2_eq_2 add.assoc)

section \<open>Properties\<close>

text \<open>
  The bit-scanning loops (lowest set bit, clear it, stop at the first slot beyond the page,
  next word) visit exactly what a loop over all slot numbers testing each bit would visit, in
  ascending order and each slot once.
\<close>

theorem bit_iteration_is_slot_loop:
  "visited_slots b n = filter (\<lambda>s. bitmap_test b s \<and> s < n) (map word_of_nat [0..<MAX_SLOTS_PER_PAGE])
   \<and> distinct (visited_slots b n) \<and> set (visited_slots b n) = {s. bitmap_test b s \<and> s < n}"
  by (simp only: num_words visited_slots_filter [symmetric] visited_slots_distinct visited_slots_set simp_thms)

text \<open>
  C33. The counters of a live candidate are the cardinalities of its slot sets, but those of its
  snapshot only count the slots below 192: they still sum three of the eight bitmap words.
\<close>

theorem slot_counters:
  "GetDistinctAccessedSlotCount c = card {s. IsSlotAccessed c s}
   \<and> GetAlreadyPromotedSlotCount c = card {s. IsSlotPromoted c s}
   \<and> snap_GetDistinctAccessedSlotCount (take_snapshot (p, c)) = card {s. IsSlotAccessed c s \<and> unat s < 192}
   \<and> snap_GetAlreadyPromotedSlotCount (take_snapshot (p, c)) = card {s. IsSlotPromoted c s \<and> unat s < 192}"
  by (simp add: GetDistinctAccessedSlotCount_def GetAlreadyPromotedSlotCount_def IsSlotAccessed_def
      IsSlotPromoted_def bitmap_count_card snapshot_counts_card take_snapshot_def)

end
