(* ===== verification/SkewRecordAdmission.thy ===== *)
theory SkewRecordAdmission
  imports HotPageCandidate
begin

text \<open>
  \<open>DramHotPageCandidates\<close> of \<open>SkewRecordAdmission.hpp\<close> and \<open>.cpp\<close>: the second admission level.
  Candidates live in 16 shards; a background thread takes snapshots of all of them, decides without
  locks which pages or records to promote, and writes the outcome back. The three phases of
  \<open>CheckAndPromote\<close> are separate definitions, so that worker steps may come in between. Each
  \<open>unordered_map\<close> is an association list with distinct keys.
\<close>

section \<open>State\<close>

type_synonym shard = "(u64 \<times> hot_page) list"

definition NUM_CANDIDATE_SHARDS :: nat where "NUM_CANDIDATE_SHARDS = 16"

definition getShardIndex :: "u64 \<Rightarrow> nat" where
  "getShardIndex page_id = unat (page_id mod word_of_nat NUM_CANDIDATE_SHARDS)"

record candidates =
  shards :: "shard list"
  record_cms :: cms
  global_requests :: u64
  skew_threshold_ratio :: double
  uniform_threshold_ratio :: double
  max_per_page_visits :: u64
  configured_max_per_page_visits :: u64
  max_global_requests_window :: u64
  dynamic_max_per_page_visits :: u64
  skew_promote_count :: u64
  uniform_promote_count :: u64
  timeout_removed_count :: u64
  urgent_seen_in_check :: u64
  urgent_decision_generated :: u64
  urgent_seen_but_already_promoted :: u64
  check_and_promote_round_no :: u64

record promotion_decision =
  dec_page_id :: u64
  dec_cxl_bf :: bf_ptr
  promote_entire_page :: bool
  hot_slot_ids :: "u16 list"
  is_urgent :: bool

definition newDramHotPageCandidates :: "cms \<Rightarrow> double \<Rightarrow> double \<Rightarrow> u64 \<Rightarrow> u64 \<Rightarrow> candidates" where
  "newDramHotPageCandidates rc skew uniform max_visits window =
     \<lparr>shards = replicate NUM_CANDIDATE_SHARDS [], record_cms = rc, global_requests = 0,
      skew_threshold_ratio = skew, uniform_threshold_ratio = uniform,
      max_per_page_visits = max_visits, configured_max_per_page_visits = max_visits,
      max_global_requests_window = window, dynamic_max_per_page_visits = 0,
      skew_promote_count = 0, uniform_promote_count = 0, timeout_removed_count = 0,
      urgent_seen_in_check = 0, urgent_decision_generated = 0, urgent_seen_but_already_promoted = 0,
      check_and_promote_round_no = 0\<rparr>"

section \<open>Operations of the worker threads\<close>

text \<open>Lookup, in-place mutation and erasure in an \<open>unordered_map\<close>.\<close>

definition map_adjust :: "'k \<Rightarrow> ('v \<Rightarrow> 'v) \<Rightarrow> ('k \<times> 'v) list \<Rightarrow> ('k \<times> 'v) list" where
  "map_adjust k f m = map (\<lambda>(k', v). if k' = k then (k', f v) else (k', v)) m"

definition map_erase :: "'k \<Rightarrow> ('k \<times> 'v) list \<Rightarrow> ('k \<times> 'v) list" where
  "map_erase k m = filter (\<lambda>e. fst e \<noteq> k) m"

definition on_shard :: "nat \<Rightarrow> (shard \<Rightarrow> shard) \<Rightarrow> candidates \<Rightarrow> candidates" where
  "on_shard i f st = st\<lparr>shards := (shards st)[i := f (shards st ! i)]\<rparr>"

definition cand_OnPageAccess :: "candidates \<Rightarrow> candidates" where
  "cand_OnPageAccess st = st\<lparr>global_requests := global_requests st + 1\<rparr>"

definition GetCandidatesSize :: "candidates \<Rightarrow> nat" where
  "GetCandidatesSize st = fold (\<lambda>i n. n + length (shards st ! i)) [0..<NUM_CANDIDATE_SHARDS] 0"

definition Contains :: "candidates \<Rightarrow> u64 \<Rightarrow> bool" where
  "Contains st page_id \<longleftrightarrow> map_of (shards st ! getShardIndex page_id) page_id \<noteq> None"

definition AddCandidate :: "u64 \<Rightarrow> u64 \<Rightarrow> u16 \<Rightarrow> bf_ptr \<Rightarrow> candidates \<Rightarrow> (bool \<times> candidates) result" where
  "AddCandidate page_id visits slots bf st =
     (if map_of (shards st ! getShardIndex page_id) page_id \<noteq> None then Inr (False, st)
      else bindR (newHotPageCandidate visits slots bf) (\<lambda>c.
             Inr (True, on_shard (getShardIndex page_id) (\<lambda>m. m @ [(page_id, c)]) st)))"

definition cand_OnRecordAccess ::
    "(u64 \<Rightarrow> u64) \<Rightarrow> (u16 \<Rightarrow> u64) \<Rightarrow> u64 \<Rightarrow> u16 \<Rightarrow> bf_ptr \<Rightarrow> candidates \<Rightarrow> candidates" where
  "cand_OnRecordAccess hash64 hash16 page_id slot_id bf st =
     on_shard (getShardIndex page_id)
       (map_adjust page_id (\<lambda>c.
          IncrementVisitCount (MarkSlotAsAccessed (if bf \<noteq> 0 then c\<lparr>cxl_bf := bf\<rparr> else c) slot_id)))
       (st\<lparr>record_cms := CMSRecordAccessUpdate hash64 hash16 (record_cms st) page_id slot_id\<rparr>)"

definition ClearPromotedSlot :: "u64 \<Rightarrow> u16 \<Rightarrow> candidates \<Rightarrow> candidates" where
  "ClearPromotedSlot page_id slot_id st =
     on_shard (getShardIndex page_id)
       (map_adjust page_id (\<lambda>c. MarkSlotAsUrgent (ClearPromotedSlotBit c slot_id) slot_id)) st"

section \<open>Thresholds\<close>

definition getDynamicThreshold :: "u64 \<Rightarrow> double \<Rightarrow> double \<Rightarrow> double" where
  "getDynamicThreshold l1_page_threshold fill_ratio alpha =
     (if l1_page_threshold = 0 then 0
      else let clamped_ratio = dclamp fill_ratio 0 1;
               scale = dadd alpha (dmul (dsub 1 alpha) clamped_ratio)
           in dmul (double_of_u64 l1_page_threshold) scale)"

text \<open>The scaled threshold as the callers round it: at least 2, or 0 when there is no threshold.\<close>

definition effective_threshold :: "u64 \<Rightarrow> double \<Rightarrow> u64 result" where
  "effective_threshold l1 fill_ratio =
     (if l1 = 0 then Inr 0
      else bindR (cast_u64 (getDynamicThreshold l1 fill_ratio (1 / 4))) (\<lambda>t. Inr (max 2 t)))"

definition GetEffectiveMaxPerPageVisits :: "candidates \<Rightarrow> u64" where
  "GetEffectiveMaxPerPageVisits st =
     (let dyn = dynamic_max_per_page_visits st
      in if 0 < dyn \<and> dyn < max_per_page_visits st then dyn else max_per_page_visits st)"

section \<open>CheckAndPromote\<close>

subsection \<open>Phase 1: snapshots\<close>

definition take_snapshots :: "candidates \<Rightarrow> candidate_snapshot list" where
  "take_snapshots st = concat (map (\<lambda>i. map take_snapshot (shards st ! i)) [0..<NUM_CANDIDATE_SHARDS])"

subsection \<open>Phase 2: analysis of one snapshot\<close>

text \<open>What one round of the analysis loop adds to its accumulators.\<close>

record analysis =
  an_decisions :: "promotion_decision list"
  an_remove :: "u64 list"
  an_skew :: u64
  an_uniform :: u64
  an_urgent_seen :: u64
  an_urgent_generated :: u64
  an_urgent_already :: u64

definition no_analysis :: analysis where
  "no_analysis = \<lparr>an_decisions = [], an_remove = [], an_skew = 0, an_uniform = 0,
     an_urgent_seen = 0, an_urgent_generated = 0, an_urgent_already = 0\<rparr>"

definition decision :: "candidate_snapshot \<Rightarrow> bool \<Rightarrow> u16 list \<Rightarrow> bool \<Rightarrow> promotion_decision" where
  "decision sn entire slots urgent =
     \<lparr>dec_page_id = snap_page_id sn, dec_cxl_bf = snap_cxl_bf sn, promote_entire_page = entire,
      hot_slot_ids = slots, is_urgent = urgent\<rparr>"

definition urgent_analysis :: "candidate_snapshot \<Rightarrow> u16 list \<Rightarrow> analysis" where
  "urgent_analysis sn slots =
     (let fresh = filter (\<lambda>s. \<not> snap_IsSlotPromoted sn s) slots
      in no_analysis\<lparr>an_decisions := map (\<lambda>s. decision sn False [s] True) fresh,
           an_skew := word_of_nat (length fresh), an_urgent_seen := word_of_nat (length slots),
           an_urgent_generated := word_of_nat (length fresh),
           an_urgent_already := word_of_nat (length slots - length fresh)\<rparr>)"

definition promote_page :: "candidate_snapshot \<Rightarrow> analysis" where
  "promote_page sn =
     no_analysis\<lparr>an_decisions := [decision sn True [] False], an_remove := [snap_page_id sn], an_uniform := 1\<rparr>"

text \<open>The counts read from the record sketch for the accessed slots, in the order of the scan.\<close>

definition slot_counts ::
    "(u64 \<Rightarrow> u64) \<Rightarrow> (u16 \<Rightarrow> u64) \<Rightarrow> cms \<Rightarrow> candidate_snapshot \<Rightarrow> (u16 \<times> u64) list" where
  "slot_counts hash64 hash16 rc sn =
     map (\<lambda>s. (s, CMSGetRecordAccessCount hash64 hash16 rc (snap_page_id sn) s))
       (visited_slots (accessed_bits sn) (snap_slot_num sn))"

definition skew_threshold :: "double \<Rightarrow> u64 \<Rightarrow> u64 \<Rightarrow> u64 result" where
  "skew_threshold ratio cms_total visits =
     (let reference_count = (if 0 < cms_total then cms_total else visits)
      in bindR (cast_u64 (dceil (dmul (double_of_u64 reference_count) ratio))) (\<lambda>t. Inr (max 1 t)))"

definition ratio_analysis ::
    "bool \<Rightarrow> u64 \<Rightarrow> u64 \<Rightarrow> u64 \<Rightarrow> (u16 \<times> u64) list \<Rightarrow> candidate_snapshot \<Rightarrow> analysis" where
  "ratio_analysis scan max_visits uniform_slots skew cnts sn =
     (let hot = map fst (filter (\<lambda>(_, n). skew < n) cnts);
          has_skew = (hot \<noteq> []);
          fresh = filter (\<lambda>s. \<not> snap_IsSlotPromoted sn s) hot
      in if max_visits \<le> per_page_visits sn \<and> (\<not> has_skew \<or> scan) then promote_page sn
         else if uniform_slots \<le> word_of_nat (snap_GetDistinctAccessedSlotCount sn) \<and> (\<not> has_skew \<or> scan)
              then promote_page sn
         else if has_skew
              then no_analysis\<lparr>an_decisions := (if fresh \<noteq> [] then [decision sn False fresh False] else []),
                     an_skew := word_of_nat (length fresh),
                     an_remove := (if snap_GetDistinctAccessedSlotCount sn
                                      = snap_GetAlreadyPromotedSlotCount sn + length fresh
                                   then [snap_page_id sn] else [])\<rparr>
         else if scan then promote_page sn
         else no_analysis)"

definition strong_slots :: "u64 \<Rightarrow> (u16 \<times> u64) list \<Rightarrow> candidate_snapshot \<Rightarrow> u16 list" where
  "strong_slots eff_l1 cnts sn = map fst (filter (\<lambda>(s, n). eff_l1 \<le> n \<and> \<not> snap_IsSlotPromoted sn s) cnts)"

definition analyse ::
    "(u64 \<Rightarrow> u64) \<Rightarrow> (u16 \<Rightarrow> u64) \<Rightarrow> candidates \<Rightarrow> u64 \<Rightarrow> bool \<Rightarrow> candidate_snapshot \<Rightarrow> analysis result" where
  "analyse hash64 hash16 st eff_l1 scan sn =
     (let urgent = visited_slots (urgent_bits sn) (snap_slot_num sn)
      in if urgent \<noteq> [] then Inr (urgent_analysis sn urgent)
         else
           bindR (cast_u64 (dmul (double_of_nat (unat (snap_slot_num sn))) (uniform_threshold_ratio st)))
             (\<lambda>uniform_slots.
           let cnts = slot_counts hash64 hash16 (record_cms st) sn;
               cms_total = sum_list (map snd cnts)
           in bindR (skew_threshold (skew_threshold_ratio st) cms_total (per_page_visits sn)) (\<lambda>skew.
              let strong = strong_slots eff_l1 cnts sn
              in if 0 < eff_l1 \<and> \<not> scan \<and> strong \<noteq> []
                 then Inr (no_analysis\<lparr>an_decisions := [decision sn False strong False],
                             an_skew := word_of_nat (length strong)\<rparr>)
                 else Inr (ratio_analysis scan (GetEffectiveMaxPerPageVisits st) uniform_slots skew cnts sn))))"

definition add_analysis :: "analysis \<Rightarrow> analysis \<Rightarrow> analysis" where
  "add_analysis a b =
     \<lparr>an_decisions = an_decisions a @ an_decisions b, an_remove = an_remove a @ an_remove b,
      an_skew = an_skew a + an_skew b, an_uniform = an_uniform a + an_uniform b,
      an_urgent_seen = an_urgent_seen a + an_urgent_seen b,
      an_urgent_generated = an_urgent_generated a + an_urgent_generated b,
      an_urgent_already = an_urgent_already a + an_urgent_already b\<rparr>"

fun analyse_all ::
    "(u64 \<Rightarrow> u64) \<Rightarrow> (u16 \<Rightarrow> u64) \<Rightarrow> candidates \<Rightarrow> u64 \<Rightarrow> bool \<Rightarrow> candidate_snapshot list \<Rightarrow> analysis result" where
  "analyse_all hash64 hash16 st eff_l1 scan [] = Inr no_analysis"
| "analyse_all hash64 hash16 st eff_l1 scan (sn # sns) =
     bindR (analyse hash64 hash16 st eff_l1 scan sn) (\<lambda>a.
     bindR (analyse_all hash64 hash16 st eff_l1 scan sns) (\<lambda>b. Inr (add_analysis a b)))"

subsection \<open>Phase 3: write-back\<close>

definition apply_decision :: "promotion_decision \<Rightarrow> shard \<Rightarrow> shard" where
  "apply_decision d =
     map_adjust (dec_page_id d) (\<lambda>c.
       fold (\<lambda>s c. MarkSlotAsPromoted (ClearUrgentSlotBit c s) s) (hot_slot_ids d) c)"

definition write_back_shard :: "promotion_decision list \<Rightarrow> u64 list \<Rightarrow> nat \<Rightarrow> shard \<Rightarrow> shard" where
  "write_back_shard ds removed i m =
     fold map_erase (filter (\<lambda>p. getShardIndex p = i) removed)
       (fold apply_decision
          (filter (\<lambda>d. \<not> promote_entire_page d \<and> getShardIndex (dec_page_id d) = i) ds) m)"

definition write_back :: "analysis \<Rightarrow> candidates \<Rightarrow> candidates" where
  "write_back a st =
     st\<lparr>shards := map (\<lambda>i. write_back_shard (an_decisions a) (an_remove a) i (shards st ! i))
                     [0..<NUM_CANDIDATE_SHARDS],
        skew_promote_count := skew_promote_count st + an_skew a,
        uniform_promote_count := uniform_promote_count st + an_uniform a,
        urgent_seen_in_check := urgent_seen_in_check st + an_urgent_seen a,
        urgent_decision_generated := urgent_decision_generated st + an_urgent_generated a,
        urgent_seen_but_already_promoted := urgent_seen_but_already_promoted st + an_urgent_already a,
        check_and_promote_round_no := check_and_promote_round_no st + 1\<rparr>"

definition CheckAndPromote ::
    "(u64 \<Rightarrow> u64) \<Rightarrow> (u16 \<Rightarrow> u64) \<Rightarrow> u64 \<Rightarrow> double \<Rightarrow> bool \<Rightarrow> candidates
      \<Rightarrow> (promotion_decision list \<times> candidates) result" where
  "CheckAndPromote hash64 hash16 l1 fill_ratio scan st =
     (let sns = take_snapshots st
      in bindR (effective_threshold l1 fill_ratio) (\<lambda>eff_l1.
         bindR (analyse_all hash64 hash16 st eff_l1 scan sns) (\<lambda>a.
           Inr (an_decisions a, write_back a st))))"

section \<open>Epoch helpers and configuration\<close>

definition CollectAllAsFullPagePromotions :: "candidates \<Rightarrow> promotion_decision list" where
  "CollectAllAsFullPagePromotions st =
     concat (map (\<lambda>i. map (\<lambda>(pid, c). \<lparr>dec_page_id = pid, dec_cxl_bf = cxl_bf c,
       promote_entire_page = True, hot_slot_ids = [], is_urgent = False\<rparr>) (shards st ! i))
       [0..<NUM_CANDIDATE_SHARDS])"

definition ClearAllCandidatesByEpoch :: "candidates \<Rightarrow> u64 \<times> candidates" where
  "ClearAllCandidatesByEpoch st =
     (let removed = word_of_nat (GetCandidatesSize st)
      in (removed, st\<lparr>shards := replicate NUM_CANDIDATE_SHARDS [],
                      timeout_removed_count := timeout_removed_count st + removed\<rparr>))"

definition SetSkewThresholdRatio :: "double \<Rightarrow> candidates \<Rightarrow> candidates" where
  "SetSkewThresholdRatio r st = st\<lparr>skew_threshold_ratio := r\<rparr>"

definition SetUniformThresholdRatio :: "double \<Rightarrow> candidates \<Rightarrow> candidates" where
  "SetUniformThresholdRatio r st = st\<lparr>uniform_threshold_ratio := r\<rparr>"

definition SetMaxPerPageVisit :: "u64 \<Rightarrow> candidates \<Rightarrow> candidates" where
  "SetMaxPerPageVisit v st = st\<lparr>max_per_page_visits := v\<rparr>"

definition SetMaxGlobalRequestsWindow :: "u64 \<Rightarrow> candidates \<Rightarrow> candidates" where
  "SetMaxGlobalRequestsWindow w st = st\<lparr>max_global_requests_window := w\<rparr>"

definition SetDynamicMaxPerPageVisits :: "u64 \<Rightarrow> candidates \<Rightarrow> candidates" where
  "SetDynamicMaxPerPageVisits v st = st\<lparr>dynamic_max_per_page_visits := v\<rparr>"

definition ResetUrgentDiagCounters :: "candidates \<Rightarrow> candidates" where
  "ResetUrgentDiagCounters st =
     st\<lparr>urgent_seen_in_check := 0, urgent_decision_generated := 0, urgent_seen_but_already_promoted := 0\<rparr>"

text \<open>
  The ceiling derived from the workload. \<open>std::pow\<close> and \<open>std::log\<close> are arguments: the mathematical
  library is not part of the program.
\<close>

definition ApproxHarmonic ::
    "(double \<Rightarrow> double \<Rightarrow> double) \<Rightarrow> (double \<Rightarrow> double) \<Rightarrow> u64 \<Rightarrow> double \<Rightarrow> double result" where
  "ApproxHarmonic fpow flog n theta =
     (if n = 0 then Inr 0
      else if \<bar>dsub theta 1\<bar> < rnd (1 / 10 ^ 9) then Inr (dadd (flog (double_of_u64 n)) (rnd (5772156649 / 10 ^ 10)))
      else let nd = double_of_u64 n
           in bindR (ddiv (fpow nd (dsub 1 theta)) (dsub 1 theta)) (\<lambda>q.
                Inr (dadd (dadd q (dmul (1 / 2) (fpow nd (- theta)))) 1)))"

definition ComputeDynamicMaxPerPageVisits ::
    "(double \<Rightarrow> double \<Rightarrow> double) \<Rightarrow> (double \<Rightarrow> double) \<Rightarrow> double \<Rightarrow> double \<Rightarrow> u64 \<Rightarrow> double \<Rightarrow> u64 \<Rightarrow> u64 result" where
  "ComputeDynamicMaxPerPageVisits fpow flog working_set_gib zipf_theta trigger_window dram_ratio page_size_bytes =
     (if working_set_gib \<le> 0 \<or> trigger_window = 0 \<or> dram_ratio \<le> 0 \<or> page_size_bytes = 0 then Inr 0
      else
        bindR (ddiv (dmul working_set_gib (2 ^ 30)) (double_of_u64 page_size_bytes)) (\<lambda>q.
        bindR (cast_u64 q) (\<lambda>total_pages.
          if total_pages = 0 then Inr 0
          else
            bindR (cast_u64 (dmul (double_of_u64 total_pages) dram_ratio)) (\<lambda>dram_pages0.
            let dram_pages1 = (if dram_pages0 = 0 then 1 else dram_pages0);
                dram_pages = (if total_pages < dram_pages1 then total_pages else dram_pages1)
            in bindR (ApproxHarmonic fpow flog total_pages zipf_theta) (\<lambda>h_total.
               bindR (ApproxHarmonic fpow flog dram_pages zipf_theta) (\<lambda>h_dram.
                 if h_total \<le> 0 \<or> h_dram \<le> 0 then Inr 0
                 else
                   bindR (ddiv h_dram h_total) (\<lambda>p_dram.
                   let visits_on_dram_pages = dmul (double_of_u64 trigger_window) p_dram
                   in bindR (ddiv visits_on_dram_pages (double_of_u64 dram_pages)) (\<lambda>per_page.
                      if per_page < 1 then Inr 1 else cast_u64 (dceil per_page)))))))))"

section \<open>Maps\<close>

lemma map_of_adjust [simp]:
  "map_of (map_adjust k f m) k' = (if k' = k then map_option f (map_of m k) else map_of m k')"
  by (induction m) (auto simp: map_adjust_def)

lemma keys_adjust [simp]: "map fst (map_adjust k f m) = map fst m"
  by (induction m) (auto simp: map_adjust_def)

lemma map_of_erase [simp]: "map_of (map_erase k m) k' = (if k' = k then None else map_of m k')"
  by (induction m) (auto simp: map_erase_def)

lemma map_of_erases:
  "map_of (fold map_erase ks m) k = (if k \<in> set ks then None else map_of m k)"
  by (induction ks arbitrary: m) auto

lemma set_erase: "set (map_erase k m) \<subseteq> set m"
  by (auto simp: map_erase_def)

lemma distinct_erase: "distinct (map fst m) \<Longrightarrow> distinct (map fst (map_erase k m))"
  by (induction m) (auto simp: map_erase_def)

section \<open>Invariant of the candidate pool\<close>

definition cand_ok :: "hot_page \<Rightarrow> bool" where
  "cand_ok c \<longleftrightarrow> cand_wf c \<and> (\<forall>s. \<not> (IsSlotUrgent c s \<and> IsSlotPromoted c s))"

definition shard_ok :: "nat \<Rightarrow> shard \<Rightarrow> bool" where
  "shard_ok i m \<longleftrightarrow> distinct (map fst m) \<and> (\<forall>(p, c) \<in> set m. getShardIndex p = i \<and> cand_ok c)"

definition pool_inv :: "candidates \<Rightarrow> bool" where
  "pool_inv st \<longleftrightarrow> length (shards st) = NUM_CANDIDATE_SHARDS
     \<and> (\<forall>i < NUM_CANDIDATE_SHARDS. shard_ok i (shards st ! i))"

definition cand_of :: "candidates \<Rightarrow> u64 \<Rightarrow> hot_page option" where
  "cand_of st p = map_of (shards st ! getShardIndex p) p"

lemma num_shards [simp]: "NUM_CANDIDATE_SHARDS = 16"
  by (simp add: NUM_CANDIDATE_SHARDS_def)

lemma getShardIndex_less [simp]: "getShardIndex p < 16"
proof -
  have "unat (p mod 16) < 16"
    unfolding unat_mod by simp
  then show ?thesis by (simp add: getShardIndex_def)
qed

lemma pool_inv_shard: "pool_inv st \<Longrightarrow> shard_ok (getShardIndex p) (shards st ! getShardIndex p)"
  by (simp add: pool_inv_def)

lemma cand_of_ok: "pool_inv st \<Longrightarrow> cand_of st p = Some c \<Longrightarrow> cand_ok c"
  using pool_inv_shard [of st p] by (auto simp: cand_of_def shard_ok_def dest: map_of_SomeD)

lemma shard_ok_adjust:
  assumes "shard_ok i m" "\<And>c. cand_ok c \<Longrightarrow> cand_ok (f c)"
  shows "shard_ok i (map_adjust p f m)"
proof -
  have "getShardIndex q = i \<and> cand_ok c" if "(q, c) \<in> set (map_adjust p f m)" for q c
    using that assms by (auto simp: map_adjust_def shard_ok_def split: if_splits)
  then show ?thesis using assms(1) by (auto simp: shard_ok_def)
qed

lemma shard_ok_erase: "shard_ok i m \<Longrightarrow> shard_ok i (map_erase p m)"
  using set_erase [of p m] by (auto simp: shard_ok_def distinct_erase)

lemma shard_ok_erases: "shard_ok i m \<Longrightarrow> shard_ok i (fold map_erase ps m)"
  by (induction ps arbitrary: m) (simp_all add: shard_ok_erase)

lemma pool_inv_on_shard:
  assumes "pool_inv st" "\<And>m. shard_ok i m \<Longrightarrow> shard_ok i (f m)"
  shows "pool_inv (on_shard i f st)"
proof -
  have "shard_ok j ((shards st)[i := f (shards st ! i)] ! j)" if "j < 16" for j
    using assms that by (cases "i = j") (simp_all add: pool_inv_def)
  then show ?thesis using assms(1) by (simp add: pool_inv_def on_shard_def)
qed

lemma cand_of_on_shard_adjust:
  assumes "pool_inv st"
  shows "cand_of (on_shard (getShardIndex p) (map_adjust p f) st) q =
    (if q = p then map_option f (cand_of st p) else cand_of st q)"
  using assms getShardIndex_less [of p] by (auto simp: cand_of_def on_shard_def pool_inv_def nth_list_update)

subsection \<open>Slots promoted by the write-back\<close>

abbreviation promote_slots :: "u16 list \<Rightarrow> hot_page \<Rightarrow> hot_page" where
  "promote_slots ss c \<equiv> fold (\<lambda>s c. MarkSlotAsPromoted (ClearUrgentSlotBit c s) s) ss c"

lemma promote_slots_frame [simp]:
  "page_slot_num (promote_slots ss c) = page_slot_num c"
  "cxl_bf (promote_slots ss c) = cxl_bf c"
  "IsSlotAccessed (promote_slots ss c) = IsSlotAccessed c"
  by (induction ss arbitrary: c) (simp_all add: MarkSlotAsPromoted_def ClearUrgentSlotBit_def IsSlotAccessed_def fun_eq_iff)

lemma promote_slots_effect:
  "cand_wf c \<Longrightarrow> cand_wf (promote_slots ss c)
    \<and> (IsSlotPromoted (promote_slots ss c) t \<longleftrightarrow> t \<in> set ss \<and> unat t < 512 \<or> IsSlotPromoted c t)
    \<and> (IsSlotUrgent (promote_slots ss c) t \<longleftrightarrow> t \<notin> set ss \<and> IsSlotUrgent c t)"
proof (induction ss arbitrary: c)
  case (Cons s ss)
  let ?c = "MarkSlotAsPromoted (ClearUrgentSlotBit c s) s"
  have "cand_wf ?c" using Cons.prems by (simp add: promoted.wf_mark urgent.wf_clear)
  moreover have "IsSlotPromoted ?c t \<longleftrightarrow> s = t \<and> unat s < 512 \<or> IsSlotPromoted c t"
    "IsSlotUrgent ?c t \<longleftrightarrow> s \<noteq> t \<and> IsSlotUrgent c t"
    using Cons.prems by (simp_all add: promoted.mem_mark urgent.wf_clear urgent.mem_clear)
  ultimately show ?case using Cons.IH [of ?c] by auto
qed simp

lemma urgent_in_range: "IsSlotUrgent c s \<Longrightarrow> unat s < 512" "IsSlotPromoted c s \<Longrightarrow> unat s < 512"
  "IsSlotAccessed c s \<Longrightarrow> unat s < 512"
  by (simp_all add: IsSlotUrgent_def IsSlotPromoted_def IsSlotAccessed_def test_bit)

lemma cand_ok_promote: "cand_ok c \<Longrightarrow> cand_ok (promote_slots ss c)"
  unfolding cand_ok_def using promote_slots_effect [of c ss] by blast

lemma cand_ok_access:
  "cand_ok c \<Longrightarrow> cand_ok (IncrementVisitCount (MarkSlotAsAccessed (if b then c\<lparr>cxl_bf := f\<rparr> else c) s))"
proof -
  assume c: "cand_ok c"
  then have "cand_ok (if b then c\<lparr>cxl_bf := f\<rparr> else c)" by (simp add: cand_ok_def cand_wf_def slot_defs)
  then show ?thesis by (simp add: cand_ok_def accessed.wf_mark)
qed

lemma cand_ok_invalidate: "cand_ok c \<Longrightarrow> cand_ok (MarkSlotAsUrgent (ClearPromotedSlotBit c s) s)"
  by (auto simp: cand_ok_def urgent.wf_mark urgent.mem_mark promoted.wf_clear promoted.mem_clear)

lemma shard_ok_decisions: "shard_ok i m \<Longrightarrow> shard_ok i (fold apply_decision ds m)"
proof (induction ds arbitrary: m)
  case (Cons d ds)
  have "shard_ok i (apply_decision d m)"
    unfolding apply_decision_def using Cons.prems cand_ok_promote by (rule shard_ok_adjust)
  then show ?case using Cons.IH by simp
qed simp

lemma map_of_decisions:
  "map_of (fold apply_decision ds m) p =
    map_option (promote_slots (concat (map hot_slot_ids (filter (\<lambda>d. dec_page_id d = p) ds)))) (map_of m p)"
  by (induction ds arbitrary: m) (auto simp: apply_decision_def option.map_comp comp_def option.map_id)

lemma write_back_shard_ok: "shard_ok i m \<Longrightarrow> shard_ok i (write_back_shard ds ps i m)"
  by (simp add: write_back_shard_def shard_ok_erases shard_ok_decisions)

text \<open>The slots that the record-level decisions name for a page.\<close>

definition decided_slots :: "promotion_decision list \<Rightarrow> u64 \<Rightarrow> u16 list" where
  "decided_slots ds p = concat (map hot_slot_ids (filter (\<lambda>d. \<not> promote_entire_page d \<and> dec_page_id d = p) ds))"

lemma set_decided_slots:
  "set (decided_slots ds p) = {s. \<exists>d \<in> set ds. \<not> promote_entire_page d \<and> dec_page_id d = p \<and> s \<in> set (hot_slot_ids d)}"
  by (auto simp: decided_slots_def)

lemma write_back_shard_lookup:
  "map_of (write_back_shard ds ps (getShardIndex p) m) p =
    (if p \<in> set ps then None else map_option (promote_slots (decided_slots ds p)) (map_of m p))"
proof -
  have "filter (\<lambda>d. dec_page_id d = p) (filter (\<lambda>d. \<not> promote_entire_page d \<and> getShardIndex (dec_page_id d) = getShardIndex p) ds)
      = filter (\<lambda>d. \<not> promote_entire_page d \<and> dec_page_id d = p) ds"
    by (auto intro: filter_cong)
  then show ?thesis
    by (simp add: write_back_shard_def map_of_erases map_of_decisions decided_slots_def)
qed

lemma cand_of_write_back:
  "cand_of (write_back a st) p =
    (if p \<in> set (an_remove a) then None
     else map_option (promote_slots (decided_slots (an_decisions a) p)) (cand_of st p))"
  by (simp add: cand_of_def write_back_def write_back_shard_lookup del: upt_rec_numeral)

lemma pool_inv_write_back: "pool_inv st \<Longrightarrow> pool_inv (write_back a st)"
  by (simp add: pool_inv_def write_back_def write_back_shard_ok del: upt_rec_numeral)

section \<open>What the analysis decides\<close>

lemma snapshot_lookup:
  assumes "pool_inv st"
  shows "sn \<in> set (take_snapshots st) \<longleftrightarrow> (\<exists>p c. cand_of st p = Some c \<and> sn = take_snapshot (p, c))"
proof
  assume "sn \<in> set (take_snapshots st)"
  then obtain i e where i: "i < 16" "e \<in> set (shards st ! i)" "sn = take_snapshot e"
    by (auto simp: take_snapshots_def simp del: upt_rec_numeral)
  obtain p c where e: "e = (p, c)" by fastforce
  have "shard_ok i (shards st ! i)" using assms i(1) by (simp add: pool_inv_def)
  then have "getShardIndex p = i" "map_of (shards st ! i) p = Some c"
    using i(2) e by (auto simp: shard_ok_def)
  then show "\<exists>p c. cand_of st p = Some c \<and> sn = take_snapshot (p, c)"
    using i(3) e by (auto simp: cand_of_def)
next
  assume "\<exists>p c. cand_of st p = Some c \<and> sn = take_snapshot (p, c)"
  then obtain p c where "map_of (shards st ! getShardIndex p) p = Some c" "sn = take_snapshot (p, c)"
    by (auto simp: cand_of_def)
  then show "sn \<in> set (take_snapshots st)"
    using getShardIndex_less [of p]
    by (fastforce simp: take_snapshots_def dest: map_of_SomeD simp del: upt_rec_numeral getShardIndex_less)
qed

lemma take_snapshot_sel [simp]:
  "snap_page_id (take_snapshot (p, c)) = p" "snap_cxl_bf (take_snapshot (p, c)) = cxl_bf c"
  "snap_slot_num (take_snapshot (p, c)) = page_slot_num c"
  "per_page_visits (take_snapshot (p, c)) = per_hot_page_visit_count c"
  "accessed_bits (take_snapshot (p, c)) = distinct_accessed_slot_set c"
  "promoted_bits (take_snapshot (p, c)) = already_promoted_slot_set c"
  "urgent_bits (take_snapshot (p, c)) = urgent_pending_slot_set c"
  by (simp_all add: take_snapshot_def)

text \<open>
  A decision is justified by a snapshot: it names the snapshot's page and frame; a whole-page
  decision names no slots and drops the candidate; a record decision names slots of the page, none of
  them promoted, all of them urgent or all of them accessed.
\<close>

definition justified :: "candidate_snapshot \<Rightarrow> u64 list \<Rightarrow> promotion_decision \<Rightarrow> bool" where
  "justified sn removed d \<longleftrightarrow> dec_page_id d = snap_page_id sn \<and> dec_cxl_bf d = snap_cxl_bf sn
     \<and> (if promote_entire_page d
        then hot_slot_ids d = [] \<and> \<not> is_urgent d \<and> snap_page_id sn \<in> set removed
        else hot_slot_ids d \<noteq> [] \<and> distinct (hot_slot_ids d)
          \<and> (\<forall>s \<in> set (hot_slot_ids d). s < snap_slot_num sn \<and> \<not> snap_IsSlotPromoted sn s
               \<and> bitmap_test (if is_urgent d then urgent_bits sn else accessed_bits sn) s))"

lemma decision_sel [simp]:
  "dec_page_id (decision sn e ss u) = snap_page_id sn" "dec_cxl_bf (decision sn e ss u) = snap_cxl_bf sn"
  "promote_entire_page (decision sn e ss u) = e" "hot_slot_ids (decision sn e ss u) = ss"
  "is_urgent (decision sn e ss u) = u"
  by (simp_all add: decision_def)

lemma no_analysis_sel [simp]:
  "an_decisions no_analysis = []" "an_remove no_analysis = []"
  by (simp_all add: no_analysis_def)

lemma counts_slots:
  "map fst (slot_counts hash64 hash16 rc sn) = visited_slots (accessed_bits sn) (snap_slot_num sn)"
  by (simp add: slot_counts_def comp_def)

lemma hot_slots_props:
  assumes "cnts = slot_counts hash64 hash16 rc sn"
  shows "distinct (map fst (filter P cnts))"
    "\<And>s. s \<in> set (map fst (filter P cnts)) \<Longrightarrow> s < snap_slot_num sn \<and> bitmap_test (accessed_bits sn) s"
proof -
  have "distinct (map fst cnts)" unfolding assms counts_slots by (rule visited_slots_distinct)
  then show "distinct (map fst (filter P cnts))" by (rule distinct_map_filter)
  fix s assume "s \<in> set (map fst (filter P cnts))"
  then have "s \<in> set (map fst cnts)" by auto
  then show "s < snap_slot_num sn \<and> bitmap_test (accessed_bits sn) s"
    unfolding assms counts_slots visited_slots_set by simp
qed

lemma urgent_justified:
  assumes "d \<in> set (an_decisions (urgent_analysis sn (visited_slots (urgent_bits sn) (snap_slot_num sn))))"
  shows "justified sn [] d \<and> \<not> promote_entire_page d"
proof -
  have *: "s \<in> set (visited_slots (urgent_bits sn) (snap_slot_num sn)) \<Longrightarrow>
      s < snap_slot_num sn \<and> bitmap_test (urgent_bits sn) s" for s
    unfolding visited_slots_set by simp
  from assms * show ?thesis
    unfolding urgent_analysis_def Let_def by (auto simp: justified_def)
qed

lemma ratio_justified:
  assumes "d \<in> set (an_decisions (ratio_analysis scan mx us skew (slot_counts hash64 hash16 rc sn) sn))"
  shows "justified sn (an_remove (ratio_analysis scan mx us skew (slot_counts hash64 hash16 rc sn) sn)) d
    \<and> \<not> is_urgent d"
proof -
  let ?hot = "map fst (filter (\<lambda>(_, n). skew < n) (slot_counts hash64 hash16 rc sn))"
  have h: "distinct ?hot" "\<And>s. s \<in> set ?hot \<Longrightarrow> s < snap_slot_num sn \<and> bitmap_test (accessed_bits sn) s"
    using hot_slots_props [OF refl] by blast+
  show ?thesis
    using assms h unfolding ratio_analysis_def Let_def promote_page_def
    by (auto simp: justified_def split: if_splits)
qed

lemma analyse_cases:
  assumes "analyse hash64 hash16 st e scan sn = Inr a"
  obtains (urgent) "visited_slots (urgent_bits sn) (snap_slot_num sn) \<noteq> []"
      "a = urgent_analysis sn (visited_slots (urgent_bits sn) (snap_slot_num sn))"
  | (strong) ss where "visited_slots (urgent_bits sn) (snap_slot_num sn) = []"
      "ss = strong_slots e (slot_counts hash64 hash16 (record_cms st) sn) sn" "0 < e" "\<not> scan" "ss \<noteq> []"
      "a = no_analysis\<lparr>an_decisions := [decision sn False ss False], an_skew := word_of_nat (length ss)\<rparr>"
  | (ratio) us skew where "visited_slots (urgent_bits sn) (snap_slot_num sn) = []"
      "\<not> (0 < e \<and> \<not> scan \<and> strong_slots e (slot_counts hash64 hash16 (record_cms st) sn) sn \<noteq> [])"
      "a = ratio_analysis scan (GetEffectiveMaxPerPageVisits st) us skew
             (slot_counts hash64 hash16 (record_cms st) sn) sn"
proof (cases "visited_slots (urgent_bits sn) (snap_slot_num sn) = []")
  case False
  then show ?thesis using assms urgent by (simp add: analyse_def Let_def)
next
  case True
  let ?ss = "strong_slots e (slot_counts hash64 hash16 (record_cms st) sn) sn"
  show ?thesis
  proof (cases "0 < e \<and> \<not> scan \<and> ?ss \<noteq> []")
    case yes: True
    then have "a = no_analysis\<lparr>an_decisions := [decision sn False ?ss False], an_skew := word_of_nat (length ?ss)\<rparr>"
      using assms True by (auto simp: analyse_def Let_def)
    then show ?thesis using strong [OF True refl] yes by simp
  next
    case no: False
    then show ?thesis using assms True ratio [OF True no] by (auto simp: analyse_def Let_def)
  qed
qed

lemma strong_props:
  assumes "s \<in> set (strong_slots e (slot_counts hash64 hash16 rc sn) sn)"
  shows "s < snap_slot_num sn \<and> bitmap_test (accessed_bits sn) s \<and> \<not> snap_IsSlotPromoted sn s"
proof -
  have "s < snap_slot_num sn \<and> bitmap_test (accessed_bits sn) s"
    using assms hot_slots_props(2) [OF refl] unfolding strong_slots_def by blast
  moreover have "\<not> snap_IsSlotPromoted sn s" using assms by (auto simp: strong_slots_def)
  ultimately show ?thesis by simp
qed

lemma strong_distinct: "distinct (strong_slots e (slot_counts hash64 hash16 rc sn) sn)"
  unfolding strong_slots_def by (rule hot_slots_props(1) [OF refl])

lemma analyse_justified:
  assumes "analyse hash64 hash16 st e scan sn = Inr a" "d \<in> set (an_decisions a)"
  shows "justified sn (an_remove a) d"
  using assms(1)
proof (cases rule: analyse_cases)
  case urgent
  then show ?thesis using urgent_justified [of d sn] assms(2) by (auto simp: justified_def)
next
  case (strong ss)
  then have "d = decision sn False ss False" using assms(2) by simp
  moreover have "\<forall>s \<in> set ss. s < snap_slot_num sn \<and> bitmap_test (accessed_bits sn) s \<and> \<not> snap_IsSlotPromoted sn s"
    unfolding strong(2) using strong_props by blast
  moreover have "distinct ss" unfolding strong(2) by (rule strong_distinct)
  ultimately show ?thesis using strong(5) by (simp add: justified_def)
next
  case (ratio us skew)
  then show ?thesis using assms(2) ratio_justified by blast
qed

lemma analyse_remove:
  assumes "analyse hash64 hash16 st e scan sn = Inr a"
  shows "set (an_remove a) \<subseteq> {snap_page_id sn}"
  using assms
  by (cases rule: analyse_cases)
    (auto simp: Let_def urgent_analysis_def ratio_analysis_def promote_page_def split: if_splits)

lemma analyse_all_mem:
  assumes "analyse_all hash64 hash16 st e scan sns = Inr a"
  shows "d \<in> set (an_decisions a) \<longleftrightarrow>
      (\<exists>sn \<in> set sns. \<exists>b. analyse hash64 hash16 st e scan sn = Inr b \<and> d \<in> set (an_decisions b))"
    and "p \<in> set (an_remove a) \<longleftrightarrow>
      (\<exists>sn \<in> set sns. \<exists>b. analyse hash64 hash16 st e scan sn = Inr b \<and> p \<in> set (an_remove b))"
    and "sn \<in> set sns \<Longrightarrow> \<exists>b. analyse hash64 hash16 st e scan sn = Inr b"
proof -
  have "(d \<in> set (an_decisions a) \<longleftrightarrow>
      (\<exists>sn \<in> set sns. \<exists>b. analyse hash64 hash16 st e scan sn = Inr b \<and> d \<in> set (an_decisions b)))
    \<and> (p \<in> set (an_remove a) \<longleftrightarrow>
      (\<exists>sn \<in> set sns. \<exists>b. analyse hash64 hash16 st e scan sn = Inr b \<and> p \<in> set (an_remove b)))
    \<and> (\<forall>sn \<in> set sns. \<exists>b. analyse hash64 hash16 st e scan sn = Inr b)"
    using assms
  proof (induction sns arbitrary: a)
    case (Cons sn sns)
    then obtain b c where "analyse hash64 hash16 st e scan sn = Inr b"
      "analyse_all hash64 hash16 st e scan sns = Inr c" "a = add_analysis b c" by auto
    then show ?case using Cons.IH [of c] by (simp add: add_analysis_def)
  qed simp
  then show "d \<in> set (an_decisions a) \<longleftrightarrow>
      (\<exists>sn \<in> set sns. \<exists>b. analyse hash64 hash16 st e scan sn = Inr b \<and> d \<in> set (an_decisions b))"
    "p \<in> set (an_remove a) \<longleftrightarrow>
      (\<exists>sn \<in> set sns. \<exists>b. analyse hash64 hash16 st e scan sn = Inr b \<and> p \<in> set (an_remove b))"
    "sn \<in> set sns \<Longrightarrow> \<exists>b. analyse hash64 hash16 st e scan sn = Inr b"
    by blast+
qed

lemma analyse_all_justified:
  assumes "analyse_all hash64 hash16 st e scan sns = Inr a" "d \<in> set (an_decisions a)"
  obtains sn where "sn \<in> set sns" "justified sn (an_remove a) d"
proof -
  obtain sn b where sn: "sn \<in> set sns" "analyse hash64 hash16 st e scan sn = Inr b" "d \<in> set (an_decisions b)"
    using analyse_all_mem(1) [OF assms(1)] assms(2) by blast
  then have "justified sn (an_remove b) d" by (intro analyse_justified)
  moreover have "set (an_remove b) \<subseteq> set (an_remove a)"
    using analyse_all_mem(2) [OF assms(1)] sn by blast
  ultimately have "justified sn (an_remove a) d" by (auto simp: justified_def split: if_splits)
  then show ?thesis using sn(1) that by blast
qed

lemma CheckAndPromote_cases:
  assumes "CheckAndPromote hash64 hash16 l1 fr scan st = Inr (ds, st')"
  obtains e a where "effective_threshold l1 fr = Inr e"
    "analyse_all hash64 hash16 st e scan (take_snapshots st) = Inr a" "ds = an_decisions a" "st' = write_back a st"
  using assms by (auto simp: CheckAndPromote_def)

lemma snap_promoted_cand:
  "unat s < 512 \<Longrightarrow> snap_IsSlotPromoted (take_snapshot (p, c)) s = IsSlotPromoted c s"
  by (simp add: snap_IsSlotPromoted_def IsSlotPromoted_def test_bit raw_test_bit)

lemma decision_justified:
  assumes "pool_inv st" "CheckAndPromote hash64 hash16 l1 fr scan st = Inr (ds, st')" "d \<in> set ds"
  obtains c a where "cand_of st (dec_page_id d) = Some c" "ds = an_decisions a" "st' = write_back a st"
    "justified (take_snapshot (dec_page_id d, c)) (an_remove a) d" "cand_ok c"
proof -
  obtain e a where a: "analyse_all hash64 hash16 st e scan (take_snapshots st) = Inr a"
    "ds = an_decisions a" "st' = write_back a st"
    using assms(2) by (rule CheckAndPromote_cases)
  obtain sn where sn: "sn \<in> set (take_snapshots st)" "justified sn (an_remove a) d"
    using analyse_all_justified [OF a(1)] assms(3) a(2) by blast
  obtain p c where c: "cand_of st p = Some c" "sn = take_snapshot (p, c)"
    using sn(1) snapshot_lookup [OF assms(1)] by blast
  have "dec_page_id d = p" using sn(2) c(2) by (simp add: justified_def)
  then show ?thesis using that [of c a] c a sn(2) cand_of_ok [OF assms(1) c(1)] by simp
qed

section \<open>Properties of one round\<close>


lemma decision_from:
  assumes "pool_inv st" "CheckAndPromote hash64 hash16 l1 fr scan st = Inr (ds, st')"
    "effective_threshold l1 fr = Inr e" "cand_of st p = Some c"
  obtains b where "analyse hash64 hash16 st e scan (take_snapshot (p, c)) = Inr b" "set (an_decisions b) \<subseteq> set ds"
proof -
  obtain a where a: "analyse_all hash64 hash16 st e scan (take_snapshots st) = Inr a" "ds = an_decisions a"
    using assms(2,3) by (auto elim: CheckAndPromote_cases)
  have sn: "take_snapshot (p, c) \<in> set (take_snapshots st)"
    using assms(4) snapshot_lookup [OF assms(1)] by blast
  then obtain b where b: "analyse hash64 hash16 st e scan (take_snapshot (p, c)) = Inr b"
    using analyse_all_mem(3) [OF a(1)] by blast
  have "set (an_decisions b) \<subseteq> set ds" using analyse_all_mem(1) [OF a(1)] a(2) sn b by blast
  then show ?thesis using b that by blast
qed

lemma urgent_decision:
  assumes "pool_inv st" "CheckAndPromote hash64 hash16 l1 fr scan st = Inr (ds, st')"
    "cand_of st p = Some c" "IsSlotUrgent c s" "s < page_slot_num c"
  shows "decision (take_snapshot (p, c)) False [s] True \<in> set ds"
proof -
  obtain e where "effective_threshold l1 fr = Inr e" using assms(2) by (auto elim: CheckAndPromote_cases)
  then obtain b where b: "analyse hash64 hash16 st e scan (take_snapshot (p, c)) = Inr b"
    "set (an_decisions b) \<subseteq> set ds"
    using decision_from [OF assms(1,2) _ assms(3)] by blast
  let ?us = "visited_slots (urgent_pending_slot_set c) (page_slot_num c)"
  have s: "s \<in> set ?us" using assms(4,5) unfolding visited_slots_set by (simp add: IsSlotUrgent_def)
  have "\<not> IsSlotPromoted c s" using cand_of_ok [OF assms(1,3)] assms(4) by (auto simp: cand_ok_def)
  then have np: "\<not> snap_IsSlotPromoted (take_snapshot (p, c)) s"
    using urgent_in_range(1) [OF assms(4)] by (simp add: snap_promoted_cand)
  have "b = urgent_analysis (take_snapshot (p, c)) ?us"
    using b(1) by (cases rule: analyse_cases) (use s in auto)
  then show ?thesis using s np b(2) by (auto simp: urgent_analysis_def Let_def)
qed

text \<open>
  C29. An invalidated record is re-promoted in the next round: every slot of a candidate page that is
  marked urgent gets an urgent decision of its own.
\<close>

theorem urgent_slots_are_promoted:
  assumes "pool_inv st" "CheckAndPromote hash64 hash16 l1 fr scan st = Inr (ds, st')"
    "cand_of st p = Some c" "IsSlotUrgent c s" "s < page_slot_num c"
  shows "\<exists>d \<in> set ds. dec_page_id d = p \<and> is_urgent d \<and> \<not> promote_entire_page d \<and> hot_slot_ids d = [s]"
  using urgent_decision [OF assms]
  by (intro bexI [of _ "decision (take_snapshot (p, c)) False [s] True"]) auto

text \<open>
  C30. A strongly skewed record is promoted: outside scan mode and when no urgent slot takes precedence,
  every accessed, unpromoted slot whose sketch count reaches the effective first-level threshold is
  named by a record decision of the round.
\<close>

theorem strong_slots_are_promoted:
  assumes "pool_inv st" "CheckAndPromote hash64 hash16 l1 fr False st = Inr (ds, st')"
    "effective_threshold l1 fr = Inr e" "0 < e" "cand_of st p = Some c"
    "visited_slots (urgent_pending_slot_set c) (page_slot_num c) = []"
    "IsSlotAccessed c s" "s < page_slot_num c" "\<not> IsSlotPromoted c s"
    "e \<le> CMSGetRecordAccessCount hash64 hash16 (record_cms st) p s"
  shows "\<exists>d \<in> set ds. dec_page_id d = p \<and> \<not> promote_entire_page d \<and> s \<in> set (hot_slot_ids d)"
proof -
  let ?sn = "take_snapshot (p, c)"
  obtain b where b: "analyse hash64 hash16 st e False ?sn = Inr b" "set (an_decisions b) \<subseteq> set ds"
    using decision_from [OF assms(1,2,3,5)] by blast
  have "s \<in> set (visited_slots (distinct_accessed_slot_set c) (page_slot_num c))"
    using assms(7,8) unfolding visited_slots_set by (simp add: IsSlotAccessed_def)
  moreover have "\<not> snap_IsSlotPromoted ?sn s"
    using assms(9) urgent_in_range(3) [OF assms(7)] by (simp add: snap_promoted_cand)
  ultimately have s: "s \<in> set (strong_slots e (slot_counts hash64 hash16 (record_cms st) ?sn) ?sn)"
    using assms(10) by (force simp: strong_slots_def slot_counts_def)
  from b(1) show ?thesis
  proof (cases rule: analyse_cases)
    case (strong ss)
    then have "decision ?sn False ss False \<in> set ds" "s \<in> set ss" using b(2) s by auto
    then show ?thesis by (intro bexI [of _ "decision ?sn False ss False"]) auto
  qed (use assms(4,6) s in auto)
qed


section \<open>The scaled threshold\<close>

lemma dyadic_doubles [simp]: "rnd (1 / 4) = 1 / 4" "rnd (3 / 4) = 3 / 4"
  by code_simp+

definition threshold_scale :: "double \<Rightarrow> double" where
  "threshold_scale fill = dadd (1 / 4) (dmul (3 / 4) (dclamp fill 0 1))"

lemma getDynamicThreshold_scale:
  "l1 \<noteq> 0 \<Longrightarrow> getDynamicThreshold l1 fill (1 / 4) = dmul (double_of_u64 l1) (threshold_scale fill)"
proof -
  have d: "dsub 1 (1 / 4) = 3 / 4" by (simp add: dsub_def)
  show "l1 \<noteq> 0 \<Longrightarrow> ?thesis" unfolding getDynamicThreshold_def threshold_scale_def Let_def d by simp
qed

lemma threshold_scale_mono: "f \<le> g \<Longrightarrow> threshold_scale f \<le> threshold_scale g"
  unfolding threshold_scale_def by (intro dadd_mono dmul_mono dclamp_mono) simp_all

lemma threshold_scale_bounds: "1 / 4 \<le> threshold_scale f" "threshold_scale f \<le> 1"
proof -
  have c: "0 \<le> dclamp f 0 1" "dclamp f 0 1 \<le> 1" using dclamp_bounds [of 0 1 f] by simp_all
  have "dmul (3 / 4) (dclamp f 0 1) \<le> dmul (3 / 4) 1" using c(2) by (rule dmul_mono) simp
  then have "dmul (3 / 4) (dclamp f 0 1) \<le> 3 / 4" by (simp add: dmul_def)
  then have "threshold_scale f \<le> dadd (1 / 4) (3 / 4)" unfolding threshold_scale_def by (rule dadd_mono)
  then show "threshold_scale f \<le> 1" by (simp add: dadd_def)
  have "dadd (1 / 4) 0 \<le> threshold_scale f"
    unfolding threshold_scale_def using c(1) by (intro dadd_mono dmul_nonneg) simp_all
  then show "1 / 4 \<le> threshold_scale f" by (simp add: dadd_def)
qed

lemma effective_threshold_total:
  assumes "unat l1 \<le> 2 ^ 53" "l1 \<noteq> 0"
  obtains t where "cast_u64 (getDynamicThreshold l1 f (1 / 4)) = Inr t"
    "effective_threshold l1 f = Inr (max 2 t)" "t \<le> l1"
proof -
  let ?x = "dmul (double_of_u64 l1) (threshold_scale f)"
  have s: "0 \<le> threshold_scale f" "threshold_scale f \<le> 1" using threshold_scale_bounds [of f] by simp_all
  have d: "double_of_u64 l1 = of_nat (unat l1)" "0 \<le> double_of_u64 l1"
    using assms(1) by (simp_all only: double_of_u64_def double_of_nat_exact double_of_nat_nonneg)
  have "?x \<le> dmul (double_of_u64 l1) 1" using s(2) d(2) by (rule dmul_mono)
  also have "\<dots> = of_nat (unat l1)"
    unfolding d(1) dmul_def mult_1_right using assms(1) by (rule rnd_of_nat)
  also have "\<dots> \<le> of_nat (2 ^ 53)" using assms(1) of_nat_le_iff by blast
  finally have "?x < 2 ^ 64" by simp
  moreover have "0 \<le> ?x" using d(2) s(1) by (rule dmul_nonneg)
  ultimately obtain t where t: "cast_u64 ?x = Inr t" by (simp add: cast_u64_def)
  then have "t \<le> l1" using cast_dmul_le [OF assms(1) s] by (simp add: word_le_nat_alt)
  then show ?thesis
    using t assms(2) getDynamicThreshold_scale [OF assms(2), of f]
    by (intro that) (simp_all add: effective_threshold_def)
qed

text \<open>
  The effective threshold exists for every fill ratio (even outside the unit interval), lies
  between 2 and the first-level threshold (or 2), and never falls as the record cache fills up.
\<close>

theorem effective_threshold_bounds:
  assumes "unat l1 \<le> 2 ^ 53" "l1 \<noteq> 0" "f \<le> g"
  shows "\<exists>t u. effective_threshold l1 f = Inr t \<and> effective_threshold l1 g = Inr u
    \<and> 2 \<le> t \<and> t \<le> u \<and> u \<le> max 2 l1"
proof -
  obtain t where t: "cast_u64 (getDynamicThreshold l1 f (1 / 4)) = Inr t"
    "effective_threshold l1 f = Inr (max 2 t)" "t \<le> l1"
    using assms(1,2) by (rule effective_threshold_total)
  obtain u where u: "cast_u64 (getDynamicThreshold l1 g (1 / 4)) = Inr u"
    "effective_threshold l1 g = Inr (max 2 u)" "u \<le> l1"
    using assms(1,2) by (rule effective_threshold_total)
  have "getDynamicThreshold l1 f (1 / 4) \<le> getDynamicThreshold l1 g (1 / 4)"
    unfolding getDynamicThreshold_scale [OF assms(2)]
    by (intro dmul_mono threshold_scale_mono assms(3)) (simp add: double_of_u64_def)
  then have "t \<le> u" using t(1) u(1) by (auto simp: word_le_nat_alt intro: cast_u64_mono)
  then show ?thesis using t u by (auto simp: max_def)
qed

theorem effective_threshold_bounds_witness:
  "\<exists>t u. effective_threshold 100 0 = Inr t \<and> effective_threshold 100 (1 / 2) = Inr u
    \<and> 2 \<le> t \<and> t \<le> u \<and> u \<le> max 2 100"
  using effective_threshold_bounds [of 100 0 "1 / 2"] by simp

section \<open>A round always completes\<close>

lemma cast_u64_total: "0 \<le> x \<Longrightarrow> x < 2 ^ 64 \<Longrightarrow> \<exists>t. cast_u64 x = Inr t"
  by (simp add: cast_u64_def)

lemma rnd_big_powers [simp]: "rnd 18446744073709551616 = 18446744073709551616"
  "rnd 9223372036854775808 = 9223372036854775808"
  by code_simp+

lemma double_of_u64_le: "double_of_u64 w \<le> 18446744073709551616"
proof -
  have "unat w < 2 ^ 64" using fits64_unat [of w] by (simp add: fits64_def)
  then have "(of_nat (unat w) :: rat) \<le> of_nat (2 ^ 64)" using of_nat_le_iff less_imp_le by blast
  then have "rnd (of_nat (unat w)) \<le> rnd (of_nat (2 ^ 64))" by (rule rnd_mono)
  then show ?thesis by (simp add: double_of_u64_def double_of_nat_def)
qed

lemma skew_threshold_total:
  assumes "0 \<le> r" "r \<le> 1 / 2"
  shows "\<exists>t. skew_threshold r total_count visits = Inr t \<and> 1 \<le> t"
proof -
  define w where "w = (if 0 < total_count then total_count else visits)"
  let ?x = "dmul (double_of_u64 w) r"
  have nn: "0 \<le> double_of_u64 w" by (simp add: double_of_u64_def)
  have "double_of_u64 w * r \<le> 18446744073709551616 * (1 / 2)"
    using assms nn double_of_u64_le by (intro mult_mono) auto
  then have "?x \<le> rnd (9223372036854775808)" unfolding dmul_def by (intro rnd_mono) simp
  then have "\<lceil>?x\<rceil> \<le> 9223372036854775808" by (simp add: ceiling_le_iff)
  then have "dceil ?x \<le> of_int 9223372036854775808" unfolding dceil_def by (simp only: of_int_le_iff)
  moreover have "0 \<le> dceil ?x" using dmul_nonneg [OF nn assms(1)] by (simp add: dceil_def ceiling_mono [of 0])
  ultimately obtain t where "cast_u64 (dceil ?x) = Inr t" using cast_u64_total [of "dceil ?x"] by fastforce
  then show ?thesis by (simp add: skew_threshold_def w_def Let_def)
qed

lemma uniform_slots_total:
  assumes "0 \<le> r" "r \<le> 1"
  shows "\<exists>t. cast_u64 (dmul (double_of_nat (unat (n :: u16))) r) = Inr t"
proof -
  have n: "unat n < 65536" using unsigned_less [of n, where ?'a = nat] by simp
  then have d: "double_of_nat (unat n) = of_nat (unat n)" by (intro double_of_nat_exact) simp
  have "dmul (double_of_nat (unat n)) r \<le> dmul (double_of_nat (unat n)) 1" using assms(2) by (rule dmul_mono) simp
  also have "\<dots> = of_nat (unat n)" unfolding d dmul_def mult_1_right using n by (intro rnd_of_nat) simp
  also have "\<dots> \<le> of_nat 65536" using n by (intro of_nat_mono) simp
  finally show ?thesis using assms(1) by (intro cast_u64_total dmul_nonneg) simp_all
qed

lemma analyse_total:
  assumes "0 \<le> skew_threshold_ratio st" "skew_threshold_ratio st \<le> 1 / 2"
    "0 \<le> uniform_threshold_ratio st" "uniform_threshold_ratio st \<le> 1"
  shows "\<exists>a. analyse hash64 hash16 st e scan sn = Inr a"
proof -
  obtain us where us: "cast_u64 (dmul (double_of_nat (unat (snap_slot_num sn))) (uniform_threshold_ratio st)) = Inr us"
    using uniform_slots_total [OF assms(3,4)] by blast
  obtain t where t: "skew_threshold (skew_threshold_ratio st)
      (sum_list (map snd (slot_counts hash64 hash16 (record_cms st) sn))) (per_page_visits sn) = Inr t"
    using skew_threshold_total [OF assms(1,2)] by blast
  show ?thesis unfolding analyse_def Let_def us bindR_Inr t by simp
qed

lemma analyse_all_total:
  assumes "0 \<le> skew_threshold_ratio st" "skew_threshold_ratio st \<le> 1 / 2"
    "0 \<le> uniform_threshold_ratio st" "uniform_threshold_ratio st \<le> 1"
  shows "\<exists>a. analyse_all hash64 hash16 st e scan sns = Inr a"
proof (induction sns)
  case (Cons sn sns)
  moreover obtain a where "analyse hash64 hash16 st e scan sn = Inr a" using analyse_total [OF assms] by blast
  ultimately show ?case by auto
qed simp

lemma round_total:
  assumes "unat l1 \<le> 2 ^ 53" "0 \<le> skew_threshold_ratio st" "skew_threshold_ratio st \<le> 1 / 2"
    "0 \<le> uniform_threshold_ratio st" "uniform_threshold_ratio st \<le> 1"
  obtains ds st' where "CheckAndPromote hash64 hash16 l1 fr scan st = Inr (ds, st')"
proof -
  have "\<exists>e. effective_threshold l1 fr = Inr e"
  proof (cases "l1 = 0")
    case False
    then show ?thesis using effective_threshold_total [OF assms(1)] by blast
  qed (simp add: effective_threshold_def)
  then obtain e where "effective_threshold l1 fr = Inr e" by blast
  moreover obtain a where "analyse_all hash64 hash16 st e scan (take_snapshots st) = Inr a"
    using analyse_all_total [OF assms(2-5)] by blast
  ultimately show ?thesis using that by (simp add: CheckAndPromote_def)
qed

text \<open>
  C32. A round of \<open>CheckAndPromote\<close> always runs to completion, without a floating-point conversion out
  of range, for thresholds up to 2^53 and any counters, when the skew ratio is at most one half and the
  uniform ratio at most one (the defaults are 0.1 and 0.5); it keeps the pool well formed and counts one
  more round.
\<close>

theorem CheckAndPromote_completes:
  assumes "pool_inv st" "unat l1 \<le> 2 ^ 53" "0 \<le> skew_threshold_ratio st" "skew_threshold_ratio st \<le> 1 / 2"
    "0 \<le> uniform_threshold_ratio st" "uniform_threshold_ratio st \<le> 1"
  shows "\<exists>ds st'. CheckAndPromote hash64 hash16 l1 fr scan st = Inr (ds, st') \<and> pool_inv st'
    \<and> check_and_promote_round_no st' = check_and_promote_round_no st + 1"
proof -
  obtain ds st' where r: "CheckAndPromote hash64 hash16 l1 fr scan st = Inr (ds, st')"
    using assms(2-6) by (rule round_total)
  then obtain a where "st' = write_back a st" by (rule CheckAndPromote_cases)
  then show ?thesis using r pool_inv_write_back [OF assms(1)] by (auto simp: write_back_def)
qed

section \<open>Witnesses\<close>

text \<open>A pool with one candidate, page 5 of four slots: slot 2 accessed, and (second pool) slot 1 invalidated.\<close>

definition sample_cand :: hot_page where
  "sample_cand = \<lparr>page_cms_visit_count = 9, page_slot_num = 4, cxl_bf = 64,
     distinct_accessed_slot_set = replicate 8 0, already_promoted_slot_set = replicate 8 0,
     urgent_pending_slot_set = replicate 8 0, per_hot_page_visit_count = 0\<rparr>"

definition sample_pool :: candidates where
  "sample_pool = (newDramHotPageCandidates \<lparr>cms_row_num = 1, cms_col_num = 1, cms_matrix = [30], cms_hash_seeds = [7]\<rparr>
       (1 / 4) (1 / 2) 3000 0)
     \<lparr>shards := (replicate 16 [])[5 := [(5, MarkSlotAsAccessed sample_cand 2)]]\<rparr>"

definition sample_urgent_pool :: candidates where
  "sample_urgent_pool = ClearPromotedSlot 5 1 sample_pool"

lemma sample_new: "newHotPageCandidate 9 4 64 = Inr sample_cand"
  by (simp add: newHotPageCandidate_def sample_cand_def)

lemma sample_shard: "getShardIndex 5 = 5"
  by (simp add: getShardIndex_def)

lemma sample_pool_inv: "pool_inv sample_pool"
proof -
  have "cand_ok (MarkSlotAsAccessed sample_cand 2)"
    using new_candidate [OF sample_new] by (simp add: cand_ok_def accessed.wf_mark)
  then have "shard_ok 5 [(5, MarkSlotAsAccessed sample_cand 2)]" by (simp add: shard_ok_def sample_shard)
  then show ?thesis
    by (auto simp: pool_inv_def sample_pool_def newDramHotPageCandidates_def shard_ok_def nth_list_update)
qed

lemma sample_ratios:
  "skew_threshold_ratio sample_pool = 1 / 4" "uniform_threshold_ratio sample_pool = 1 / 2"
  "skew_threshold_ratio sample_urgent_pool = 1 / 4" "uniform_threshold_ratio sample_urgent_pool = 1 / 2"
  by (simp_all add: sample_pool_def sample_urgent_pool_def ClearPromotedSlot_def on_shard_def newDramHotPageCandidates_def)

lemma sample_cand_of: "cand_of sample_pool 5 = Some (MarkSlotAsAccessed sample_cand 2)"
  by (simp add: cand_of_def sample_shard sample_pool_def)

lemma sample_urgent:
  "pool_inv sample_urgent_pool" "cand_of sample_urgent_pool 5
     = Some (MarkSlotAsUrgent (ClearPromotedSlotBit (MarkSlotAsAccessed sample_cand 2) 1) 1)"
proof -
  show "pool_inv sample_urgent_pool" unfolding sample_urgent_pool_def ClearPromotedSlot_def
    by (rule pool_inv_on_shard [OF sample_pool_inv]) (rule shard_ok_adjust, assumption, erule cand_ok_invalidate)
  show "cand_of sample_urgent_pool 5
     = Some (MarkSlotAsUrgent (ClearPromotedSlotBit (MarkSlotAsAccessed sample_cand 2) 1) 1)"
    unfolding sample_urgent_pool_def ClearPromotedSlot_def cand_of_on_shard_adjust [OF sample_pool_inv]
    by (simp add: sample_cand_of)
qed

theorem CheckAndPromote_completes_witness:
  "\<exists>ds st'. CheckAndPromote id ucast 8 0 False sample_pool = Inr (ds, st') \<and> pool_inv st'
    \<and> check_and_promote_round_no st' = check_and_promote_round_no sample_pool + 1"
  using CheckAndPromote_completes [OF sample_pool_inv] by (simp add: sample_ratios)

lemma sample_urgent_slot:
  "IsSlotUrgent (MarkSlotAsUrgent (ClearPromotedSlotBit (MarkSlotAsAccessed sample_cand 2) 1) 1) 1"
  "1 < page_slot_num (MarkSlotAsUrgent (ClearPromotedSlotBit (MarkSlotAsAccessed sample_cand 2) 1) 1)"
  using new_candidate [OF sample_new]
  by (simp_all add: urgent.mem_mark promoted.wf_clear accessed.wf_mark) (simp add: slot_defs)

theorem urgent_slots_are_promoted_witness:
  "\<exists>ds st'. CheckAndPromote id ucast 8 0 False sample_urgent_pool = Inr (ds, st')
    \<and> (\<exists>d \<in> set ds. dec_page_id d = 5 \<and> is_urgent d \<and> \<not> promote_entire_page d \<and> hot_slot_ids d = [1])"
proof -
  obtain ds st' where r: "CheckAndPromote id ucast 8 0 False sample_urgent_pool = Inr (ds, st')"
    by (rule round_total [of 8 sample_urgent_pool]) (simp_all add: sample_ratios)
  from urgent_slots_are_promoted [OF sample_urgent(1) r sample_urgent(2) sample_urgent_slot] r
  show ?thesis by blast
qed



theorem strong_slots_are_promoted_witness:
  "\<exists>ds st'. CheckAndPromote id ucast 8 0 False sample_pool = Inr (ds, st')
    \<and> (\<exists>d \<in> set ds. dec_page_id d = 5 \<and> \<not> promote_entire_page d \<and> 2 \<in> set (hot_slot_ids d))"
proof -
  obtain ds st' where r: "CheckAndPromote id ucast 8 0 False sample_pool = Inr (ds, st')"
    by (rule round_total [of 8 sample_pool]) (simp_all add: sample_ratios)
  have e: "effective_threshold 8 0 = Inr 2" by code_simp
  let ?c = "MarkSlotAsAccessed sample_cand 2"
  have u: "visited_slots (urgent_pending_slot_set ?c) (page_slot_num ?c) = []"
  proof -
    have "set (visited_slots (urgent_pending_slot_set ?c) (page_slot_num ?c)) = {}"
      unfolding visited_slots_set by (simp add: slot_defs sample_cand_def)
    then show ?thesis by simp
  qed
  have s: "IsSlotAccessed ?c 2" "2 < page_slot_num ?c" "\<not> IsSlotPromoted ?c 2"
    using new_candidate [OF sample_new] by (simp_all add: accessed.mem_mark) (simp add: slot_defs)
  have "2 \<le> CMSGetRecordAccessCount id ucast (record_cms sample_pool) 5 2"
    by (simp add: sample_pool_def newDramHotPageCandidates_def CMSGetRecordAccessCount_def CMSQuery_def
        cms_at_def col_index_def)
  from strong_slots_are_promoted [OF sample_pool_inv r e _ sample_cand_of u s this] r
  show ?thesis by auto
qed

end
