(* ===== verification/CandidateRounds.thy ===== *)
theory CandidateRounds
  imports SkewRecordAdmission
begin

text \<open>
  Rounds of \<open>CheckAndPromote\<close> interleaved with worker threads: the step relation of the candidate
  pool, and what stays true in every reachable state.
\<close>

section \<open>Interleaved rounds\<close>

text \<open>
  The background thread holds one shard lock at a time: it snapshots shard by shard, analyses without
  locks, and writes back shard by shard, while workers keep adding candidates, recording accesses and
  invalidating slots in between. A state pairs the pool with the position of the background thread.
\<close>

datatype bg_phase = Idle | Snapping "candidate_snapshot list" nat | Writing analysis nat

inductive pool_step :: "(u64 \<Rightarrow> u64) \<Rightarrow> (u16 \<Rightarrow> u64) \<Rightarrow> candidates \<times> bg_phase \<Rightarrow> candidates \<times> bg_phase \<Rightarrow> bool"
  for hash64 hash16 where
  add: "AddCandidate p v n bf st = Inr (b, st') \<Longrightarrow> pool_step hash64 hash16 (st, ph) (st', ph)"
| access: "pool_step hash64 hash16 (st, ph) (cand_OnRecordAccess hash64 hash16 p s bf (cand_OnPageAccess st), ph)"
| invalidate: "pool_step hash64 hash16 (st, ph) (ClearPromotedSlot p s st, ph)"
| start: "pool_step hash64 hash16 (st, Idle) (st, Snapping [] 0)"
| snap: "i < NUM_CANDIDATE_SHARDS \<Longrightarrow>
    pool_step hash64 hash16 (st, Snapping sns i) (st, Snapping (sns @ map take_snapshot (shards st ! i)) (Suc i))"
| analysis: "analyse_all hash64 hash16 st e scan sns = Inr a \<Longrightarrow>
    pool_step hash64 hash16 (st, Snapping sns NUM_CANDIDATE_SHARDS) (st, Writing a 0)"
| writeback: "i < NUM_CANDIDATE_SHARDS \<Longrightarrow>
    pool_step hash64 hash16 (st, Writing a i)
      (on_shard i (write_back_shard (an_decisions a) (an_remove a) i) st, Writing a (Suc i))"
| finish: "pool_step hash64 hash16 (st, Writing a NUM_CANDIDATE_SHARDS) (st, Idle)"
| epoch: "pool_step hash64 hash16 (st, Idle) (snd (ClearAllCandidatesByEpoch st), Idle)"

inductive pool_reach :: "(u64 \<Rightarrow> u64) \<Rightarrow> (u16 \<Rightarrow> u64) \<Rightarrow> candidates \<Rightarrow> candidates \<times> bg_phase \<Rightarrow> bool"
  for hash64 hash16 st0 where
  init: "pool_reach hash64 hash16 st0 (st0, Idle)"
| step: "pool_reach hash64 hash16 st0 x \<Longrightarrow> pool_step hash64 hash16 x y \<Longrightarrow> pool_reach hash64 hash16 st0 y"

text \<open>The candidate a snapshot was taken of is still there, with at most the promoted slots it had then.\<close>

definition still_valid :: "candidates \<Rightarrow> candidate_snapshot \<Rightarrow> bool" where
  "still_valid st sn \<longleftrightarrow> (\<exists>c. cand_of st (snap_page_id sn) = Some c \<and> page_slot_num c = snap_slot_num sn
     \<and> (\<forall>s. IsSlotPromoted c s \<longrightarrow> snap_IsSlotPromoted sn s))"

definition pending_ok :: "candidates \<Rightarrow> promotion_decision \<Rightarrow> bool" where
  "pending_ok st d \<longleftrightarrow> (\<exists>c. cand_of st (dec_page_id d) = Some c
     \<and> (\<forall>s \<in> set (hot_slot_ids d). s < page_slot_num c \<and> \<not> IsSlotPromoted c s))"

text \<open>Where the background thread stands, and what is known of the work it still has to do.\<close>

fun phase_inv :: "candidates \<Rightarrow> bg_phase \<Rightarrow> bool" where
  "phase_inv st Idle = True"
| "phase_inv st (Snapping sns i) = (\<forall>sn \<in> set sns. still_valid st sn)"
| "phase_inv st (Writing a i) =
     (\<forall>d \<in> set (an_decisions a). \<not> promote_entire_page d \<and> i \<le> getShardIndex (dec_page_id d) \<longrightarrow> pending_ok st d)"

text \<open>A worker step keeps candidates, their sizes, and adds no promoted slot.\<close>

definition worker_frame :: "candidates \<Rightarrow> candidates \<Rightarrow> bool" where
  "worker_frame st st' \<longleftrightarrow> (\<forall>p c. cand_of st p = Some c \<longrightarrow> (\<exists>c'. cand_of st' p = Some c'
     \<and> page_slot_num c' = page_slot_num c \<and> (\<forall>s. IsSlotPromoted c' s \<longrightarrow> IsSlotPromoted c s)))"

lemma phase_inv_worker:
  assumes "worker_frame st st'" "phase_inv st ph"
  shows "phase_inv st' ph"
proof (cases ph)
  case (Snapping sns i)
  then show ?thesis using assms unfolding worker_frame_def by (fastforce simp: still_valid_def)
next
  case (Writing a i)
  then show ?thesis using assms unfolding worker_frame_def by (fastforce simp: pending_ok_def)
qed simp

lemma add_candidate_new:
  assumes "pool_inv st" "AddCandidate p v n bf st = Inr (b, st')" "cand_of st p = None"
  obtains c where "newHotPageCandidate v n bf = Inr c" "record_cms st' = record_cms st"
    "st' = on_shard (getShardIndex p) (\<lambda>m. m @ [(p, c)]) st" "cand_of st' = (cand_of st)(p \<mapsto> c)"
proof -
  obtain c where c: "newHotPageCandidate v n bf = Inr c"
    "st' = on_shard (getShardIndex p) (\<lambda>m. m @ [(p, c)]) st"
    using assms(2,3) by (auto simp: AddCandidate_def cand_of_def)
  have len: "length (shards st) = 16" using assms(1) by (simp add: pool_inv_def)
  have "cand_of st' q = (if q = p then Some c else cand_of st q)" for q
  proof (cases "getShardIndex q = getShardIndex p")
    case True
    then show ?thesis using assms(3) len getShardIndex_less [of p]
      by (auto simp: c(2) on_shard_def cand_of_def map_add_def split: option.splits)
  next
    case False
    then show ?thesis using len by (auto simp: c(2) on_shard_def cand_of_def)
  qed
  then have "cand_of st' = (cand_of st)(p \<mapsto> c)" by (simp add: fun_eq_iff)
  then show ?thesis using that c by (simp add: on_shard_def)
qed

lemma add_candidate_known: "AddCandidate p v n bf st = Inr (b, st') \<Longrightarrow> cand_of st p = Some c \<Longrightarrow> st' = st"
  by (simp add: AddCandidate_def cand_of_def)

lemma add_candidate_effect:
  assumes "pool_inv st" "AddCandidate p v n bf st = Inr (b, st')"
  shows "pool_inv st' \<and> worker_frame st st'"
proof (cases "cand_of st p")
  case None
  with assms obtain c where c: "newHotPageCandidate v n bf = Inr c" "record_cms st' = record_cms st"
    "st' = on_shard (getShardIndex p) (\<lambda>m. m @ [(p, c)]) st" "cand_of st' = (cand_of st)(p \<mapsto> c)"
    by (rule add_candidate_new)
  have ok: "cand_ok c" using new_candidate [OF c(1)] by (auto simp: cand_ok_def)
  let ?i = "getShardIndex p"
  have "shard_ok ?i (shards st ! ?i @ [(p, c)])"
    using pool_inv_shard [OF assms(1), of p] None ok by (auto simp: shard_ok_def cand_of_def map_of_eq_None_iff)
  then have "pool_inv st'"
    using assms(1) unfolding c(3) pool_inv_def on_shard_def by (auto simp: nth_list_update)
  moreover have "worker_frame st st'" using None by (auto simp: worker_frame_def c(4))
  ultimately show ?thesis by simp
next
  case (Some c)
  then show ?thesis using assms add_candidate_known [OF assms(2)] by (auto simp: worker_frame_def)
qed

lemma add_candidate_keeps:
  assumes "pool_inv st" "AddCandidate p v n bf st = Inr (b, st')"
  shows "record_cms st' = record_cms st \<and> (cand_of st q = Some c \<longrightarrow> cand_of st' q = Some c) \<and> cand_of st' p \<noteq> None"
proof (cases "cand_of st p")
  case None
  with assms show ?thesis by (rule add_candidate_new) (use None in auto)
qed (use add_candidate_known [OF assms(2)] in auto)

lemma adjust_effect:
  assumes "pool_inv st" "\<And>c. cand_ok c \<Longrightarrow> cand_ok (f c)" "\<And>c. page_slot_num (f c) = page_slot_num c"
    "\<And>c s. cand_ok c \<Longrightarrow> IsSlotPromoted (f c) s \<Longrightarrow> IsSlotPromoted c s"
  shows "pool_inv (on_shard (getShardIndex p) (map_adjust p f) st)
    \<and> worker_frame st (on_shard (getShardIndex p) (map_adjust p f) st)"
proof
  show "pool_inv (on_shard (getShardIndex p) (map_adjust p f) st)"
    using assms(1) by (rule pool_inv_on_shard) (rule shard_ok_adjust, assumption, rule assms(2))
  have "cand_ok c" if "cand_of st q = Some c" for q c using cand_of_ok [OF assms(1) that] .
  then show "worker_frame st (on_shard (getShardIndex p) (map_adjust p f) st)"
    unfolding worker_frame_def cand_of_on_shard_adjust [OF assms(1)]
    using assms(3,4) by (auto split: if_splits)
qed

lemma pool_inv_cong [simp]:
  "pool_inv (st\<lparr>record_cms := rc\<rparr>) = pool_inv st" "pool_inv (st\<lparr>global_requests := g\<rparr>) = pool_inv st"
  "cand_of (st\<lparr>record_cms := rc\<rparr>) = cand_of st" "cand_of (st\<lparr>global_requests := g\<rparr>) = cand_of st"
  by (simp_all add: pool_inv_def cand_of_def fun_eq_iff)

lemma access_effect:
  assumes "pool_inv st"
  shows "pool_inv (cand_OnRecordAccess hash64 hash16 p s bf (cand_OnPageAccess st))
    \<and> worker_frame st (cand_OnRecordAccess hash64 hash16 p s bf (cand_OnPageAccess st))"
proof -
  let ?f = "\<lambda>c. IncrementVisitCount (MarkSlotAsAccessed (if bf \<noteq> 0 then c\<lparr>cxl_bf := bf\<rparr> else c) s)"
  let ?st = "(cand_OnPageAccess st)\<lparr>record_cms := CMSRecordAccessUpdate hash64 hash16 (record_cms (cand_OnPageAccess st)) p s\<rparr>"
  have "pool_inv (on_shard (getShardIndex p) (map_adjust p ?f) ?st)
      \<and> worker_frame ?st (on_shard (getShardIndex p) (map_adjust p ?f) ?st)"
  proof (rule adjust_effect)
    show "pool_inv ?st" using assms by (simp add: cand_OnPageAccess_def)
    show "page_slot_num (?f c) = page_slot_num c" for c by (simp add: slot_defs)
    show "IsSlotPromoted (?f c) t \<Longrightarrow> IsSlotPromoted c t" for c t by (simp add: slot_defs split: if_splits)
  qed (rule cand_ok_access)
  then show ?thesis
    by (simp add: cand_OnRecordAccess_def worker_frame_def cand_OnPageAccess_def)
qed

lemma invalidate_effect:
  assumes "pool_inv st"
  shows "pool_inv (ClearPromotedSlot p s st) \<and> worker_frame st (ClearPromotedSlot p s st)"
  unfolding ClearPromotedSlot_def using assms
proof (rule adjust_effect)
  fix c t assume "cand_ok c"
  then show "IsSlotPromoted (MarkSlotAsUrgent (ClearPromotedSlotBit c s) s) t \<Longrightarrow> IsSlotPromoted c t"
    by (simp add: cand_ok_def promoted.mem_clear)
qed (erule cand_ok_invalidate, simp add: slot_defs)

lemma cand_of_other_shard:
  assumes "getShardIndex q \<noteq> i"
  shows "cand_of (on_shard i f st) q = cand_of st q"
  using assms by (simp add: cand_of_def on_shard_def)

lemma snapshot_still_valid:
  assumes "pool_inv st" "i < 16" "sn \<in> set (map take_snapshot (shards st ! i))"
  shows "still_valid st sn"
proof -
  obtain p c where e: "(p, c) \<in> set (shards st ! i)" "sn = take_snapshot (p, c)" using assms(3) by auto
  have ok: "shard_ok i (shards st ! i)" using assms(1,2) by (simp add: pool_inv_def)
  then have "cand_of st p = Some c" using e(1) by (auto simp: shard_ok_def cand_of_def)
  then show ?thesis using e(2) snap_promoted_cand [OF urgent_in_range(2)] by (auto simp: still_valid_def)
qed

lemma analysis_pending:
  assumes "analyse_all hash64 hash16 st e scan sns = Inr a" "\<forall>sn \<in> set sns. still_valid st sn"
    "d \<in> set (an_decisions a)" "\<not> promote_entire_page d"
  shows "pending_ok st d"
proof -
  obtain sn where sn: "sn \<in> set sns" "justified sn (an_remove a) d"
    using assms(1,3) by (rule analyse_all_justified)
  then show ?thesis using assms(2,4) by (fastforce simp: justified_def still_valid_def pending_ok_def)
qed

inductive_cases pool_stepE: "pool_step hash64 hash16 (st, ph) y"

lemma pool_step_inv:
  assumes "pool_step hash64 hash16 (st, ph) (st', ph')" "pool_inv st" "phase_inv st ph"
  shows "pool_inv st' \<and> phase_inv st' ph'"
  using assms(1)
proof cases
  case (add p v n bf b)
  then show ?thesis using add_candidate_effect [OF assms(2)] phase_inv_worker assms(3) by blast
next
  case (access p s bf)
  then show ?thesis using access_effect [OF assms(2)] phase_inv_worker assms(3) by blast
next
  case (invalidate p s)
  then show ?thesis using invalidate_effect [OF assms(2)] phase_inv_worker assms(3) by blast
next
  case (snap i sns)
  then show ?thesis using assms(2,3) snapshot_still_valid [OF assms(2)] by auto
next
  case (analysis e scan sns a)
  then show ?thesis using assms(2,3) analysis_pending by auto
next
  case (writeback i a)
  have "pool_inv st'"
    unfolding writeback by (rule pool_inv_on_shard [OF assms(2)]) (rule write_back_shard_ok)
  moreover have "pending_ok st' d" if "d \<in> set (an_decisions a)" "\<not> promote_entire_page d"
    "Suc i \<le> getShardIndex (dec_page_id d)" for d
  proof -
    have "cand_of st' (dec_page_id d) = cand_of st (dec_page_id d)"
      unfolding writeback using that(3) by (intro cand_of_other_shard) simp
    then show ?thesis using assms(3) that writeback by (simp add: pending_ok_def)
  qed
  ultimately show ?thesis using writeback by auto
next
  case epoch
  then show ?thesis by (auto simp: ClearAllCandidatesByEpoch_def Let_def pool_inv_def shard_ok_def nth_replicate)
qed (use assms(2) in simp_all)

lemma pool_reach_inv:
  "pool_reach hash64 hash16 st0 x \<Longrightarrow> pool_inv st0 \<Longrightarrow> pool_inv (fst x) \<and> phase_inv (fst x) (snd x)"
proof (induction rule: pool_reach.induct)
  case (step x y)
  then show ?case using pool_step_inv [of hash64 hash16 "fst x" "snd x" "fst y" "snd y"] by simp
qed simp

lemma pool_inv_new: "pool_inv (newDramHotPageCandidates rc sk un mv w)"
  by (simp add: pool_inv_def newDramHotPageCandidates_def shard_ok_def)


section \<open>Witness\<close>

lemma reach_snaps:
  assumes "pool_reach hash64 hash16 st0 (st, Idle)" "k \<le> 16"
  shows "pool_reach hash64 hash16 st0 (st, Snapping (concat (map (\<lambda>i. map take_snapshot (shards st ! i)) [0..<k])) k)"
  using assms(2)
proof (induction k)
  case 0
  show ?case using pool_reach.step [OF assms(1) pool_step.start] by simp
next
  case (Suc k)
  then have "pool_reach hash64 hash16 st0 (st, Snapping (concat (map (\<lambda>i. map take_snapshot (shards st ! i)) [0..<k])) k)"
    by simp
  from pool_reach.step [OF this pool_step.snap] Suc.prems show ?case by simp
qed

definition sample_start :: candidates where
  "sample_start = newDramHotPageCandidates \<lparr>cms_row_num = 1, cms_col_num = 1, cms_matrix = [30], cms_hash_seeds = [7]\<rparr>
     (1 / 4) (1 / 2) 3000 0"

definition sample_added :: candidates where
  "sample_added = on_shard 5 (\<lambda>m. m @ [(5, sample_cand)]) sample_start"

lemma sample_add: "AddCandidate 5 9 4 64 sample_start = Inr (True, sample_added)"
  by (simp add: AddCandidate_def sample_start_def newDramHotPageCandidates_def sample_new sample_shard sample_added_def)


end
