(* ===== verification/TwoLevelAdmissionControl.thy ===== *)
theory TwoLevelAdmissionControl
  imports SampledVisitHistogram CandidateRounds
begin

text \<open>
  \<open>TwoLevelAdmissionControl.hpp\<close>: the interface that worker threads call on every record access and
  the background thread calls periodically. It composes the page histogram (first level), the
  candidate pool (second level) and, for the two baseline modes, queues of pages in order of recency.
  The objects it refers to are fields of its state; the page sketch is the histogram's and the record
  sketch the pool's, as in the source, where they are shared by reference.
\<close>

section \<open>Recency queues\<close>

text \<open>
  A \<open>std::list\<close> of candidates with an \<open>unordered_map\<close> from page ids to iterators. A list node has an
  identity (its position in allocation order) that the iterators refer to and that \<open>splice\<close> keeps.
\<close>

record lru_list =
  lru_nodes :: "(nat \<times> u64 \<times> bf_ptr) list"
  lru_index :: "(u64 \<times> nat) list"
  lru_next :: nat

definition lru_empty :: lru_list where
  "lru_empty = \<lparr>lru_nodes = [], lru_index = [], lru_next = 0\<rparr>"

definition lru_touch :: "u64 \<Rightarrow> bf_ptr \<Rightarrow> lru_list \<Rightarrow> lru_list" where
  "lru_touch page_id bf q =
     (case map_of (lru_index q) page_id of
        Some n \<Rightarrow>
          let nodes = map (\<lambda>(i, p, b). if i = n then (i, p, bf) else (i, p, b)) (lru_nodes q)
          in q\<lparr>lru_nodes := filter (\<lambda>e. fst e = n) nodes @ filter (\<lambda>e. fst e \<noteq> n) nodes\<rparr>
      | None \<Rightarrow>
          q\<lparr>lru_nodes := (lru_next q, page_id, bf) # lru_nodes q,
            lru_index := (page_id, lru_next q) # lru_index q, lru_next := Suc (lru_next q)\<rparr>)"

definition page_decision :: "u64 \<Rightarrow> bf_ptr \<Rightarrow> promotion_decision" where
  "page_decision p b = \<lparr>dec_page_id = p, dec_cxl_bf = b, promote_entire_page = True, hot_slot_ids = [], is_urgent = False\<rparr>"

text \<open>The loop that pops at most a batch of nodes from the front.\<close>

fun lru_promote :: "nat \<Rightarrow> lru_list \<Rightarrow> promotion_decision list \<times> lru_list" where
  "lru_promote 0 q = ([], q)"
| "lru_promote (Suc n) q =
     (case lru_nodes q of
        [] \<Rightarrow> ([], q)
      | (_, p, b) # rest \<Rightarrow>
          let (ds, q') = lru_promote n (q\<lparr>lru_nodes := rest, lru_index := map_erase p (lru_index q)\<rparr>)
          in (page_decision p b # ds, q'))"

section \<open>State and flags\<close>

record admission_flags =
  FLAGS_tiering :: tiering_flags
  FLAGS_admission_mode :: string
  FLAGS_admission_scan_mode :: bool
  FLAGS_lru_background_promote_batch :: u64
  FLAGS_page_cms_row_num :: u64
  FLAGS_page_cms_col_num :: u64
  FLAGS_record_cms_row_num :: u64
  FLAGS_record_cms_col_num :: u64
  FLAGS_visit_histogram_bucket_num :: u64
  FLAGS_max_sampled_page_ids :: u64
  FLAGS_trigger_visit_histogram_update_size :: u64
  FLAGS_skew_threshold_ratio :: double
  FLAGS_uniform_threshold_ratio :: double
  FLAGS_max_per_page_visits :: u64
  FLAGS_max_global_requests_window :: u64

record admission =
  page_visit_histogram :: histogram
  dram_hot_page_candidates :: candidates
  lru_candidates :: lru_list
  page_only_candidates :: lru_list
  cached_fill_ratio :: double

section \<open>Operations\<close>

text \<open>The part that both worker entry points share: the baseline modes, and the first level.\<close>

definition page_only_access ::
    "(u64 \<Rightarrow> u64) \<Rightarrow> bool \<Rightarrow> u64 \<Rightarrow> bf_ptr \<Rightarrow> admission \<Rightarrow> admission" where
  "page_only_access hash64 try_lock page_id bf a =
     (let h = WorkerThreadOnPageAccess hash64 try_lock page_id (page_visit_histogram a);
          threshold = current_admission_threshold_fine h;
          visits = CMSGetPageAccessCount hash64 (page_cms h) page_id;
          a = a\<lparr>page_visit_histogram := h\<rparr>
      in if 1 < threshold \<and> threshold \<le> visits
         then a\<lparr>page_only_candidates := lru_touch page_id bf (page_only_candidates a)\<rparr> else a)"

definition first_level ::
    "(u64 \<Rightarrow> u64) \<Rightarrow> bool \<Rightarrow> u64 \<Rightarrow> u16 \<Rightarrow> bf_ptr \<Rightarrow> admission \<Rightarrow> (bool \<times> admission) result" where
  "first_level hash64 try_lock page_id slots bf a =
     (let h = WorkerThreadOnPageAccess hash64 try_lock page_id (page_visit_histogram a);
          c = cand_OnPageAccess (dram_hot_page_candidates a);
          a = a\<lparr>page_visit_histogram := h, dram_hot_page_candidates := c\<rparr>
      in bindR (effective_threshold (current_admission_threshold_fine h) (cached_fill_ratio a)) (\<lambda>threshold.
         let visits = CMSGetPageAccessCount hash64 (page_cms h) page_id
         in if 1 < threshold \<and> threshold \<le> visits
            then bindR (AddCandidate page_id visits slots bf c) (\<lambda>(_, c).
                   Inr (True, a\<lparr>dram_hot_page_candidates := c\<rparr>))
            else Inr (False, a)))"

definition OnRecordAccess ::
    "admission_flags \<Rightarrow> (u64 \<Rightarrow> u64) \<Rightarrow> (u16 \<Rightarrow> u64) \<Rightarrow> bool \<Rightarrow> u64 \<Rightarrow> u16 \<Rightarrow> bool \<Rightarrow> u16 \<Rightarrow> bf_ptr
      \<Rightarrow> admission \<Rightarrow> admission result" where
  "OnRecordAccess F hash64 hash16 try_lock page_id slot_id is_in_dram slots bf a =
     (if is_in_dram then Inr a
      else if FLAGS_admission_mode F = ''lru'' then
        Inr (a\<lparr>lru_candidates := lru_touch page_id bf (lru_candidates a)\<rparr>)
      else if FLAGS_admission_mode F = ''page_only'' then Inr (page_only_access hash64 try_lock page_id bf a)
      else bindR (first_level hash64 try_lock page_id slots bf a) (\<lambda>(pass, a).
        if pass \<or> Contains (dram_hot_page_candidates a) page_id
        then Inr (a\<lparr>dram_hot_page_candidates :=
                      cand_OnRecordAccess hash64 hash16 page_id slot_id bf (dram_hot_page_candidates a)\<rparr>)
        else Inr a))"

definition OnPageAccessForScan ::
    "admission_flags \<Rightarrow> (u64 \<Rightarrow> u64) \<Rightarrow> bool \<Rightarrow> u64 \<Rightarrow> bool \<Rightarrow> u16 \<Rightarrow> bf_ptr \<Rightarrow> admission \<Rightarrow> admission result" where
  "OnPageAccessForScan F hash64 try_lock page_id is_in_dram slots bf a =
     (if is_in_dram then Inr a
      else if FLAGS_admission_mode F = ''lru'' then
        Inr (a\<lparr>lru_candidates := lru_touch page_id bf (lru_candidates a)\<rparr>)
      else if FLAGS_admission_mode F = ''page_only'' then Inr (page_only_access hash64 try_lock page_id bf a)
      else bindR (first_level hash64 try_lock page_id slots bf a) (\<lambda>(_, a). Inr a))"

definition OnRecordInvalidated :: "u64 \<Rightarrow> u16 \<Rightarrow> admission \<Rightarrow> admission" where
  "OnRecordInvalidated page_id slot_id a =
     a\<lparr>dram_hot_page_candidates := ClearPromotedSlot page_id slot_id (dram_hot_page_candidates a)\<rparr>"

text \<open>What happens at an epoch boundary, after the round of decisions.\<close>

definition epoch_boundary ::
    "bool \<Rightarrow> promotion_decision list \<Rightarrow> candidates \<Rightarrow> promotion_decision list \<times> candidates" where
  "epoch_boundary scan_mode ds c =
     (let ds = (if scan_mode then ds @ CollectAllAsFullPagePromotions c else ds);
          c = c\<lparr>record_cms := CMSAging (record_cms c)\<rparr>
      in (ds, snd (ClearAllCandidatesByEpoch c)))"

definition BackgroundRoutine ::
    "admission_flags \<Rightarrow> (u64 \<Rightarrow> u64) \<Rightarrow> (u16 \<Rightarrow> u64) \<Rightarrow> double \<Rightarrow> admission
      \<Rightarrow> (promotion_decision list \<times> admission) result" where
  "BackgroundRoutine F hash64 hash16 fill a =
     (let a = a\<lparr>cached_fill_ratio := fill\<rparr>;
          batch = unat (FLAGS_lru_background_promote_batch F)
      in if FLAGS_admission_mode F = ''lru'' then
           let (ds, q) = lru_promote batch (lru_candidates a) in Inr (ds, a\<lparr>lru_candidates := q\<rparr>)
         else if FLAGS_admission_mode F = ''page_only'' then
           bindR (BackgroundThreadTryUpdate (FLAGS_tiering F) hash64 (page_visit_histogram a)) (\<lambda>(_, h).
             let (ds, q) = lru_promote batch (page_only_candidates a)
             in Inr (ds, a\<lparr>page_visit_histogram := h, page_only_candidates := q\<rparr>))
         else
           bindR (BackgroundThreadTryUpdate (FLAGS_tiering F) hash64 (page_visit_histogram a)) (\<lambda>(epoch_tick, h).
           bindR (CheckAndPromote hash64 hash16 (current_admission_threshold_fine h) fill
                    (FLAGS_admission_scan_mode F) (dram_hot_page_candidates a)) (\<lambda>(ds, c).
             let (ds, c) = (if epoch_tick then epoch_boundary (FLAGS_admission_scan_mode F) ds c else (ds, c))
             in Inr (ds, a\<lparr>page_visit_histogram := h, dram_hot_page_candidates := c\<rparr>))))"

subsection \<open>Construction\<close>

definition ResolvePageCMSColNum :: "admission_flags \<Rightarrow> u64 result" where
  "ResolvePageCMSColNum F =
     (let T = FLAGS_tiering F;
          cached_gib = dadd (dadd (FLAGS_cxl_gib T) (FLAGS_dram_buffer_pool_gib T)) (FLAGS_dram_recordcache_gib T)
      in if cached_gib \<le> 0 then Inr (FLAGS_page_cms_col_num F)
         else bindR (cast_u64 (dmul (dmul (dmul cached_gib 1024) 1024) 1024)) (\<lambda>bytes.
              let total_pages = bytes div (16 * 1024)
              in bindR (cast_u64 (dmul (double_of_u64 total_pages) 4)) (\<lambda>col.
                 let col = (if col < 256 * 1024 then 256 * 1024 else col);
                     col = (if 8 * 1024 * 1024 < col then 8 * 1024 * 1024 else col)
                 in Inr col)))"

definition newTwoLevelAdmissionControl :: "admission_flags \<Rightarrow> admission result" where
  "newTwoLevelAdmissionControl F =
     bindR (ResolvePageCMSColNum F) (\<lambda>cols.
       Inr \<lparr>page_visit_histogram = newSampledVisitHistogram
              (newCountMinSketch (unat (FLAGS_page_cms_row_num F)) (unat cols))
              (newDepulicateSet (FLAGS_max_sampled_page_ids F) (FLAGS_trigger_visit_histogram_update_size F))
              (newVisitFrequencyBucketArray (unat (FLAGS_visit_histogram_bucket_num F))),
            dram_hot_page_candidates = newDramHotPageCandidates
              (newCountMinSketch (unat (FLAGS_record_cms_row_num F)) (unat (FLAGS_record_cms_col_num F)))
              (FLAGS_skew_threshold_ratio F) (FLAGS_uniform_threshold_ratio F)
              (FLAGS_max_per_page_visits F) (FLAGS_max_global_requests_window F),
            lru_candidates = lru_empty, page_only_candidates = lru_empty, cached_fill_ratio = 0\<rparr>)"

definition ConfigureDynamicMaxPerPageVisits ::
    "admission_flags \<Rightarrow> (double \<Rightarrow> double \<Rightarrow> double) \<Rightarrow> (double \<Rightarrow> double) \<Rightarrow> double \<Rightarrow> double \<Rightarrow> u64
      \<Rightarrow> admission \<Rightarrow> admission result" where
  "ConfigureDynamicMaxPerPageVisits F fpow flog working_set_gib zipf_theta page_size_bytes a =
     bindR (GetDRAMvsCXLRatio (FLAGS_tiering F)) (\<lambda>dram_ratio.
     bindR (ComputeDynamicMaxPerPageVisits fpow flog working_set_gib zipf_theta
              (FLAGS_trigger_visit_histogram_update_size F) dram_ratio page_size_bytes) (\<lambda>dyn.
       Inr (a\<lparr>dram_hot_page_candidates := SetDynamicMaxPerPageVisits dyn (dram_hot_page_candidates a)\<rparr>)))"

section \<open>Recency queues refine a move-to-front list\<close>

definition lru_inv :: "lru_list \<Rightarrow> bool" where
  "lru_inv q \<longleftrightarrow> distinct (map fst (lru_nodes q)) \<and> distinct (map (fst \<circ> snd) (lru_nodes q))
     \<and> (\<forall>(i, _) \<in> set (lru_nodes q). i < lru_next q)
     \<and> (\<forall>p n. map_of (lru_index q) p = Some n \<longleftrightarrow> (\<exists>b. (n, p, b) \<in> set (lru_nodes q)))"

definition lru_abs :: "lru_list \<Rightarrow> (u64 \<times> bf_ptr) list" where
  "lru_abs q = map snd (lru_nodes q)"

text \<open>The contract the admission logic relies on: most recently touched pages first, each once.\<close>

locale recency_queue =
  fixes touch :: "u64 \<Rightarrow> bf_ptr \<Rightarrow> 'q \<Rightarrow> 'q" and promote :: "nat \<Rightarrow> 'q \<Rightarrow> promotion_decision list \<times> 'q"
    and contents :: "'q \<Rightarrow> (u64 \<times> bf_ptr) list" and qinv :: "'q \<Rightarrow> bool"
  assumes inv_touch: "qinv q \<Longrightarrow> qinv (touch p b q)"
    and touch_front: "qinv q \<Longrightarrow> contents (touch p b q) = (p, b) # filter (\<lambda>e. fst e \<noteq> p) (contents q)"
    and inv_promote: "qinv q \<Longrightarrow> qinv (snd (promote n q))"
    and promote_take: "qinv q \<Longrightarrow> fst (promote n q) = map (\<lambda>(p, b). page_decision p b) (take n (contents q))"
    and promote_drop: "qinv q \<Longrightarrow> contents (snd (promote n q)) = drop n (contents q)"
begin

lemma inv_run: "qinv q \<Longrightarrow> qinv (fold (\<lambda>(p, b). touch p b) accs q)"
  by (induction accs arbitrary: q) (auto simp: inv_touch)

lemma pages_run:
  assumes "qinv q" "contents q = []"
  shows "map fst (contents (fold (\<lambda>(p, b). touch p b) accs q)) = rev (remdups (map fst accs))"
proof (induction accs rule: rev_induct)
  case (snoc a accs)
  obtain p b where a: "a = (p, b)" by fastforce
  let ?q = "fold (\<lambda>(p, b). touch p b) accs q"
  have "contents (touch p b ?q) = (p, b) # filter (\<lambda>e. fst e \<noteq> p) (contents ?q)"
    by (rule touch_front [OF inv_run [OF assms(1)]])
  moreover have "map fst (filter (\<lambda>e. fst e \<noteq> p) (contents ?q)) = filter (\<lambda>x. x \<noteq> p) (map fst (contents ?q))"
    by (simp add: filter_map comp_def)
  moreover have "remdups (xs @ [p]) = filter (\<lambda>x. x \<noteq> p) (remdups xs) @ [p]" for xs :: "u64 list"
    by (induction xs) auto
  ultimately show ?case using snoc.IH by (simp add: a rev_filter)
qed (simp add: assms(2))

end

lemma filter_key:
  "distinct (map fst xs) \<Longrightarrow> (k, v) \<in> set xs \<Longrightarrow> filter (\<lambda>e. fst e = k) xs = [(k, v)]"
proof (induction xs)
  case (Cons x xs)
  have notin: "k \<notin> fst ` set ys \<Longrightarrow> (k, v) \<notin> set ys \<and> filter (\<lambda>e. fst e = k) ys = []" for ys :: "('a \<times> 'b) list"
    by (auto simp: filter_empty_conv image_iff)
  show ?case
  proof (cases "fst x = k")
    case True
    then have "k \<notin> fst ` set xs" using Cons.prems by auto
    then show ?thesis using True Cons.prems(2) notin by auto
  qed (use Cons in auto)
qed simp

lemma lru_indexD: "lru_inv q \<Longrightarrow> map_of (lru_index q) p = Some n \<longleftrightarrow> (\<exists>b. (n, p, b) \<in> set (lru_nodes q))"
  unfolding lru_inv_def by blast

lemma lru_unknown: "lru_inv q \<Longrightarrow> map_of (lru_index q) p = None \<Longrightarrow> (n, p, b) \<notin> set (lru_nodes q)"
  using lru_indexD [of q p n] by auto

lemma lru_page_id:
  "lru_inv q \<Longrightarrow> (n, p, b) \<in> set (lru_nodes q) \<Longrightarrow> (m, p', b') \<in> set (lru_nodes q) \<Longrightarrow> m = n \<longleftrightarrow> p' = p"
  unfolding lru_inv_def distinct_map inj_on_def by fastforce

lemma touch_known:
  assumes "lru_inv q" "map_of (lru_index q) p = Some n"
  shows "lru_touch p b q = q\<lparr>lru_nodes := (n, p, b) # filter (\<lambda>e. fst e \<noteq> n) (lru_nodes q)\<rparr>"
proof -
  obtain b0 where b0: "(n, p, b0) \<in> set (lru_nodes q)" using assms lru_indexD by blast
  let ?f = "\<lambda>(i, p :: u64, b'). if i = n then (i, p, b) else (i, p, b')"
  have "filter (\<lambda>e. fst e = n) (lru_nodes q) = [(n, p, b0)]"
    using assms(1) b0 by (intro filter_key) (simp_all add: lru_inv_def)
  moreover have "(\<lambda>e. fst e = n) \<circ> ?f = (\<lambda>e. fst e = n)" "(\<lambda>e. fst e \<noteq> n) \<circ> ?f = (\<lambda>e. fst e \<noteq> n)"
    by (auto simp: fun_eq_iff)
  moreover have "map ?f (filter (\<lambda>e. fst e \<noteq> n) (lru_nodes q)) = filter (\<lambda>e. fst e \<noteq> n) (lru_nodes q)"
    by (rule map_idI) auto
  ultimately show ?thesis using assms(2) by (simp add: lru_touch_def Let_def filter_map)
qed

lemma lru_touch_inv:
  assumes "lru_inv q"
  shows "lru_inv (lru_touch p b q)"
proof (cases "map_of (lru_index q) p")
  case None
  then have p: "(n, p, b') \<notin> set (lru_nodes q)" for n b' using lru_unknown [OF assms] by blast
  have next_id: "(lru_next q, e) \<notin> set (lru_nodes q)" for e using assms by (auto simp: lru_inv_def)
  have "p \<notin> (fst \<circ> snd) ` set (lru_nodes q)" "lru_next q \<notin> fst ` set (lru_nodes q)"
    using p next_id by auto
  moreover have "(case x of (i, _) \<Rightarrow> i < lru_next q) \<Longrightarrow> (case x of (i, _) \<Rightarrow> i < Suc (lru_next q))"
    for x :: "nat \<times> u64 \<times> bf_ptr" by auto
  ultimately show ?thesis using assms None p unfolding lru_inv_def lru_touch_def by simp blast
next
  case (Some n)
  then obtain b0 where b0: "(n, p, b0) \<in> set (lru_nodes q)" using lru_indexD [OF assms] by blast
  note page = lru_page_id [OF assms b0]
  have "distinct (map fst (filter P (lru_nodes q)))" "distinct (map (fst \<circ> snd) (filter P (lru_nodes q)))" for P
    using assms by (simp_all add: lru_inv_def distinct_map_filter)
  moreover have "p \<notin> (fst \<circ> snd) ` set (filter (\<lambda>e. fst e \<noteq> n) (lru_nodes q))" using page by fastforce
  moreover have "(\<exists>b'. (m, p', b') \<in> set ((n, p, b) # filter (\<lambda>e. fst e \<noteq> n) (lru_nodes q)))
      \<longleftrightarrow> (\<exists>b'. (m, p', b') \<in> set (lru_nodes q))" for m p'
    using page b0 by (cases "p' = p") auto
  moreover have "n < lru_next q" using assms b0 by (auto simp: lru_inv_def)
  ultimately show ?thesis using assms unfolding touch_known [OF assms Some] lru_inv_def by auto
qed

lemma lru_touch_abs:
  assumes "lru_inv q"
  shows "lru_abs (lru_touch p b q) = (p, b) # filter (\<lambda>e. fst e \<noteq> p) (lru_abs q)"
proof (cases "map_of (lru_index q) p")
  case None
  then have "filter (\<lambda>e. fst e \<noteq> p) (lru_abs q) = lru_abs q"
    using lru_unknown [OF assms] by (auto simp: lru_abs_def filter_id_conv)
  then show ?thesis using None by (simp add: lru_touch_def lru_abs_def)
next
  case (Some n)
  then obtain b0 where b0: "(n, p, b0) \<in> set (lru_nodes q)" using lru_indexD [OF assms] by blast
  have "filter (\<lambda>e. fst e \<noteq> n) (lru_nodes q) = filter (\<lambda>e. fst (snd e) \<noteq> p) (lru_nodes q)"
    using lru_page_id [OF assms b0] by (intro filter_cong [OF refl]) fastforce
  then show ?thesis by (simp add: touch_known [OF assms Some] lru_abs_def filter_map comp_def)
qed

lemma lru_pop_inv:
  assumes "lru_inv q" "lru_nodes q = (n, p, b) # rest"
  shows "lru_inv (q\<lparr>lru_nodes := rest, lru_index := map_erase p (lru_index q)\<rparr>)"
  using assms unfolding lru_inv_def by (auto simp: image_iff)

lemma lru_promote_spec:
  "lru_inv q \<Longrightarrow> lru_inv (snd (lru_promote n q))
    \<and> fst (lru_promote n q) = map (\<lambda>(p, b). page_decision p b) (take n (lru_abs q))
    \<and> lru_abs (snd (lru_promote n q)) = drop n (lru_abs q)"
proof (induction n arbitrary: q)
  case (Suc n)
  show ?case
  proof (cases "lru_nodes q")
    case (Cons x rest)
    obtain i p b where x: "x = (i, p, b)" by (cases x) auto
    note IH = Suc.IH [OF lru_pop_inv [OF Suc.prems, OF Cons [unfolded x]]]
    then show ?thesis by (simp add: Cons x lru_abs_def case_prod_unfold Let_def)
  qed (use Suc.prems in \<open>simp add: lru_abs_def\<close>)
qed (simp add: lru_abs_def)

interpretation lru: recency_queue lru_touch lru_promote lru_abs lru_inv
  by unfold_locales (simp_all add: lru_touch_inv lru_touch_abs lru_promote_spec)

lemma lru_empty_inv [simp]: "lru_inv lru_empty" "lru_abs lru_empty = []"
  by (simp_all add: lru_inv_def lru_abs_def lru_empty_def)

end
