(* ===== verification/AdmissionRuns.thy ===== *)
theory AdmissionRuns
  imports TwoLevelAdmissionControl
begin

text \<open>
  What the admission control does over whole runs: sequences of worker calls, invalidations and
  background routines in any order, in each of the three admission modes.
\<close>

section \<open>Runs\<close>

definition adm_inv :: "admission \<Rightarrow> bool" where
  "adm_inv a \<longleftrightarrow> hist_inv (page_visit_histogram a) \<and> pool_inv (dram_hot_page_candidates a)
     \<and> lru_inv (lru_candidates a) \<and> lru_inv (page_only_candidates a)"

text \<open>The calls that workers and the background thread make, in the order the locks serialise them.\<close>

datatype adm_op =
    RecordAccess u64 u16 bool u16 bf_ptr bool
  | ScanAccess u64 bool u16 bf_ptr bool
  | Invalidated u64 u16
  | Background double

fun adm_step :: "admission_flags \<Rightarrow> (u64 \<Rightarrow> u64) \<Rightarrow> (u16 \<Rightarrow> u64) \<Rightarrow> adm_op \<Rightarrow> admission
    \<Rightarrow> (promotion_decision list \<times> admission) result" where
  "adm_step F hash64 hash16 (RecordAccess p s d n bf lk) a =
     bindR (OnRecordAccess F hash64 hash16 lk p s d n bf a) (\<lambda>a. Inr ([], a))"
| "adm_step F hash64 hash16 (ScanAccess p d n bf lk) a =
     bindR (OnPageAccessForScan F hash64 lk p d n bf a) (\<lambda>a. Inr ([], a))"
| "adm_step F hash64 hash16 (Invalidated p s) a = Inr ([], OnRecordInvalidated p s a)"
| "adm_step F hash64 hash16 (Background fill) a = BackgroundRoutine F hash64 hash16 fill a"

fun adm_run :: "admission_flags \<Rightarrow> (u64 \<Rightarrow> u64) \<Rightarrow> (u16 \<Rightarrow> u64) \<Rightarrow> adm_op list \<Rightarrow> admission
    \<Rightarrow> (promotion_decision list \<times> admission) result" where
  "adm_run F hash64 hash16 [] a = Inr ([], a)"
| "adm_run F hash64 hash16 (x # xs) a =
     bindR (adm_step F hash64 hash16 x a) (\<lambda>(ds, a).
     bindR (adm_run F hash64 hash16 xs a) (\<lambda>(ds', a). Inr (ds @ ds', a)))"

subsection \<open>Invariant\<close>

lemma pool_inv_record_access: "pool_inv c \<Longrightarrow> pool_inv (cand_OnRecordAccess hash64 hash16 p s bf c)"
  unfolding cand_OnRecordAccess_def
  by (rule pool_inv_on_shard) (simp_all add: shard_ok_adjust cand_ok_access)

lemma page_only_inv: "adm_inv a \<Longrightarrow> adm_inv (page_only_access hash64 lk p bf a)"
  by (simp add: adm_inv_def page_only_access_def Let_def hist_inv_access lru_touch_inv)

lemma first_level_cases:
  assumes "first_level hash64 lk p n bf a = Inr (pass, a')"
  obtains t c where
    "effective_threshold (current_admission_threshold_fine (page_visit_histogram a')) (cached_fill_ratio a) = Inr t"
    "page_visit_histogram a' = WorkerThreadOnPageAccess hash64 lk p (page_visit_histogram a)"
    "pass \<longleftrightarrow> 1 < t \<and> t \<le> CMSGetPageAccessCount hash64 (page_cms (page_visit_histogram a')) p"
    "if pass then \<exists>b. AddCandidate p (CMSGetPageAccessCount hash64 (page_cms (page_visit_histogram a')) p) n bf
        (cand_OnPageAccess (dram_hot_page_candidates a)) = Inr (b, c)
      else c = cand_OnPageAccess (dram_hot_page_candidates a)"
    "a' = a\<lparr>page_visit_histogram := page_visit_histogram a', dram_hot_page_candidates := c\<rparr>"
  using assms unfolding first_level_def Let_def by (auto split: if_splits)

lemma first_level_inv:
  assumes "adm_inv a" "first_level hash64 lk p n bf a = Inr (pass, a')"
  shows "adm_inv a'"
  using assms(2)
proof (cases rule: first_level_cases)
  case (1 t c)
  have "pool_inv (cand_OnPageAccess (dram_hot_page_candidates a))"
    using assms(1) by (simp add: adm_inv_def cand_OnPageAccess_def)
  with 1(4) have "pool_inv c" using add_candidate_effect by (cases pass) auto
  moreover have "hist_inv (page_visit_histogram a')" using assms(1) 1(2) by (simp add: adm_inv_def hist_inv_access)
  ultimately show ?thesis using assms(1) by (subst 1(5)) (simp add: adm_inv_def)
qed

lemma lru_access_inv: "adm_inv a \<Longrightarrow> adm_inv (a\<lparr>lru_candidates := lru_touch p bf (lru_candidates a)\<rparr>)"
  by (simp add: adm_inv_def lru_touch_inv)

lemma second_level_inv:
  "adm_inv a \<Longrightarrow> adm_inv (a\<lparr>dram_hot_page_candidates := cand_OnRecordAccess hash64 hash16 p s bf (dram_hot_page_candidates a)\<rparr>)"
  by (simp add: adm_inv_def pool_inv_record_access)

text \<open>What a call does in the two-level mode for a page that is not in DRAM.\<close>

lemma record_access_two_level:
  assumes "OnRecordAccess F hash64 hash16 lk p s False n bf a = Inr a'" "FLAGS_admission_mode F \<notin> {''lru'', ''page_only''}"
  obtains pass a1 where "first_level hash64 lk p n bf a = Inr (pass, a1)"
    "a' = (if pass \<or> Contains (dram_hot_page_candidates a1) p
       then a1\<lparr>dram_hot_page_candidates := cand_OnRecordAccess hash64 hash16 p s bf (dram_hot_page_candidates a1)\<rparr> else a1)"
proof -
  obtain pass a1 where f: "first_level hash64 lk p n bf a = Inr (pass, a1)"
    using assms unfolding OnRecordAccess_def by auto
  show ?thesis by (rule that [OF f]) (use assms f in \<open>auto simp: OnRecordAccess_def split: if_splits\<close>)
qed

lemma record_access_inv:
  assumes "adm_inv a" "OnRecordAccess F hash64 hash16 lk p s d n bf a = Inr a'"
  shows "adm_inv a'"
proof (cases "d \<or> FLAGS_admission_mode F \<in> {''lru'', ''page_only''}")
  case True
  then show ?thesis using assms by (auto simp: OnRecordAccess_def page_only_inv lru_access_inv split: if_splits)
next
  case False
  then have "OnRecordAccess F hash64 hash16 lk p s False n bf a = Inr a'"
    "FLAGS_admission_mode F \<notin> {''lru'', ''page_only''}" using assms(2) by simp_all
  then obtain pass a1 where "first_level hash64 lk p n bf a = Inr (pass, a1)"
    "a' = (if pass \<or> Contains (dram_hot_page_candidates a1) p
       then a1\<lparr>dram_hot_page_candidates := cand_OnRecordAccess hash64 hash16 p s bf (dram_hot_page_candidates a1)\<rparr> else a1)"
    by (rule record_access_two_level)
  then show ?thesis using first_level_inv [OF assms(1)] second_level_inv by presburger
qed

lemma scan_access_inv:
  assumes "adm_inv a" "OnPageAccessForScan F hash64 lk p d n bf a = Inr a'"
  shows "adm_inv a'"
proof (cases "d \<or> FLAGS_admission_mode F \<in> {''lru'', ''page_only''}")
  case True
  then show ?thesis using assms by (auto simp: OnPageAccessForScan_def page_only_inv lru_access_inv split: if_splits)
next
  case False
  then obtain pass where "first_level hash64 lk p n bf a = Inr (pass, a')"
    using assms(2) by (auto simp: OnPageAccessForScan_def)
  then show ?thesis by (rule first_level_inv [OF assms(1)])
qed

lemma epoch_boundary_inv: "pool_inv c \<Longrightarrow> pool_inv (snd (epoch_boundary scan ds c))"
  by (simp add: epoch_boundary_def ClearAllCandidatesByEpoch_def Let_def pool_inv_def shard_ok_def)

lemma try_update_inv:
  "hist_inv h \<Longrightarrow> BackgroundThreadTryUpdate F hash64 h = Inr (u, h') \<Longrightarrow> hist_inv h'"
  by (erule background_cases) (auto intro: hist_inv_update)

lemma background_mode_cases:
  assumes "BackgroundRoutine F hash64 hash16 fill a = Inr (ds, a')"
  obtains (lru) "FLAGS_admission_mode F = ''lru''"
      "ds = fst (lru_promote (unat (FLAGS_lru_background_promote_batch F)) (lru_candidates a))"
      "a' = a\<lparr>cached_fill_ratio := fill,
         lru_candidates := snd (lru_promote (unat (FLAGS_lru_background_promote_batch F)) (lru_candidates a))\<rparr>"
  | (page_only) u h where "FLAGS_admission_mode F = ''page_only''"
      "BackgroundThreadTryUpdate (FLAGS_tiering F) hash64 (page_visit_histogram a) = Inr (u, h)"
      "ds = fst (lru_promote (unat (FLAGS_lru_background_promote_batch F)) (page_only_candidates a))"
      "a' = a\<lparr>cached_fill_ratio := fill, page_visit_histogram := h,
         page_only_candidates := snd (lru_promote (unat (FLAGS_lru_background_promote_batch F)) (page_only_candidates a))\<rparr>"
  | (two_level) u h ds' c where "FLAGS_admission_mode F \<notin> {''lru'', ''page_only''}"
      "BackgroundThreadTryUpdate (FLAGS_tiering F) hash64 (page_visit_histogram a) = Inr (u, h)"
      "CheckAndPromote hash64 hash16 (current_admission_threshold_fine h) fill
         (FLAGS_admission_scan_mode F) (dram_hot_page_candidates a) = Inr (ds', c)"
      "ds = (if u then fst (epoch_boundary (FLAGS_admission_scan_mode F) ds' c) else ds')"
      "a' = a\<lparr>cached_fill_ratio := fill, page_visit_histogram := h,
         dram_hot_page_candidates := (if u then snd (epoch_boundary (FLAGS_admission_scan_mode F) ds' c) else c)\<rparr>"
proof (cases "FLAGS_admission_mode F = ''lru'' \<or> FLAGS_admission_mode F = ''page_only''")
  case True
  then show ?thesis using assms unfolding BackgroundRoutine_def Let_def
    by (auto simp: case_prod_unfold intro: lru page_only)
next
  case False
  then obtain u h ds' c where "BackgroundThreadTryUpdate (FLAGS_tiering F) hash64 (page_visit_histogram a) = Inr (u, h)"
    "CheckAndPromote hash64 hash16 (current_admission_threshold_fine h) fill
      (FLAGS_admission_scan_mode F) (dram_hot_page_candidates a) = Inr (ds', c)"
    using assms unfolding BackgroundRoutine_def Let_def by auto
  then show ?thesis using assms False unfolding BackgroundRoutine_def Let_def
    by (intro two_level [of u h ds' c]) (auto simp: case_prod_unfold split: if_splits)
qed

lemma background_inv:
  assumes "adm_inv a" "BackgroundRoutine F hash64 hash16 fill a = Inr (ds, a')"
  shows "adm_inv a'"
  using assms(2)
proof (cases rule: background_mode_cases)
  case lru
  then show ?thesis using assms(1) by (simp add: adm_inv_def lru.inv_promote)
next
  case (page_only u h)
  have "hist_inv h" using try_update_inv [OF _ page_only(2)] assms(1) by (simp add: adm_inv_def)
  then show ?thesis using page_only(4) assms(1) by (simp add: adm_inv_def lru.inv_promote)
next
  case (two_level u h ds' c)
  have "pool_inv c" using two_level(3) assms(1) by (elim CheckAndPromote_cases) (simp add: pool_inv_write_back adm_inv_def)
  moreover have "hist_inv h" using try_update_inv [OF _ two_level(2)] assms(1) by (simp add: adm_inv_def)
  ultimately show ?thesis using two_level(5) assms(1) by (simp add: adm_inv_def epoch_boundary_inv)
qed

lemma invalidated_inv: "adm_inv a \<Longrightarrow> adm_inv (OnRecordInvalidated p s a)"
  by (simp add: OnRecordInvalidated_def adm_inv_def invalidate_effect)

lemma adm_step_inv: "adm_inv a \<Longrightarrow> adm_step F hash64 hash16 x a = Inr (ds, a') \<Longrightarrow> adm_inv a'"
  by (cases x) (auto dest: record_access_inv scan_access_inv background_inv intro: invalidated_inv)

lemma adm_run_inv: "adm_inv a \<Longrightarrow> adm_run F hash64 hash16 xs a = Inr (ds, a') \<Longrightarrow> adm_inv a'"
  by (induction xs arbitrary: a ds) (auto dest: adm_step_inv)

text \<open>The page sketch is as wide as the flag says, or between 2^18 and 2^23 columns.\<close>

lemma resolve_bounds:
  "ResolvePageCMSColNum F = Inr c \<Longrightarrow> c = FLAGS_page_cms_col_num F \<or> 262144 \<le> c \<and> c \<le> 8388608"
  by (auto simp: ResolvePageCMSColNum_def Let_def split: if_splits)

lemma adm_inv_new:
  assumes "newTwoLevelAdmissionControl F = Inr a" "0 < FLAGS_page_cms_row_num F" "0 < FLAGS_page_cms_col_num F"
    "0 < FLAGS_visit_histogram_bucket_num F" "FLAGS_visit_histogram_bucket_num F \<le> 63"
  shows "adm_inv a"
proof -
  obtain c where c: "ResolvePageCMSColNum F = Inr c" using assms(1) by (auto simp: newTwoLevelAdmissionControl_def)
  have "0 < c" using resolve_bounds [OF c] assms(3) by (auto intro: less_le_trans [of 0 "262144 :: u64"])
  then have "0 < unat c" "0 < unat (FLAGS_page_cms_row_num F)" "0 < unat (FLAGS_visit_histogram_bucket_num F)"
    "unat (FLAGS_visit_histogram_bucket_num F) \<le> 63"
    using assms(2-5) by (simp_all add: word_less_nat_alt word_le_nat_alt)
  then show ?thesis using assms(1) c
    by (auto simp: newTwoLevelAdmissionControl_def adm_inv_def hist_inv_new pool_inv_new)
qed


subsection \<open>Recency mode\<close>

text \<open>The pages outside DRAM that a worker call touches.\<close>

fun touched :: "adm_op \<Rightarrow> (u64 \<times> bf_ptr) list" where
  "touched (RecordAccess p s d n bf lk) = (if d then [] else [(p, bf)])"
| "touched (ScanAccess p d n bf lk) = (if d then [] else [(p, bf)])"
| "touched _ = []"

fun worker_call :: "adm_op \<Rightarrow> bool" where
  "worker_call (Background _) = False"
| "worker_call _ = True"

lemma lru_mode_step:
  assumes "FLAGS_admission_mode F = ''lru''" "worker_call x"
  shows "\<exists>a'. adm_step F hash64 hash16 x a = Inr ([], a')
    \<and> lru_candidates a' = fold (\<lambda>(p, b). lru_touch p b) (touched x) (lru_candidates a)"
  using assms by (cases x) (auto simp: OnRecordAccess_def OnPageAccessForScan_def OnRecordInvalidated_def)

lemma lru_mode_run:
  assumes "FLAGS_admission_mode F = ''lru''"
  shows "list_all worker_call xs \<Longrightarrow> \<exists>a'. adm_run F hash64 hash16 xs a = Inr ([], a')
    \<and> lru_candidates a' = fold (\<lambda>(p, b). lru_touch p b) (concat (map touched xs)) (lru_candidates a)"
proof (induction xs arbitrary: a)
  case (Cons x xs)
  then have "worker_call x" by simp
  from lru_mode_step [OF assms this] obtain a1 where a1: "adm_step F hash64 hash16 x a = Inr ([], a1)"
    "lru_candidates a1 = fold (\<lambda>(p, b). lru_touch p b) (touched x) (lru_candidates a)"
    by blast
  then show ?case using Cons.IH [of a1] Cons.prems by auto
qed simp

text \<open>
  C35. In mode \<open>lru\<close>, any sequence of worker calls followed by a background routine completes, and the
  routine promotes whole pages: the distinct pages accessed outside DRAM, most recent access first, up
  to the batch size. The queue with its index of iterators is a move-to-front list.
\<close>

theorem lru_mode_promotes_most_recent:
  assumes "FLAGS_admission_mode F = ''lru''" "lru_candidates a = lru_empty" "list_all worker_call xs"
  shows "\<exists>a1 ds a2. adm_run F hash64 hash16 xs a = Inr ([], a1) \<and> adm_step F hash64 hash16 (Background fill) a1 = Inr (ds, a2)
    \<and> map dec_page_id ds = take (unat (FLAGS_lru_background_promote_batch F))
        (rev (remdups (map fst (concat (map touched xs)))))
    \<and> list_all promote_entire_page ds"
proof -
  obtain a1 where a1: "adm_run F hash64 hash16 xs a = Inr ([], a1)"
    "lru_candidates a1 = fold (\<lambda>(p, b). lru_touch p b) (concat (map touched xs)) lru_empty"
    using lru_mode_run [OF assms(1,3)] assms(2) by metis
  let ?n = "unat (FLAGS_lru_background_promote_batch F)"
  obtain a2 where a2: "adm_step F hash64 hash16 (Background fill) a1 = Inr (fst (lru_promote ?n (lru_candidates a1)), a2)"
    using assms(1) by (auto simp: BackgroundRoutine_def Let_def case_prod_unfold)
  have inv: "lru_inv (lru_candidates a1)" unfolding a1(2) by (rule lru.inv_run [OF lru_empty_inv(1)])
  have ds: "fst (lru_promote ?n (lru_candidates a1)) = map (\<lambda>(p, b). page_decision p b) (take ?n (lru_abs (lru_candidates a1)))"
    by (rule lru.promote_take [OF inv])
  have "map dec_page_id (fst (lru_promote ?n (lru_candidates a1))) = take ?n (map fst (lru_abs (lru_candidates a1)))"
    unfolding ds by (simp add: page_decision_def take_map comp_def case_prod_unfold)
  moreover have "list_all promote_entire_page (fst (lru_promote ?n (lru_candidates a1)))"
    unfolding ds by (auto simp: list_all_iff page_decision_def)
  ultimately show ?thesis
    using a1(1) a2 lru.pages_run [OF lru_empty_inv(1,2), of "concat (map touched xs)"] unfolding a1(2) by auto
qed

subsection \<open>Two-level mode\<close>

lemma first_level_pool:
  assumes "adm_inv a" "first_level hash64 lk p n bf a = Inr (pass, a')"
  shows "record_cms (dram_hot_page_candidates a') = record_cms (dram_hot_page_candidates a)"
    "cand_of (dram_hot_page_candidates a) q = Some e \<Longrightarrow> cand_of (dram_hot_page_candidates a') q = Some e"
    "cand_of (dram_hot_page_candidates a') p \<noteq> None \<longleftrightarrow> pass \<or> cand_of (dram_hot_page_candidates a) p \<noteq> None"
proof -
  obtain c where c: "if pass then \<exists>b v. AddCandidate p v n bf (cand_OnPageAccess (dram_hot_page_candidates a)) = Inr (b, c)
      else c = cand_OnPageAccess (dram_hot_page_candidates a)" "dram_hot_page_candidates a' = c"
    using assms(2)
  proof (cases rule: first_level_cases)
    case (1 t c)
    have "dram_hot_page_candidates a' = c" by (subst 1(5)) simp
    then show ?thesis using that 1(4) by (auto split: if_splits)
  qed
  have inv: "pool_inv (cand_OnPageAccess (dram_hot_page_candidates a))"
    using assms(1) by (simp add: adm_inv_def cand_OnPageAccess_def)
  have same: "record_cms (cand_OnPageAccess d) = record_cms d" "cand_of (cand_OnPageAccess d) = cand_of d" for d
    by (simp_all add: cand_OnPageAccess_def)
  have keeps: "record_cms c = record_cms (dram_hot_page_candidates a)
      \<and> (cand_of (dram_hot_page_candidates a) q = Some e \<longrightarrow> cand_of c q = Some e)
      \<and> (cand_of c p \<noteq> None \<longleftrightarrow> pass \<or> cand_of (dram_hot_page_candidates a) p \<noteq> None)" for q e
  proof (cases pass)
    case True
    then obtain b v where "AddCandidate p v n bf (cand_OnPageAccess (dram_hot_page_candidates a)) = Inr (b, c)"
      using c(1) by auto
    from add_candidate_keeps [OF inv this, of q e] show ?thesis using True by (simp add: same)
  qed (use c(1) in \<open>simp add: same\<close>)
  show "record_cms (dram_hot_page_candidates a') = record_cms (dram_hot_page_candidates a)"
    "cand_of (dram_hot_page_candidates a) q = Some e \<Longrightarrow> cand_of (dram_hot_page_candidates a') q = Some e"
    "cand_of (dram_hot_page_candidates a') p \<noteq> None \<longleftrightarrow> pass \<or> cand_of (dram_hot_page_candidates a) p \<noteq> None"
    using keeps [of q e] unfolding c(2) by blast+
qed

text \<open>
  In the two-level mode a scan contributes to the page level only: it leaves the record sketch and
  every existing candidate (its slot sets and its visit count) as they are.
\<close>

theorem scan_leaves_records_alone:
  assumes "adm_inv a" "FLAGS_admission_mode F \<notin> {''lru'', ''page_only''}"
    "OnPageAccessForScan F hash64 lk p d n bf a = Inr a'"
  shows "record_cms (dram_hot_page_candidates a') = record_cms (dram_hot_page_candidates a)
    \<and> (\<forall>q c. cand_of (dram_hot_page_candidates a) q = Some c \<longrightarrow> cand_of (dram_hot_page_candidates a') q = Some c)"
proof (cases d)
  case False
  then obtain pass where "first_level hash64 lk p n bf a = Inr (pass, a')"
    using assms(2,3) by (auto simp: OnPageAccessForScan_def)
  then show ?thesis using first_level_pool [OF assms(1)] by blast
qed (use assms(3) in \<open>simp add: OnPageAccessForScan_def\<close>)

lemma Contains_cand: "Contains st p \<longleftrightarrow> cand_of st p \<noteq> None"
  by (simp add: Contains_def cand_of_def)

lemma access_candidate:
  assumes "pool_inv c"
  shows "record_cms (cand_OnRecordAccess hash64 hash16 p s bf c) = CMSRecordAccessUpdate hash64 hash16 (record_cms c) p s"
    "unat s < 512 \<Longrightarrow> cand_of c p \<noteq> None \<Longrightarrow>
       \<exists>e. cand_of (cand_OnRecordAccess hash64 hash16 p s bf c) p = Some e \<and> IsSlotAccessed e s"
proof -
  show "record_cms (cand_OnRecordAccess hash64 hash16 p s bf c) = CMSRecordAccessUpdate hash64 hash16 (record_cms c) p s"
    by (simp add: cand_OnRecordAccess_def on_shard_def)
  assume s: "unat s < 512" and "cand_of c p \<noteq> None"
  then obtain e where e: "cand_of c p = Some e" by blast
  then have "cand_wf (if bf \<noteq> 0 then e\<lparr>cxl_bf := bf\<rparr> else e)"
    using cand_of_ok [OF assms] by (auto simp: cand_ok_def cand_wf_def)
  then show "\<exists>e. cand_of (cand_OnRecordAccess hash64 hash16 p s bf c) p = Some e \<and> IsSlotAccessed e s"
    using assms s e by (simp add: cand_OnRecordAccess_def cand_of_on_shard_adjust accessed.mem_mark)
qed

lemma first_level_total:
  assumes "0 < n" "unat n \<le> 512" "unat (current_admission_threshold_fine (page_visit_histogram a)) \<le> 2 ^ 53"
  obtains t a' where "effective_threshold (current_admission_threshold_fine (page_visit_histogram a)) (cached_fill_ratio a) = Inr t"
    "first_level hash64 lk p n bf a = Inr (1 < t \<and>
       t \<le> CMSGetPageAccessCount hash64 (CMSPageAccessUpdate hash64 (page_cms (page_visit_histogram a)) p) p, a')"
proof -
  have "\<exists>t. effective_threshold (current_admission_threshold_fine (page_visit_histogram a)) (cached_fill_ratio a) = Inr t"
    using effective_threshold_total [OF assms(3)] by (auto simp: effective_threshold_def)
  then obtain t where t: "effective_threshold (current_admission_threshold_fine (page_visit_histogram a)) (cached_fill_ratio a) = Inr t" ..
  have "\<exists>b c'. AddCandidate p v n bf c = Inr (b, c')" for v c
    using assms(1,2) by (auto simp: AddCandidate_def newHotPageCandidate_def assertR_def MAX_SLOTS_PER_PAGE_def)
  then obtain b c' where "AddCandidate p (CMSGetPageAccessCount hash64 (CMSPageAccessUpdate hash64 (page_cms (page_visit_histogram a)) p) p)
      n bf (cand_OnPageAccess (dram_hot_page_candidates a)) = Inr (b, c')" by blast
  with t show ?thesis
    by (cases "1 < t \<and> t \<le> CMSGetPageAccessCount hash64 (CMSPageAccessUpdate hash64 (page_cms (page_visit_histogram a)) p) p")
      (auto intro!: that [OF t] simp: first_level_def Let_def WorkerThreadOnPageAccess_def)
qed

text \<open>
  C34. A record access to a page outside DRAM always completes in the two-level mode (pages of 1 to 512
  slots, first-level threshold at most 2^53). The page is a candidate afterwards exactly when it was one
  before or its visit count, this access included, reaches the threshold scaled by the fill ratio; in
  that case the slot is marked as accessed and the access is counted in the record sketch, and
  otherwise the record sketch is untouched.
\<close>

theorem accesses_to_candidates_are_tracked:
  assumes "adm_inv a" "FLAGS_admission_mode F \<notin> {''lru'', ''page_only''}" "0 < n" "unat n \<le> 512" "unat s < 512"
    "unat (current_admission_threshold_fine (page_visit_histogram a)) \<le> 2 ^ 53"
  shows "\<exists>t a'. OnRecordAccess F hash64 hash16 lk p s False n bf a = Inr a'
    \<and> effective_threshold (current_admission_threshold_fine (page_visit_histogram a)) (cached_fill_ratio a) = Inr t
    \<and> Contains (dram_hot_page_candidates a') p = (Contains (dram_hot_page_candidates a) p
        \<or> 1 < t \<and> t \<le> CMSGetPageAccessCount hash64 (CMSPageAccessUpdate hash64 (page_cms (page_visit_histogram a)) p) p)
    \<and> (case cand_of (dram_hot_page_candidates a') p of
         Some c \<Rightarrow> IsSlotAccessed c s \<and> record_cms (dram_hot_page_candidates a')
           = CMSRecordAccessUpdate hash64 hash16 (record_cms (dram_hot_page_candidates a)) p s
       | None \<Rightarrow> record_cms (dram_hot_page_candidates a') = record_cms (dram_hot_page_candidates a))"
proof -
  obtain t a1 where t: "effective_threshold (current_admission_threshold_fine (page_visit_histogram a)) (cached_fill_ratio a) = Inr t"
    and f: "first_level hash64 lk p n bf a = Inr (1 < t \<and>
       t \<le> CMSGetPageAccessCount hash64 (CMSPageAccessUpdate hash64 (page_cms (page_visit_histogram a)) p) p, a1)"
    using assms(3,4,6) by (rule first_level_total)
  let ?pass = "1 < t \<and> t \<le> CMSGetPageAccessCount hash64 (CMSPageAccessUpdate hash64 (page_cms (page_visit_histogram a)) p) p"
  let ?c = "dram_hot_page_candidates a1"
  note pool = first_level_pool(1,3) [OF assms(1) f]
  have inv: "pool_inv ?c" using first_level_inv [OF assms(1) f] by (simp add: adm_inv_def)
  show ?thesis
  proof (cases "cand_of ?c p")
    case None
    then have "OnRecordAccess F hash64 hash16 lk p s False n bf a = Inr a1"
      using assms(2) f pool(2) by (auto simp: OnRecordAccess_def Contains_cand)
    then show ?thesis using t pool None by (auto simp: Contains_cand)
  next
    case (Some e)
    let ?c' = "cand_OnRecordAccess hash64 hash16 p s bf ?c"
    have "OnRecordAccess F hash64 hash16 lk p s False n bf a = Inr (a1\<lparr>dram_hot_page_candidates := ?c'\<rparr>)"
      using assms(2) f Some by (simp add: OnRecordAccess_def Contains_cand)
    moreover obtain e' where "cand_of ?c' p = Some e'" "IsSlotAccessed e' s"
      using access_candidate(2) [OF inv assms(5)] Some by blast
    ultimately show ?thesis using t pool Some access_candidate(1) [OF inv] by (auto simp: Contains_cand)
  qed
qed

section \<open>Witnesses\<close>

definition sample_admission_flags :: "string \<Rightarrow> admission_flags" where
  "sample_admission_flags mode = \<lparr>FLAGS_tiering = sample_flags\<lparr>FLAGS_cxl_gib := 0,
       FLAGS_dram_recordcache_gib := 0, FLAGS_dram_buffer_pool_gib := 0\<rparr>,
     FLAGS_admission_mode = mode, FLAGS_admission_scan_mode = False, FLAGS_lru_background_promote_batch = 2,
     FLAGS_page_cms_row_num = 1, FLAGS_page_cms_col_num = 4, FLAGS_record_cms_row_num = 1, FLAGS_record_cms_col_num = 4,
     FLAGS_visit_histogram_bucket_num = 3, FLAGS_max_sampled_page_ids = 4, FLAGS_trigger_visit_histogram_update_size = 8,
     FLAGS_skew_threshold_ratio = 1 / 4, FLAGS_uniform_threshold_ratio = 1 / 2,
     FLAGS_max_per_page_visits = 3000, FLAGS_max_global_requests_window = 100\<rparr>"

definition sample_admission :: admission where
  "sample_admission = \<lparr>page_visit_histogram = newSampledVisitHistogram (newCountMinSketch 1 4)
       (newDepulicateSet 4 8) (newVisitFrequencyBucketArray 3),
     dram_hot_page_candidates = newDramHotPageCandidates (newCountMinSketch 1 4) (1 / 4) (1 / 2) 3000 100,
     lru_candidates = lru_empty, page_only_candidates = lru_empty, cached_fill_ratio = 0\<rparr>"

lemma sample_admission_new: "newTwoLevelAdmissionControl (sample_admission_flags mode) = Inr sample_admission"
  by (simp add: newTwoLevelAdmissionControl_def ResolvePageCMSColNum_def sample_admission_flags_def
      sample_admission_def sample_flags_def dadd_def)

lemma sample_admission_inv: "adm_inv sample_admission"
  by (rule adm_inv_new [OF sample_admission_new [of "''lru''"]]) (simp_all add: sample_admission_flags_def)

theorem lru_mode_promotes_most_recent_witness:
  "\<exists>a1 ds a2. adm_run (sample_admission_flags ''lru'') id ucast
      [RecordAccess 5 0 False 4 64 True, RecordAccess 7 1 False 4 65 True, ScanAccess 9 False 4 66 True,
       RecordAccess 8 0 True 4 67 True, RecordAccess 5 2 False 4 68 False] sample_admission = Inr ([], a1)
    \<and> adm_step (sample_admission_flags ''lru'') id ucast (Background 0) a1 = Inr (ds, a2)
    \<and> map dec_page_id ds = [5, 9] \<and> list_all promote_entire_page ds"
  using lru_mode_promotes_most_recent [of "sample_admission_flags ''lru''" sample_admission
      "[RecordAccess 5 0 False 4 64 True, RecordAccess 7 1 False 4 65 True, ScanAccess 9 False 4 66 True,
       RecordAccess 8 0 True 4 67 True, RecordAccess 5 2 False 4 68 False]" id ucast 0]
  by (simp add: sample_admission_def sample_admission_flags_def)

lemma sample_lru_run:
  "\<exists>a. adm_run (sample_admission_flags ''lru'') id ucast [RecordAccess 5 0 False 4 64 True, ScanAccess 7 False 4 65 True]
    sample_admission = Inr ([], a) \<and> lru_abs (lru_candidates a) = [(7, 65), (5, 64)]"
  by (simp add: OnRecordAccess_def OnPageAccessForScan_def sample_admission_flags_def sample_admission_def
      lru_touch_abs lru_touch_inv)


definition hot_admission :: admission where
  "hot_admission = sample_admission\<lparr>dram_hot_page_candidates := sample_pool,
     page_visit_histogram := (page_visit_histogram sample_admission)\<lparr>current_admission_threshold_coarse := 2,
       current_admission_threshold_fine := 2\<rparr>\<rparr>"

lemma hot_admission_inv: "adm_inv hot_admission"
  using sample_admission_inv sample_pool_inv by (simp add: hot_admission_def adm_inv_def hist_inv_def)

lemma hot_admission_threshold: "current_admission_threshold_fine (page_visit_histogram hot_admission) = 2"
  by (simp add: hot_admission_def)

theorem accesses_to_candidates_are_tracked_witness:
  "\<exists>a' c. OnRecordAccess (sample_admission_flags ''two_level'') id ucast True 5 3 False 4 64 hot_admission = Inr a'
    \<and> cand_of (dram_hot_page_candidates a') 5 = Some c \<and> IsSlotAccessed c 3"
proof -
  have "Contains (dram_hot_page_candidates hot_admission) 5"
    by (simp add: hot_admission_def Contains_cand sample_cand_of)
  then show ?thesis
    using accesses_to_candidates_are_tracked [OF hot_admission_inv, of "sample_admission_flags ''two_level''" 4 3 id ucast True 5 64]
    unfolding hot_admission_threshold
    by (auto simp: sample_admission_flags_def Contains_cand split: option.splits)
qed

theorem scan_leaves_records_alone_witness:
  "\<exists>a'. OnPageAccessForScan (sample_admission_flags ''two_level'') id True 5 False 4 64 hot_admission = Inr a'
    \<and> record_cms (dram_hot_page_candidates a') = record_cms sample_pool
    \<and> cand_of (dram_hot_page_candidates a') 5 = Some (MarkSlotAsAccessed sample_cand 2)"
proof -
  have mode: "FLAGS_admission_mode (sample_admission_flags ''two_level'') \<notin> {''lru'', ''page_only''}"
    by (simp add: sample_admission_flags_def)
  obtain t a' where "first_level id True 5 4 64 hot_admission = Inr (1 < t \<and> t \<le> CMSGetPageAccessCount id
      (CMSPageAccessUpdate id (page_cms (page_visit_histogram hot_admission)) 5) 5, a')"
    by (rule first_level_total [of 4 hot_admission]) (simp_all add: hot_admission_threshold)
  then have a': "OnPageAccessForScan (sample_admission_flags ''two_level'') id True 5 False 4 64 hot_admission = Inr a'"
    using mode by (simp add: OnPageAccessForScan_def)
  have "cand_of (dram_hot_page_candidates hot_admission) 5 = Some (MarkSlotAsAccessed sample_cand 2)"
    "record_cms (dram_hot_page_candidates hot_admission) = record_cms sample_pool"
    by (simp_all add: hot_admission_def sample_cand_of)
  then show ?thesis using scan_leaves_records_alone [OF hot_admission_inv mode a'] a' by auto
qed

end
