(* ===== verification/NodeKeys.thy ===== *)
theory NodeKeys
  imports Prelude "HOL-Library.List_Lexorder"
begin

text \<open>
  Keys of B-tree nodes (\<open>BTreeNode.hpp\<close>): byte strings compared as unsigned bytes, a shorter key
  before its extensions. \<open>cmpKeys\<close> decides that order, and \<open>head\<close> packs the first four bytes of a key
  into a 32-bit word whose order agrees with it.
\<close>

type_synonym u32 = "32 word"
type_synonym bytes = "u8 list"

section \<open>Comparison\<close>

text \<open>The byte loop, and \<open>memcmp\<close> of which only the sign is specified.\<close>

fun cmp_bytes :: "bytes \<Rightarrow> bytes \<Rightarrow> nat \<Rightarrow> int" where
  "cmp_bytes (x # xs) (y # ys) (Suc n) = (if x \<noteq> y then (if x < y then - 1 else 1) else cmp_bytes xs ys n)"
| "cmp_bytes _ _ _ = 0"

definition cmpKeys :: "bytes \<Rightarrow> bytes \<Rightarrow> int" where
  "cmpKeys a b =
     (let len = min (length a) (length b); c = cmp_bytes a b len
      in if c \<noteq> 0 then c else int (length a) - int (length b))"

lemma cmpKeys_Nil: "cmpKeys [] b = - int (length b)" "cmpKeys a [] = int (length a)"
  by (simp_all add: cmpKeys_def)

lemma cmpKeys_Cons:
  "cmpKeys (x # xs) (y # ys) = (if x < y then - 1 else if y < x then 1 else cmpKeys xs ys)"
  by (auto simp: cmpKeys_def Let_def)

lemma cmpKeys_sgn: "cmpKeys a b < 0 \<longleftrightarrow> a < b" "0 < cmpKeys a b \<longleftrightarrow> b < a" "cmpKeys a b = 0 \<longleftrightarrow> a = b"
proof -
  have "(cmpKeys a b < 0 \<longleftrightarrow> a < b) \<and> (0 < cmpKeys a b \<longleftrightarrow> b < a) \<and> (cmpKeys a b = 0 \<longleftrightarrow> a = b)"
  proof (induction a arbitrary: b)
    case Nil
    show ?case by (cases b) (simp_all add: cmpKeys_Nil)
  next
    case (Cons x xs)
    show ?case
    proof (cases b)
      case (Cons y ys)
      consider "x < y" | "y < x" | "x = y" by (rule linorder_cases)
      then show ?thesis by cases (auto simp: Cons cmpKeys_Cons Cons.IH dest: order_less_not_sym)
    qed (simp add: cmpKeys_Nil)
  qed
  then show "cmpKeys a b < 0 \<longleftrightarrow> a < b" "0 < cmpKeys a b \<longleftrightarrow> b < a" "cmpKeys a b = 0 \<longleftrightarrow> a = b" by simp_all
qed

section \<open>Heads\<close>

text \<open>Unaligned little-endian loads and the byte swaps of the compiler.\<close>

definition load16 :: "bytes \<Rightarrow> u16" where
  "load16 k = word_of_nat (unat (k ! 0) + 256 * unat (k ! 1))"

definition load32 :: "bytes \<Rightarrow> u32" where
  "load32 k = word_of_nat (unat (k ! 0) + 256 * (unat (k ! 1) + 256 * (unat (k ! 2) + 256 * unat (k ! 3))))"

definition bswap16 :: "u16 \<Rightarrow> u16" where
  "bswap16 w = word_of_nat (256 * (unat w mod 256) + unat w div 256)"

definition bswap32 :: "u32 \<Rightarrow> u32" where
  "bswap32 w = word_of_nat (2 ^ 24 * (unat w mod 256) + 2 ^ 16 * (unat w div 2 ^ 8 mod 256)
     + 2 ^ 8 * (unat w div 2 ^ 16 mod 256) + unat w div 2 ^ 24)"

definition head :: "bytes \<Rightarrow> u32" where
  "head key =
     (if length key = 0 then 0
      else if length key = 1 then push_bit 24 (ucast (key ! 0))
      else if length key = 2 then push_bit 16 (ucast (bswap16 (load16 key)))
      else if length key = 3 then push_bit 16 (ucast (bswap16 (load16 key))) OR push_bit 8 (ucast (key ! 2))
      else bswap32 (load32 key))"

text \<open>The value of a key in base 256, cut or padded to \<open>n\<close> digits.\<close>

fun key_value :: "nat \<Rightarrow> bytes \<Rightarrow> nat" where
  "key_value 0 _ = 0"
| "key_value (Suc n) [] = 0"
| "key_value (Suc n) (x # xs) = unat x * 256 ^ n + key_value n xs"

lemma digits_unique:
  assumes "a * m + r = b * m + (s :: nat)" "r < m" "s < m"
  shows "a = b \<and> r = s"
proof -
  have "(a * m + r) div m = a" "(b * m + s) div m = b" using assms(2,3) by simp_all
  then show ?thesis using assms(1) by simp
qed

lemma key_value_less: "key_value n k < 256 ^ n"
proof (induction n k rule: key_value.induct)
  case (3 n x xs)
  have "unat x < 256" using unsigned_less [of x, where ?'a = nat] by simp
  then have "(unat x + 1) * 256 ^ n \<le> 256 * 256 ^ n" by (intro mult_le_mono1) simp
  then have "unat x * 256 ^ n + 256 ^ n \<le> 256 ^ Suc n" by (simp only: add_mult_distrib mult_1 power_Suc)
  then show ?case using 3 by (simp only: key_value.simps)
qed simp_all

lemma key_value_order:
  "key_value n a < key_value n b \<Longrightarrow> a < b"
proof (induction n a arbitrary: b rule: key_value.induct)
  case (2 n)
  then show ?case by (cases b) auto
next
  case (3 n x xs)
  show ?case
  proof (cases b)
    case Nil
    then show ?thesis using 3 by simp
  next
    case (Cons y ys)
    have "\<not> unat y < unat x"
    proof
      assume "unat y < unat x"
      then have "(unat y + 1) * 256 ^ n \<le> unat x * 256 ^ n" by (intro mult_le_mono1) simp
      then show False using 3(2) key_value_less [of n ys] by (simp add: Cons)
    qed
    then show ?thesis using 3 by (cases "x = y") (auto simp: Cons word_less_nat_alt word_unat_eq_iff)
  qed
qed simp

lemma key_value_short:
  assumes "key_value n a = key_value n b" "length b \<le> n"
  shows "a < b \<longleftrightarrow> length a < length b" "b < a \<longleftrightarrow> length b < length a"
proof -
  have "(a < b \<longleftrightarrow> length a < length b) \<and> (b < a \<longleftrightarrow> length b < length a)" using assms
  proof (induction n a arbitrary: b rule: key_value.induct)
    case (1 a)
    then show ?case by (cases a) auto
  next
    case (2 n)
    then show ?case by (cases b) auto
  next
    case (3 n x xs)
    show ?case
    proof (cases b)
      case (Cons y ys)
      have "unat x * 256 ^ n + key_value n xs = unat y * 256 ^ n + key_value n ys" using 3(2) by (simp add: Cons)
      then have "unat x = unat y \<and> key_value n xs = key_value n ys"
        by (rule digits_unique) (rule key_value_less)+
      then have "x = y" "(xs < ys) = (length xs < length ys) \<and> (ys < xs) = (length ys < length xs)"
        using 3 by (simp_all add: Cons word_unat_eq_iff)
      then show ?thesis by (simp add: Cons)
    qed (use 3 in simp)
  qed
  then show "a < b \<longleftrightarrow> length a < length b" "b < a \<longleftrightarrow> length b < length a" by simp_all
qed

lemma byte_less: "unat (x :: u8) < 256"
  using unsigned_less [of x, where ?'a = nat] by simp

lemma unat_shift: "unat w * 2 ^ n < 2 ^ 32 \<Longrightarrow> unat (push_bit n (w :: u32)) = unat w * 2 ^ n"
  unfolding unsigned_push_bit_eq by (simp add: push_bit_eq_mult [of n "unat w"] take_bit_eq_mod)

lemma unat_ucast32: "unat (ucast (x :: u8) :: u32) = unat x" "unat (ucast (w :: u16) :: u32) = unat w"
  using unsigned_less [of x, where ?'a = nat] unsigned_less [of w, where ?'a = nat]
  by (simp_all add: unsigned_ucast_eq take_bit_eq_mod)

lemma unat_word_of_nat:
  "n < 65536 \<Longrightarrow> unat (word_of_nat n :: u16) = n" "n < 4294967296 \<Longrightarrow> unat (word_of_nat n :: u32) = n"
  by (simp_all add: unsigned_of_nat take_bit_eq_mod)

lemma bswap16_load: "unat (bswap16 (load16 (x # y # k))) = 256 * unat x + unat y"
proof -
  note b = byte_less [of x] byte_less [of y]
  have "unat (load16 (x # y # k)) = unat x + 256 * unat y"
    using b unfolding load16_def by (simp only: nth_Cons_0 nth_Cons' One_nat_def, subst unat_word_of_nat) simp_all
  then have "bswap16 (load16 (x # y # k)) = word_of_nat (256 * unat x + unat y)"
    using b by (simp only: bswap16_def) simp
  then show ?thesis using b by (simp only: unat_word_of_nat)
qed

lemma bswap32_load:
  "unat (bswap32 (load32 (a # b # c # d # k))) = ((unat a * 256 + unat b) * 256 + unat c) * 256 + unat d"
proof -
  note l = byte_less [of a] byte_less [of b] byte_less [of c] byte_less [of d]
  have nth_bytes: "(a # b # c # d # k) ! 0 = a" "(a # b # c # d # k) ! 1 = b" "(a # b # c # d # k) ! 2 = c"
    "(a # b # c # d # k) ! 3 = d" by simp_all
  let ?n = "unat a + 256 * (unat b + 256 * (unat c + 256 * unat d))"
  have "unat (load32 (a # b # c # d # k)) = ?n"
    using l unfolding load32_def nth_bytes by (intro unat_word_of_nat) simp
  moreover have digit: "(x + 256 * m) mod 256 = x" "(x + 256 * m) div 256 = m" if "x < 256" for x m :: nat
    using that by simp_all
  have "n div 2 ^ 8 = n div 256" "n div 2 ^ 16 = n div 256 div 256" "n div 2 ^ 24 = n div 256 div 256 div 256" for n :: nat
    by (simp_all add: div_mult2_eq [symmetric])
  then have "?n mod 256 = unat a" "?n div 2 ^ 8 mod 256 = unat b" "?n div 2 ^ 16 mod 256 = unat c" "?n div 2 ^ 24 = unat d"
    using l by (simp_all only: digit)
  ultimately have "bswap32 (load32 (a # b # c # d # k))
      = word_of_nat (2 ^ 24 * unat a + 2 ^ 16 * unat b + 2 ^ 8 * unat c + unat d)"
    by (simp only: bswap32_def)
  moreover have "unat (word_of_nat (2 ^ 24 * unat a + 2 ^ 16 * unat b + 2 ^ 8 * unat c + unat d) :: u32)
      = 2 ^ 24 * unat a + 2 ^ 16 * unat b + 2 ^ 8 * unat c + unat d"
    using l by (intro unat_word_of_nat) simp
  ultimately show ?thesis by simp
qed

lemma key_value4:
  "key_value 4 [] = 0" "key_value 4 [x] = 16777216 * unat x" "key_value 4 [x, y] = 16777216 * unat x + 65536 * unat y"
  "key_value 4 [x, y, z] = 16777216 * unat x + 65536 * unat y + 256 * unat z"
  "key_value 4 (a # b # c # d # k) = ((unat a * 256 + unat b) * 256 + unat c) * 256 + unat d"
proof -
  have four: "(4 :: nat) = Suc (Suc (Suc (Suc 0)))" by simp
  show "key_value 4 [] = 0" "key_value 4 [x] = 16777216 * unat x" "key_value 4 [x, y] = 16777216 * unat x + 65536 * unat y"
    "key_value 4 [x, y, z] = 16777216 * unat x + 65536 * unat y + 256 * unat z"
    "key_value 4 (a # b # c # d # k) = ((unat a * 256 + unat b) * 256 + unat c) * 256 + unat d"
    by (simp_all only: four key_value.simps power_Suc power_0) simp_all
qed

lemma head_value: "unat (head key) = key_value 4 key"
proof -
  consider "key = []" | x where "key = [x]" | x y where "key = [x, y]" | x y z where "key = [x, y, z]"
    | a b c d k where "key = a # b # c # d # k"
    by (metis list.exhaust)
  then show ?thesis
  proof cases
    case 2
    then show ?thesis using byte_less [of x] by (simp add: head_def unat_shift unat_ucast32 key_value4)
  next
    case 3
    then show ?thesis using byte_less [of x] byte_less [of y]
      by (simp add: head_def unat_shift unat_ucast32 bswap16_load key_value4)
  next
    case 4
    let ?u = "push_bit 16 (ucast (bswap16 (load16 key))) :: u32" and ?v = "push_bit 8 (ucast z) :: u32"
    have u: "unat ?u = 2 ^ 16 * (256 * unat x + unat y)" using byte_less [of x] byte_less [of y] 4
      by (simp add: unat_shift unat_ucast32 bswap16_load)
    have v: "unat ?v = 2 ^ 8 * unat z" using byte_less [of z] by (simp add: unat_shift unat_ucast32)
    have "?u AND ?v = 0"
      by (rule bit_eqI) (auto simp: bit_simps dest: bit_imp_le_length)
    then have "?u OR ?v = ?u + ?v" using word_plus_and_or [of ?u ?v] by simp
    moreover have "unat ?u + unat ?v < 2 ^ 32"
      using byte_less [of x] byte_less [of y] byte_less [of z] unfolding u v by simp
    then have "unat (?u + ?v) = unat ?u + unat ?v" using unat_add_lem [of ?u ?v] by simp
    ultimately show ?thesis by (simp add: head_def 4 u [unfolded 4] v key_value4)
  next
    case 5
    then show ?thesis by (simp add: head_def bswap32_load key_value4)
  qed (simp add: head_def key_value4)
qed

text \<open>What the search relies on of heads.\<close>

lemma head_order: "head a < head b \<Longrightarrow> a < b"
  by (simp add: word_less_nat_alt head_value key_value_order)

lemma head_short:
  assumes "head a = head b" "length b \<le> 4"
  shows "a < b \<longleftrightarrow> length a < length b" "b < a \<longleftrightarrow> length b < length a" "a = b \<longleftrightarrow> length a = length b"
proof -
  have "key_value 4 a = key_value 4 b" using assms(1) by (simp flip: head_value)
  note s = key_value_short [OF this assms(2)]
  show "a < b \<longleftrightarrow> length a < length b" "b < a \<longleftrightarrow> length b < length a" by (rule s)+
  then show "a = b \<longleftrightarrow> length a = length b" by (metis linorder_neq_iff)
qed

section \<open>Prefixes\<close>

fun common_prefix :: "bytes \<Rightarrow> bytes \<Rightarrow> nat" where
  "common_prefix (x # xs) (y # ys) = (if x = y then Suc (common_prefix xs ys) else 0)"
| "common_prefix _ _ = 0"

lemma common_prefix_take: "n \<le> common_prefix a b \<Longrightarrow> take n a = take n b \<and> n \<le> length a \<and> n \<le> length b"
proof (induction a b arbitrary: n rule: common_prefix.induct)
  case (1 x xs y ys)
  then show ?case by (cases n) (auto split: if_splits)
qed auto

lemma common_prefix_differ:
  "common_prefix a b < length a \<Longrightarrow> common_prefix a b < length b \<Longrightarrow> a ! common_prefix a b \<noteq> b ! common_prefix a b"
  by (induction a b rule: common_prefix.induct) auto

text \<open>A key between two keys with a common prefix has that prefix.\<close>

lemma between_prefix:
  assumes "take n l = take n (u :: bytes)" "n \<le> length l" "n \<le> length u" "l \<le> k" "k \<le> u"
  shows "n \<le> length k \<and> take n k = take n l"
  using assms
proof (induction n arbitrary: l u k)
  case (Suc n)
  obtain x ls where l: "l = x # ls" using Suc.prems(2) by (cases l) auto
  obtain y us where u: "u = y # us" using Suc.prems(3) by (cases u) auto
  have "x = y" "take n ls = take n us" using Suc.prems(1) by (simp_all add: l u)
  obtain z ks where k: "k = z # ks" using Suc.prems(4) l by (cases k) auto
  have "z = x" "ls \<le> ks" "ks \<le> us"
    using Suc.prems(4,5) \<open>x = y\<close> by (auto simp: l u k dest: order_less_asym)
  then show ?case using Suc.IH [of ls us ks] Suc.prems(2,3) \<open>take n ls = take n us\<close> by (simp add: l u k)
qed simp

lemma prefix_order: "(p @ a < p @ b) = (a < (b :: bytes))"
  by (induction p) auto

end
