(* ===== verification/BTreeNode.thy ===== *)
theory BTreeNode
  imports NodeKeys
begin

text \<open>
  \<open>BTreeNode.hpp\<close> and \<open>BTreeNode.cpp\<close>: the slotted page of a B-tree node. A node is the page's header, an
  array of slots that grows upwards behind the header, and a heap of key suffixes, payloads and fence
  keys that grows downwards from the end of the page. All offsets count from the start of the page.

  The slot array and the heap are separate fields (total functions of the index and of the offset):
  the source keeps them in one array of bytes, and an operation that would make them overlap violates
  one of its assertions, which the model keeps. Fields of type \<open>u16\<close> are natural numbers, and every
  assignment to one that could wrap goes through \<open>tr16\<close>. Memory that the source leaves uninitialised
  is zero. Assertions of debug builds (\<open>DEBUG_BLOCK\<close>) are part of the model.
\<close>

section \<open>Layout\<close>

definition EFFECTIVE_PAGE_SIZE :: nat where "EFFECTIVE_PAGE_SIZE = 16352"
definition SLOT_SIZE :: nat where "SLOT_SIZE = 10"
definition SWIP_SIZE :: nat where "SWIP_SIZE = 8"
definition hint_count :: nat where "hint_count = 16"

text \<open>
  The header ends after \<open>has_garbage\<close> at offset 93; the packed slots of the derived class follow at once,
  in the tail padding of the base class.
\<close>

definition slots_begin :: nat where "slots_begin = 93"

record fence_key =
  fk_offset :: nat
  fk_length :: nat

record slot =
  slot_offset :: nat
  slot_key_len :: nat
  slot_payload_len :: nat
  slot_head :: u32

record btree_node =
  upper_swip :: u64
  lower_fence :: fence_key
  upper_fence :: fence_key
  node_count :: nat
  is_leaf :: bool
  space_used :: nat
  data_offset :: nat
  prefix_length :: nat
  hint :: "u32 list"
  has_garbage :: bool
  slots :: "nat \<Rightarrow> slot"
  heap :: "nat \<Rightarrow> u8"

record btree_flags =
  FLAGS_btree_prefix_compression :: bool
  FLAGS_btree_heads :: bool
  FLAGS_btree_hints :: int
  built_with_avx512 :: bool

definition newBTreeNode :: "bool \<Rightarrow> btree_node" where
  "newBTreeNode leaf = \<lparr>upper_swip = 0, lower_fence = \<lparr>fk_offset = 0, fk_length = 0\<rparr>,
     upper_fence = \<lparr>fk_offset = 0, fk_length = 0\<rparr>, node_count = 0, is_leaf = leaf, space_used = 0,
     data_offset = EFFECTIVE_PAGE_SIZE, prefix_length = 0, hint = replicate hint_count 0, has_garbage = False,
     slots = (\<lambda>_. \<lparr>slot_offset = 0, slot_key_len = 0, slot_payload_len = 0, slot_head = 0\<rparr>), heap = (\<lambda>_. 0)\<rparr>"

text \<open>Truncation to 16 bits; reads and writes of the heap.\<close>

definition tr16 :: "int \<Rightarrow> nat" where
  "tr16 x = nat (x mod 65536)"

definition read_bytes :: "(nat \<Rightarrow> u8) \<Rightarrow> nat \<Rightarrow> nat \<Rightarrow> bytes" where
  "read_bytes h off len = map (\<lambda>i. h (off + i)) [0..<len]"

definition write_bytes :: "nat \<Rightarrow> bytes \<Rightarrow> (nat \<Rightarrow> u8) \<Rightarrow> nat \<Rightarrow> u8" where
  "write_bytes off bs h = (\<lambda>a. if off \<le> a \<and> a < off + length bs then bs ! (a - off) else h a)"

text \<open>A swip as the eight bytes it is stored in, and back.\<close>

definition swip_bytes :: "u64 \<Rightarrow> bytes" where
  "swip_bytes w = map (\<lambda>i. ucast (drop_bit (8 * i) w)) [0..<SWIP_SIZE]"

fun bytes_swip :: "bytes \<Rightarrow> u64" where
  "bytes_swip [] = 0"
| "bytes_swip (b # bs) = ucast b OR push_bit 8 (bytes_swip bs)"

section \<open>Accessors\<close>

definition slots_end :: "btree_node \<Rightarrow> nat" where
  "slots_end n = slots_begin + SLOT_SIZE * node_count n"

definition freeSpace :: "btree_node \<Rightarrow> nat" where
  "freeSpace n = tr16 (int (data_offset n) - int (slots_end n))"

definition freeSpaceAfterCompaction :: "btree_node \<Rightarrow> nat" where
  "freeSpaceAfterCompaction n = tr16 (int EFFECTIVE_PAGE_SIZE - int (slots_end n) - int (space_used n))"

definition hasEnoughSpaceFor :: "nat \<Rightarrow> btree_node \<Rightarrow> bool" where
  "hasEnoughSpaceFor space_needed n \<longleftrightarrow> space_needed \<le> freeSpace n \<or> space_needed \<le> freeSpaceAfterCompaction n"

definition getKeyLen :: "btree_node \<Rightarrow> nat \<Rightarrow> nat" where
  "getKeyLen n i = slot_key_len (slots n i)"

definition getPayloadLength :: "btree_node \<Rightarrow> nat \<Rightarrow> nat" where
  "getPayloadLength n i = slot_payload_len (slots n i)"

definition getFullKeyLen :: "btree_node \<Rightarrow> nat \<Rightarrow> nat" where
  "getFullKeyLen n i = tr16 (int (prefix_length n) + int (getKeyLen n i))"

definition getKey :: "btree_node \<Rightarrow> nat \<Rightarrow> bytes" where
  "getKey n i = read_bytes (heap n) (slot_offset (slots n i)) (getKeyLen n i)"

definition getPayload :: "btree_node \<Rightarrow> nat \<Rightarrow> bytes" where
  "getPayload n i = read_bytes (heap n) (slot_offset (slots n i) + getKeyLen n i) (getPayloadLength n i)"

definition getChild :: "btree_node \<Rightarrow> nat \<Rightarrow> u64" where
  "getChild n i = bytes_swip (read_bytes (heap n) (slot_offset (slots n i) + getKeyLen n i) SWIP_SIZE)"

definition getKVConsumedSpace :: "btree_node \<Rightarrow> nat \<Rightarrow> nat" where
  "getKVConsumedSpace n i = tr16 (int SLOT_SIZE + int (getKeyLen n i) + int (getPayloadLength n i))"

definition spaceUsedBySlot :: "btree_node \<Rightarrow> nat \<Rightarrow> nat" where
  "spaceUsedBySlot n i = SLOT_SIZE + getKeyLen n i + getPayloadLength n i"

definition fence_bytes :: "btree_node \<Rightarrow> fence_key \<Rightarrow> bytes option" where
  "fence_bytes n fk = (if fk_offset fk \<noteq> 0 then Some (read_bytes (heap n) (fk_offset fk) (fk_length fk)) else None)"

definition getLowerFenceKey :: "btree_node \<Rightarrow> bytes option" where
  "getLowerFenceKey n = fence_bytes n (lower_fence n)"

definition getUpperFenceKey :: "btree_node \<Rightarrow> bytes option" where
  "getUpperFenceKey n = fence_bytes n (upper_fence n)"

definition getPrefix :: "btree_node \<Rightarrow> bytes" where
  "getPrefix n = read_bytes (heap n) (fk_offset (lower_fence n)) (prefix_length n)"

definition copyFullKey :: "btree_node \<Rightarrow> nat \<Rightarrow> bytes" where
  "copyFullKey n i = getPrefix n @ getKey n i"

section \<open>Search\<close>

definition hints_of :: "btree_node \<Rightarrow> u32 list" where
  "hints_of n = map (\<lambda>i. slot_head (slots n (node_count n div (hint_count + 1) * (i + 1)))) [0..<hint_count]"

definition makeHint :: "btree_node \<Rightarrow> btree_node" where
  "makeHint n = n\<lparr>hint := hints_of n\<rparr>"

definition updateHint :: "nat \<Rightarrow> btree_node \<Rightarrow> btree_node result" where
  "updateHint slotId n =
     (let dist = node_count n div (hint_count + 1);
          begin' = (if hint_count * 2 + 1 < node_count n \<and> (node_count n - 1) div (hint_count + 1) = dist
                       \<and> 1 < slotId div dist
                    then slotId div dist - 1 else 0);
          n = n\<lparr>hint := take begin' (hint n) @ drop begin' (hints_of n)\<rparr>
      in bindR (assertR (hint n = hints_of n)) (\<lambda>_. Inr n))"

text \<open>The first hint that is not below the head, and the first after it that differs from the head.\<close>

definition hint_pos :: "u32 list \<Rightarrow> u32 \<Rightarrow> nat" where
  "hint_pos hs h = length (takeWhile (\<lambda>x. \<not> h \<le> x) hs)"

definition hint_pos2 :: "u32 list \<Rightarrow> u32 \<Rightarrow> nat" where
  "hint_pos2 hs h = hint_pos hs h + length (takeWhile (\<lambda>x. x = h) (drop (hint_pos hs h) hs))"

definition searchHint :: "btree_flags \<Rightarrow> btree_node \<Rightarrow> u32 \<Rightarrow> nat \<Rightarrow> nat \<Rightarrow> (nat \<times> nat) result" where
  "searchHint F n key_head lower_out upper_out =
     (if hint_count * 2 < node_count n then
        let dist = node_count n div (hint_count + 1);
            pos = hint_pos (hint n) key_head;
            pos2 = hint_pos2 (hint n) key_head;
            bounds = (pos * dist, if pos2 < hint_count then (pos2 + 1) * dist else upper_out)
        in if FLAGS_btree_hints F = 2 then
             (if \<not> built_with_avx512 F then Inl Terminated
              else if pos = hint_count then Inr (lower_out, upper_out) else Inr bounds)
           else if FLAGS_btree_hints F = 1 then Inr bounds
           else Inr (lower_out, upper_out)
      else Inr (lower_out, upper_out))"

text \<open>The three-way comparison of the search loop; \<open>key\<close> is without the node's prefix.\<close>

definition compare_slot :: "btree_flags \<Rightarrow> bytes \<Rightarrow> btree_node \<Rightarrow> nat \<Rightarrow> int" where
  "compare_slot F key n mid =
     (if FLAGS_btree_heads F then
        if head key < slot_head (slots n mid) then - 1
        else if slot_head (slots n mid) < head key then 1
        else if getKeyLen n mid \<le> 4 then
          (if length key < getKeyLen n mid then - 1 else if getKeyLen n mid < length key then 1 else 0)
        else cmpKeys key (getKey n mid)
      else cmpKeys key (getKey n mid))"

function binary_search :: "btree_flags \<Rightarrow> bytes \<Rightarrow> btree_node \<Rightarrow> nat \<Rightarrow> nat \<Rightarrow> nat \<times> bool" where
  "binary_search F key n lower upper =
     (if lower < upper then
        let mid = (upper - lower) div 2 + lower; cmp = compare_slot F key n mid
        in if cmp < 0 then binary_search F key n lower mid
           else if 0 < cmp then binary_search F key n (mid + 1) upper
           else (mid, True)
      else (lower, False))"
  by pat_completeness auto
termination
  by (relation "measure (\<lambda>(F, key, n, lower, upper). upper - lower)") auto

declare binary_search.simps [simp del]

text \<open>The position and the final value of \<open>*is_equal\<close>, which only leaves write.\<close>

definition lowerBound :: "btree_flags \<Rightarrow> bool \<Rightarrow> bytes \<Rightarrow> bool \<Rightarrow> btree_node \<Rightarrow> (int \<times> bool) result" where
  "lowerBound F equalityOnly key is_equal n =
     (let is_equal = (if is_leaf n then False else is_equal);
          prefixCmp = cmpKeys (take (min (length key) (prefix_length n)) key) (getPrefix n)
      in if equalityOnly \<and> (length key < prefix_length n \<or> take (prefix_length n) key \<noteq> getPrefix n)
         then Inr (- 1, is_equal)
         else if \<not> equalityOnly \<and> prefixCmp < 0 then Inr (0, is_equal)
         else if \<not> equalityOnly \<and> 0 < prefixCmp then Inr (int (node_count n), is_equal)
         else
           let key = drop (prefix_length n) key
           in bindR (searchHint F n (head key) 0 (node_count n)) (\<lambda>(lower, upper).
              let (pos, found) = binary_search F key n lower upper
              in if found then Inr (int pos, if is_leaf n then True else is_equal)
                 else if equalityOnly then Inr (- 1, is_equal)
                 else Inr (int pos, is_equal)))"

definition compareKeyWithBoundaries :: "bytes \<Rightarrow> btree_node \<Rightarrow> int" where
  "compareKeyWithBoundaries key n =
     (case getLowerFenceKey n of
        Some l \<Rightarrow>
          if \<not> 0 < cmpKeys key l then 1
          else (case getUpperFenceKey n of Some u \<Rightarrow> if \<not> cmpKeys key u \<le> 0 then - 1 else 0 | None \<Rightarrow> 0)
      | None \<Rightarrow> (case getUpperFenceKey n of Some u \<Rightarrow> if \<not> cmpKeys key u \<le> 0 then - 1 else 0 | None \<Rightarrow> 0))"

definition lookupInner :: "btree_flags \<Rightarrow> bytes \<Rightarrow> btree_node \<Rightarrow> u64 result" where
  "lookupInner F key n =
     bindR (lowerBound F False key False n) (\<lambda>(pos, _).
       Inr (if pos = int (node_count n) then upper_swip n else getChild n (nat pos)))"

section \<open>Building a node\<close>

definition insertFence ::
    "((fence_key \<Rightarrow> fence_key) \<Rightarrow> btree_node \<Rightarrow> btree_node) \<Rightarrow> bytes option \<Rightarrow> btree_node \<Rightarrow> btree_node result" where
  "insertFence fk_update key n =
     (case key of
        None \<Rightarrow> Inr n
      | Some k \<Rightarrow>
          bindR (assertR (length k \<le> freeSpace n)) (\<lambda>_.
            let off = tr16 (int (data_offset n) - int (length k))
            in Inr (fk_update (\<lambda>_. \<lparr>fk_offset = off, fk_length = length k\<rparr>)
                 (n\<lparr>data_offset := off, space_used := tr16 (int (space_used n) + int (length k)),
                   heap := write_bytes off k (heap n)\<rparr>))))"

definition fence_prefix :: "btree_flags \<Rightarrow> bytes option \<Rightarrow> bytes option \<Rightarrow> nat" where
  "fence_prefix F lowerKey upperKey =
     (if FLAGS_btree_prefix_compression F then
        (case (lowerKey, upperKey) of (Some l, Some u) \<Rightarrow> common_prefix l u | _ \<Rightarrow> 0)
      else 0)"

definition setFences :: "btree_flags \<Rightarrow> bytes option \<Rightarrow> bytes option \<Rightarrow> btree_node \<Rightarrow> btree_node result" where
  "setFences F lowerKey upperKey n =
     bindR (insertFence lower_fence_update lowerKey n) (\<lambda>n.
     bindR (insertFence upper_fence_update upperKey n) (\<lambda>n.
       Inr (n\<lparr>prefix_length := fence_prefix F lowerKey upperKey\<rparr>)))"

text \<open>Reads past the end of a key that is shorter than the prefix are out of range, as are writes past the page.\<close>

definition storeKeyValue :: "nat \<Rightarrow> bytes \<Rightarrow> bytes \<Rightarrow> btree_node \<Rightarrow> btree_node result" where
  "storeKeyValue slotId key payload n =
     (if length key < prefix_length n then Inl OutOfRange
      else
        let key = drop (prefix_length n) key;
            space = tr16 (int (length key) + int (length payload));
            off = tr16 (int (data_offset n) - int space)
        in if EFFECTIVE_PAGE_SIZE < off + length key + length payload then Inl OutOfRange
           else bindR (assertR (slots_end n \<le> off)) (\<lambda>_.
             Inr (n\<lparr>slots := (slots n)(slotId := \<lparr>slot_offset = off, slot_key_len = length key,
                      slot_payload_len = length payload, slot_head = head key\<rparr>),
                    data_offset := off, space_used := tr16 (int (space_used n) + int space),
                    heap := write_bytes off (key @ payload) (heap n)\<rparr>)))"

definition copyKeyValue :: "nat \<Rightarrow> btree_node \<Rightarrow> nat \<Rightarrow> btree_node \<Rightarrow> btree_node result" where
  "copyKeyValue srcSlot dst dstSlot src =
     storeKeyValue dstSlot (copyFullKey src srcSlot) (getPayload src srcSlot) dst"

text \<open>The accounting that a debug build checks.\<close>

definition total_space_used :: "btree_node \<Rightarrow> nat" where
  "total_space_used n = fk_length (upper_fence n) + fk_length (lower_fence n)
     + sum_list (map (\<lambda>i. getKeyLen n i + getPayloadLength n i) [0..<node_count n])"

text \<open>One round of the fast path: the bytes of a slot that was copied already.\<close>

definition copy_bytes :: "btree_node \<Rightarrow> nat \<Rightarrow> nat \<Rightarrow> nat \<Rightarrow> nat \<Rightarrow> btree_node \<Rightarrow> btree_node result" where
  "copy_bytes src dstSlot srcSlot cnt i dst =
     (let kv_size = getKeyLen src (srcSlot + i) + getPayloadLength src (srcSlot + i);
          off = tr16 (int (data_offset dst) - int kv_size)
      in bindR (assertR (slots_begin + SLOT_SIZE * (dstSlot + cnt) \<le> off)) (\<lambda>_.
           Inr (dst\<lparr>data_offset := off, space_used := tr16 (int (space_used dst) + int kv_size),
             slots := (slots dst)(dstSlot + i := (slots dst (dstSlot + i))\<lparr>slot_offset := off\<rparr>),
             heap := write_bytes off (read_bytes (heap src) (slot_offset (slots src (srcSlot + i))) kv_size) (heap dst)\<rparr>)))"

definition copyKeyValueRange :: "btree_node \<Rightarrow> nat \<Rightarrow> nat \<Rightarrow> nat \<Rightarrow> btree_node \<Rightarrow> btree_node result" where
  "copyKeyValueRange dst dstSlot srcSlot cnt src =
     bindR
       (if prefix_length src = prefix_length dst then
          bindR (assertR (total_space_used src = space_used src)) (\<lambda>_.
            foldR (copy_bytes src dstSlot srcSlot cnt) [0..<cnt]
              (dst\<lparr>slots := (\<lambda>i. if dstSlot \<le> i \<and> i < dstSlot + cnt then slots src (srcSlot + (i - dstSlot)) else slots dst i)\<rparr>))
        else foldR (\<lambda>i dst. copyKeyValue (srcSlot + i) dst (dstSlot + i) src) [0..<cnt] dst)
       (\<lambda>dst. let dst = dst\<lparr>node_count := tr16 (int (node_count dst) + int cnt)\<rparr>
              in bindR (assertR (slots_end dst \<le> data_offset dst)) (\<lambda>_. Inr dst))"

definition compactify :: "btree_flags \<Rightarrow> btree_node \<Rightarrow> btree_node result" where
  "compactify F n =
     bindR (setFences F (getLowerFenceKey n) (getUpperFenceKey n) (newBTreeNode (is_leaf n))) (\<lambda>tmp.
     bindR (copyKeyValueRange tmp 0 0 (node_count n) n) (\<lambda>tmp.
       let n' = makeHint (tmp\<lparr>upper_swip := upper_swip n\<rparr>)
       in bindR (assertR (freeSpace n' = freeSpaceAfterCompaction n)) (\<lambda>_. Inr n')))"

definition requestSpaceFor :: "btree_flags \<Rightarrow> nat \<Rightarrow> btree_node \<Rightarrow> (bool \<times> btree_node) result" where
  "requestSpaceFor F space_needed n =
     (if space_needed \<le> freeSpace n then Inr (True, n)
      else if space_needed \<le> freeSpaceAfterCompaction n then bindR (compactify F n) (\<lambda>n. Inr (True, n))
      else Inr (False, n))"

section \<open>Insertion, removal and payloads\<close>

definition spaceNeeded :: "nat \<Rightarrow> nat \<Rightarrow> nat \<Rightarrow> nat" where
  "spaceNeeded key_len payload_len prefix_len =
     tr16 (int SLOT_SIZE + (int key_len - int prefix_len) + int payload_len)"

definition canInsert :: "nat \<Rightarrow> nat \<Rightarrow> btree_node \<Rightarrow> bool" where
  "canInsert key_len payload_len n = hasEnoughSpaceFor (spaceNeeded key_len payload_len (prefix_length n)) n"

definition prepareInsert :: "btree_flags \<Rightarrow> nat \<Rightarrow> nat \<Rightarrow> btree_node \<Rightarrow> (bool \<times> btree_node) result" where
  "prepareInsert F key_len payload_len n = requestSpaceFor F (spaceNeeded key_len payload_len (prefix_length n)) n"

text \<open>\<open>memmove\<close> of the slots from \<open>slotId\<close> on by one place, up or down.\<close>

definition shift_up :: "nat \<Rightarrow> btree_node \<Rightarrow> btree_node" where
  "shift_up slotId n =
     n\<lparr>slots := (\<lambda>i. if slotId < i \<and> i \<le> node_count n then slots n (i - 1) else slots n i)\<rparr>"

definition shift_down :: "nat \<Rightarrow> btree_node \<Rightarrow> btree_node" where
  "shift_down slotId n =
     n\<lparr>slots := (\<lambda>i. if slotId \<le> i \<and> i + 1 < node_count n then slots n (i + 1) else slots n i)\<rparr>"

text \<open>\<open>BTreeNode::insert\<close>, with the slot it returns, and the variant that leaves the payload to the caller.\<close>

definition node_insert :: "btree_flags \<Rightarrow> bytes \<Rightarrow> bytes \<Rightarrow> btree_node \<Rightarrow> (nat \<times> btree_node) result" where
  "node_insert F key payload n =
     bindR (assertR (canInsert (length key) (length payload) n)) (\<lambda>_.
     bindR (lowerBound F True key False n) (\<lambda>(exact_pos, _).
     bindR (assertR (exact_pos = - 1)) (\<lambda>_.
     bindR (prepareInsert F (length key) (length payload) n) (\<lambda>(_, n).
     bindR (lowerBound F False key False n) (\<lambda>(pos, _).
       let slotId = nat pos
       in bindR (storeKeyValue slotId key payload (shift_up slotId n)) (\<lambda>n.
          bindR (updateHint slotId (n\<lparr>node_count := tr16 (int (node_count n) + 1)\<rparr>)) (\<lambda>n.
            Inr (slotId, n))))))))"

definition insertDoNotCopyPayload ::
    "btree_flags \<Rightarrow> bytes \<Rightarrow> nat \<Rightarrow> int \<Rightarrow> btree_node \<Rightarrow> (nat \<times> btree_node) result" where
  "insertDoNotCopyPayload F key payload_length pos n =
     bindR (assertR (canInsert (length key) payload_length n)) (\<lambda>_.
     bindR (prepareInsert F (length key) payload_length n) (\<lambda>(_, n).
     bindR (if pos = - 1 then lowerBound F False key False n else Inr (pos, False)) (\<lambda>(pos, _).
       if length key < prefix_length n then Inl OutOfRange
       else
         let slotId = nat pos;
             n = shift_up slotId n;
             key = drop (prefix_length n) key;
             space = tr16 (int (length key) + int payload_length);
             off = tr16 (int (data_offset n) - int space)
         in if EFFECTIVE_PAGE_SIZE < off + length key then Inl OutOfRange
            else bindR (updateHint slotId
              (n\<lparr>slots := (slots n)(slotId := \<lparr>slot_offset = off, slot_key_len = length key,
                   slot_payload_len = payload_length, slot_head = head key\<rparr>),
                 data_offset := off, space_used := tr16 (int (space_used n) + int space),
                 heap := write_bytes off key (heap n), node_count := tr16 (int (node_count n) + 1)\<rparr>)) (\<lambda>n.
              Inr (slotId, n)))))"

definition removeSlot :: "nat \<Rightarrow> btree_node \<Rightarrow> btree_node" where
  "removeSlot slotId n =
     (let used = tr16 (int (space_used n) - (int (getKeyLen n slotId) + int (getPayloadLength n slotId)))
      in makeHint ((shift_down slotId n)\<lparr>space_used := used, node_count := tr16 (int (node_count n) - 1)\<rparr>))"

definition node_remove :: "btree_flags \<Rightarrow> bytes \<Rightarrow> btree_node \<Rightarrow> (bool \<times> btree_node) result" where
  "node_remove F key n =
     bindR (lowerBound F True key False n) (\<lambda>(pos, _).
       if pos = - 1 then Inr (False, n) else Inr (True, removeSlot (nat pos) n))"

definition shortenPayload :: "nat \<Rightarrow> nat \<Rightarrow> btree_node \<Rightarrow> btree_node result" where
  "shortenPayload slotId len n =
     bindR (assertR (len \<le> getPayloadLength n slotId)) (\<lambda>_.
       Inr (n\<lparr>space_used := tr16 (int (space_used n) - (int (getPayloadLength n slotId) - int len)),
              slots := (slots n)(slotId := (slots n slotId)\<lparr>slot_payload_len := len\<rparr>)\<rparr>))"

definition canExtendPayload :: "nat \<Rightarrow> nat \<Rightarrow> btree_node \<Rightarrow> bool result" where
  "canExtendPayload slot_id new_length n =
     bindR (assertR (getPayloadLength n slot_id < new_length)) (\<lambda>_.
       Inr (new_length - getPayloadLength n slot_id \<le> freeSpaceAfterCompaction n))"

definition extendPayload :: "btree_flags \<Rightarrow> nat \<Rightarrow> nat \<Rightarrow> btree_node \<Rightarrow> btree_node result" where
  "extendPayload F slot_id new_payload_length n =
     bindR (canExtendPayload slot_id new_payload_length n) (\<lambda>can.
     bindR (assertR can) (\<lambda>_.
     bindR (requestSpaceFor F (new_payload_length - getPayloadLength n slot_id) n) (\<lambda>(_, n).
       let key = getKey n slot_id;
           old_total_length = tr16 (int (length key) + int (getPayloadLength n slot_id));
           new_total_length = tr16 (int (length key) + int new_payload_length);
           n = n\<lparr>space_used := tr16 (int (space_used n) - int old_total_length),
                 slots := (slots n)(slot_id := (slots n slot_id)\<lparr>slot_payload_len := 0, slot_key_len := 0\<rparr>)\<rparr>
       in bindR (if freeSpace n < new_total_length then compactify F n else Inr n) (\<lambda>n.
          bindR (assertR (new_total_length \<le> freeSpace n)) (\<lambda>_.
            let off = tr16 (int (data_offset n) - int new_total_length)
            in Inr (n\<lparr>space_used := tr16 (int (space_used n) + int new_total_length), data_offset := off,
                 slots := (slots n)(slot_id := (slots n slot_id)\<lparr>slot_offset := off, slot_key_len := length key,
                   slot_payload_len := new_payload_length\<rparr>),
                 heap := write_bytes off key (heap n)\<rparr>))))))"

definition node_reset :: "btree_node \<Rightarrow> btree_node" where
  "node_reset n =
     (let used = tr16 (int (fk_length (upper_fence n)) + int (fk_length (lower_fence n)))
      in n\<lparr>space_used := used, data_offset := tr16 (int EFFECTIVE_PAGE_SIZE - int used), node_count := 0\<rparr>)"

section \<open>Splitting and merging\<close>

definition commonPrefix :: "nat \<Rightarrow> nat \<Rightarrow> btree_node \<Rightarrow> nat" where
  "commonPrefix slotA slotB n = (if node_count n = 0 then 0 else common_prefix (getKey n slotA) (getKey n slotB))"

record separator_info =
  sep_length :: nat
  sep_slot :: nat
  sep_trunc :: bool

definition best_slot :: "btree_node \<Rightarrow> nat" where
  "best_slot n =
     (if 16 < node_count n then
        let lower = node_count n div 2 - node_count n div 16;
            upper = node_count n div 2;
            bestPrefixLength = commonPrefix lower 0 n
        in if bestPrefixLength \<noteq> commonPrefix (upper - 1) 0 n
           then lower + 1 + length (takeWhile (\<lambda>i. commonPrefix i 0 n = bestPrefixLength) [lower + 1..<upper])
           else lower
      else (node_count n - 1) div 2)"

definition findSep :: "btree_node \<Rightarrow> separator_info result" where
  "findSep n =
     bindR (assertR (1 < node_count n)) (\<lambda>_.
       if \<not> is_leaf n then
         let slotId = node_count n div 2
         in Inr \<lparr>sep_length = tr16 (int (prefix_length n) + int (getKeyLen n slotId)), sep_slot = slotId, sep_trunc = False\<rparr>
       else
         let bestSlot = best_slot n;
             common = commonPrefix bestSlot (bestSlot + 1) n
         in if bestSlot + 1 < node_count n \<and> common < getKeyLen n bestSlot \<and> common + 1 < getKeyLen n (bestSlot + 1)
            then Inr \<lparr>sep_length = tr16 (int (prefix_length n) + int common + 1), sep_slot = bestSlot, sep_trunc = True\<rparr>
            else Inr \<lparr>sep_length = tr16 (int (prefix_length n) + int (getKeyLen n bestSlot)), sep_slot = bestSlot,
                      sep_trunc = False\<rparr>)"

definition getSep :: "separator_info \<Rightarrow> btree_node \<Rightarrow> bytes" where
  "getSep info n =
     getPrefix n @ read_bytes (heap n)
       (slot_offset (slots n (if sep_trunc info then sep_slot info + 1 else sep_slot info)))
       (sep_length info - prefix_length n)"

text \<open>The new parent, the left node and this node, which becomes the right one.\<close>

definition node_split ::
    "btree_flags \<Rightarrow> btree_node \<Rightarrow> btree_node \<Rightarrow> u64 \<Rightarrow> nat \<Rightarrow> bytes \<Rightarrow> btree_node
      \<Rightarrow> (btree_node \<times> btree_node \<times> btree_node) result" where
  "node_split F parent nodeLeft left_swip sepSlot sepKey n =
     bindR (assertR (sepSlot < EFFECTIVE_PAGE_SIZE div SWIP_SIZE)) (\<lambda>_.
     bindR (assertR (sepSlot < node_count n)) (\<lambda>_.
     bindR (setFences F (getLowerFenceKey n) (Some sepKey) nodeLeft) (\<lambda>nodeLeft.
     bindR (setFences F (Some sepKey) (getUpperFenceKey n) (newBTreeNode (is_leaf n))) (\<lambda>nodeRight.
     bindR (assertR (canInsert (length sepKey) SWIP_SIZE parent)) (\<lambda>_.
     bindR (node_insert F sepKey (swip_bytes left_swip) parent) (\<lambda>(_, parent).
       if is_leaf n then
         bindR (copyKeyValueRange nodeLeft 0 0 (sepSlot + 1) n) (\<lambda>nodeLeft.
         bindR (copyKeyValueRange nodeRight 0 (node_count nodeLeft) (node_count n - node_count nodeLeft) n) (\<lambda>nodeRight.
           Inr (parent, makeHint (nodeLeft\<lparr>has_garbage := has_garbage n\<rparr>),
                makeHint (nodeRight\<lparr>has_garbage := has_garbage n\<rparr>))))
       else
         bindR (copyKeyValueRange nodeLeft 0 0 sepSlot n) (\<lambda>nodeLeft.
         bindR (copyKeyValueRange nodeRight 0 (node_count nodeLeft + 1) (node_count n - node_count nodeLeft - 1) n) (\<lambda>nodeRight.
           Inr (parent, makeHint (nodeLeft\<lparr>upper_swip := getChild n (node_count nodeLeft)\<rparr>),
                makeHint (nodeRight\<lparr>upper_swip := upper_swip n\<rparr>))))))))))"

definition mergeSpaceUpperBound :: "btree_flags \<Rightarrow> btree_node \<Rightarrow> btree_node \<Rightarrow> nat result" where
  "mergeSpaceUpperBound F right n =
     bindR (assertR (is_leaf right)) (\<lambda>_.
     bindR (setFences F (getLowerFenceKey n) (getUpperFenceKey right) (newBTreeNode True)) (\<lambda>tmp.
       let leftGrow = nat (((int (prefix_length n) - int (prefix_length tmp)) * int (node_count n)) mod 2 ^ 32);
           rightGrow = nat (((int (prefix_length right) - int (prefix_length tmp)) * int (node_count right)) mod 2 ^ 32)
       in Inr ((space_used n + space_used right + (slots_begin + SLOT_SIZE * (node_count n + node_count right))
                + leftGrow + rightGrow) mod 2 ^ 32)))"

text \<open>The bound that \<open>merge\<close> itself computes, in 16 bits; inner nodes add the separator of the parent.\<close>

definition merge_bound16 :: "btree_node \<Rightarrow> btree_node \<Rightarrow> btree_node \<Rightarrow> nat \<Rightarrow> nat" where
  "merge_bound16 n right tmp extra =
     (let leftGrow = tr16 ((int (prefix_length n) - int (prefix_length tmp)) * int (node_count n));
          rightGrow = tr16 ((int (prefix_length right) - int (prefix_length tmp)) * int (node_count right))
      in tr16 (int (space_used n) + int (space_used right)
           + int (slots_begin + SLOT_SIZE * (node_count n + node_count right)) + int leftGrow + int rightGrow + int extra))"

definition node_merge ::
    "btree_flags \<Rightarrow> nat \<Rightarrow> btree_node \<Rightarrow> btree_node \<Rightarrow> btree_node \<Rightarrow> (bool \<times> btree_node \<times> btree_node) result" where
  "node_merge F slotId parent right n =
     bindR (assertR (is_leaf right = is_leaf n \<and> \<not> is_leaf parent)) (\<lambda>_.
     bindR (setFences F (getLowerFenceKey n) (getUpperFenceKey right) (newBTreeNode (is_leaf n))) (\<lambda>tmp.
       if is_leaf n then
         if EFFECTIVE_PAGE_SIZE < merge_bound16 n right tmp 0 then Inr (False, parent, right)
         else
           bindR (copyKeyValueRange tmp 0 0 (node_count n) n) (\<lambda>tmp.
           bindR (copyKeyValueRange tmp (node_count n) 0 (node_count right) right) (\<lambda>tmp.
             Inr (True, removeSlot slotId parent, makeHint tmp)))
       else
         let extraKeyLength = getFullKeyLen parent slotId
         in if EFFECTIVE_PAGE_SIZE < merge_bound16 n right tmp (spaceNeeded extraKeyLength SWIP_SIZE (prefix_length tmp))
            then Inr (False, parent, right)
            else
              bindR (copyKeyValueRange tmp 0 0 (node_count n) n) (\<lambda>tmp.
              bindR (storeKeyValue (node_count n) (copyFullKey parent slotId) (swip_bytes (upper_swip n)) tmp) (\<lambda>tmp.
              let tmp = tmp\<lparr>node_count := tr16 (int (node_count tmp) + 1)\<rparr>
              in bindR (copyKeyValueRange tmp (node_count tmp) 0 (node_count right) right) (\<lambda>tmp.
                Inr (True, removeSlot slotId parent, makeHint (tmp\<lparr>upper_swip := upper_swip right\<rparr>)))))))"

end
