(* ===== verification/BTreeSearch.thy ===== *)
theory BTreeSearch
  imports BTreeNode
begin

text \<open>
  The search of a B-tree node is a linear scan: whatever the flags (heads of keys in the slots, hints in
  the header, prefix compression), \<open>lowerBound\<close> returns the number of keys below the one sought.
\<close>

section \<open>Well-formed nodes\<close>

definition region_ok :: "btree_node \<Rightarrow> nat \<Rightarrow> nat \<Rightarrow> bool" where
  "region_ok n off len \<longleftrightarrow> data_offset n \<le> off \<and> off + len \<le> EFFECTIVE_PAGE_SIZE"

definition fence_ok :: "btree_node \<Rightarrow> fence_key \<Rightarrow> bool" where
  "fence_ok n fk \<longleftrightarrow> fk_offset fk = 0 \<and> fk_length fk = 0 \<or> region_ok n (fk_offset fk) (fk_length fk)"

text \<open>The layout of the page: nothing overlaps the slots, and the accounting is exact.\<close>

definition layout_ok :: "btree_flags \<Rightarrow> btree_node \<Rightarrow> bool" where
  "layout_ok F n \<longleftrightarrow> slots_end n \<le> data_offset n \<and> data_offset n + space_used n \<le> EFFECTIVE_PAGE_SIZE
     \<and> (\<forall>i < node_count n. region_ok n (slot_offset (slots n i)) (getKeyLen n i + getPayloadLength n i))
     \<and> fence_ok n (lower_fence n) \<and> fence_ok n (upper_fence n) \<and> space_used n = total_space_used n
     \<and> prefix_length n = fence_prefix F (getLowerFenceKey n) (getUpperFenceKey n)"

definition suffixes :: "btree_node \<Rightarrow> bytes list" where
  "suffixes n = map (getKey n) [0..<node_count n]"

definition node_keys :: "btree_node \<Rightarrow> bytes list" where
  "node_keys n = map (copyFullKey n) [0..<node_count n]"

definition in_fences :: "bytes option \<Rightarrow> bytes option \<Rightarrow> bytes \<Rightarrow> bool" where
  "in_fences l u k \<longleftrightarrow> (case l of Some l \<Rightarrow> l < k | None \<Rightarrow> True) \<and> (case u of Some u \<Rightarrow> k \<le> u | None \<Rightarrow> True)"

text \<open>What the search relies on.\<close>

definition search_ok :: "btree_node \<Rightarrow> bool" where
  "search_ok n \<longleftrightarrow> sorted_wrt (<) (suffixes n)
     \<and> (\<forall>i < node_count n. slot_head (slots n i) = head (getKey n i))
     \<and> length (hint n) = hint_count \<and> (2 * hint_count < node_count n \<longrightarrow> hint n = hints_of n)"

definition node_ok :: "btree_flags \<Rightarrow> btree_node \<Rightarrow> bool" where
  "node_ok F n \<longleftrightarrow> layout_ok F n \<and> search_ok n
     \<and> (\<forall>k \<in> set (node_keys n). in_fences (getLowerFenceKey n) (getUpperFenceKey n) k)"

definition hints_usable :: "btree_flags \<Rightarrow> bool" where
  "hints_usable F \<longleftrightarrow> (FLAGS_btree_hints F = 2 \<longrightarrow> built_with_avx512 F)"

lemma length_read [simp]: "length (read_bytes h off len) = len"
  by (simp add: read_bytes_def)

lemma length_getKey [simp]: "length (getKey n i) = getKeyLen n i"
  by (simp add: getKey_def)

lemma length_getPayload [simp]: "length (getPayload n i) = getPayloadLength n i"
  by (simp add: getPayload_def)

lemma length_getPrefix [simp]: "length (getPrefix n) = prefix_length n"
  by (simp add: getPrefix_def)

lemma length_node_lists [simp]: "length (suffixes n) = node_count n" "length (node_keys n) = node_count n"
  "length (hints_of n) = hint_count"
  by (simp_all add: suffixes_def node_keys_def hints_of_def)

lemma nth_suffixes [simp]: "i < node_count n \<Longrightarrow> suffixes n ! i = getKey n i"
  by (simp add: suffixes_def)

lemma node_keys_suffixes: "node_keys n = map (\<lambda>s. getPrefix n @ s) (suffixes n)"
  by (simp add: node_keys_def suffixes_def copyFullKey_def)

section \<open>The search loop\<close>

lemma compare_slot_sgn:
  assumes "slot_head (slots n mid) = head (getKey n mid)"
  shows "compare_slot F key n mid < 0 \<longleftrightarrow> key < getKey n mid" "0 < compare_slot F key n mid \<longleftrightarrow> getKey n mid < key"
proof -
  consider "head key < head (getKey n mid)" | "head (getKey n mid) < head key" | "head key = head (getKey n mid)"
    by (rule linorder_cases)
  then have "(compare_slot F key n mid < 0 \<longleftrightarrow> key < getKey n mid)
      \<and> (0 < compare_slot F key n mid \<longleftrightarrow> getKey n mid < key)"
  proof cases
    case 1
    then have "key < getKey n mid" by (rule head_order)
    then show ?thesis using 1 assms by (auto simp: compare_slot_def cmpKeys_sgn dest: order_less_asym)
  next
    case 2
    then have "getKey n mid < key" by (rule head_order)
    then show ?thesis using 2 assms by (auto simp: compare_slot_def cmpKeys_sgn dest: order_less_asym)
  next
    case 3
    then show ?thesis using head_short [OF 3] assms by (auto simp: compare_slot_def cmpKeys_sgn)
  qed
  then show "compare_slot F key n mid < 0 \<longleftrightarrow> key < getKey n mid" "0 < compare_slot F key n mid \<longleftrightarrow> getKey n mid < key"
    by simp_all
qed

lemma takeWhile_first:
  assumes "i \<le> length xs" "\<And>j. j < i \<Longrightarrow> P (xs ! j)" "i < length xs \<Longrightarrow> \<not> P (xs ! i)"
  shows "length (takeWhile P xs) = i"
  using takeWhile_eq_take_P_nth [of i xs P] assms by simp

text \<open>The lower bound of a key in a sorted list, and whether it is there.\<close>

definition lower_bound :: "bytes \<Rightarrow> bytes list \<Rightarrow> nat" where
  "lower_bound key ks = length (takeWhile (\<lambda>k. k < key) ks)"

lemma lower_bound_at:
  assumes "sorted_wrt (<) ks" "i \<le> length ks" "\<And>j. j < i \<Longrightarrow> ks ! j < key" "\<And>j. i \<le> j \<Longrightarrow> j < length ks \<Longrightarrow> key < ks ! j"
  shows "lower_bound key ks = i \<and> key \<notin> set ks"
proof
  show "lower_bound key ks = i" unfolding lower_bound_def
    using assms(2,3) assms(4) [of i] by (intro takeWhile_first) (auto dest: order_less_asym)
  show "key \<notin> set ks"
  proof
    assume "key \<in> set ks"
    then obtain j where j: "j < length ks" "ks ! j = key" by (auto simp: in_set_conv_nth)
    then show False using assms(3,4) [of j] by (cases "j < i") auto
  qed
qed

lemma suffixes_less: "search_ok n \<Longrightarrow> i < j \<Longrightarrow> j < node_count n \<Longrightarrow> getKey n i < getKey n j"
  using sorted_wrt_nth_less [of "(<)" "suffixes n" i j] by (simp add: search_ok_def)

lemma suffixes_le: "search_ok n \<Longrightarrow> i \<le> j \<Longrightarrow> j < node_count n \<Longrightarrow> getKey n i \<le> getKey n j"
  using suffixes_less [of n i j] by (cases "i = j") auto

lemma binary_search_spec:
  assumes "search_ok n" "lower \<le> upper" "upper \<le> node_count n"
    "\<And>j. j < lower \<Longrightarrow> getKey n j < key" "\<And>j. upper \<le> j \<Longrightarrow> j < node_count n \<Longrightarrow> key < getKey n j"
  shows "binary_search F key n lower upper = (lower_bound key (suffixes n), key \<in> set (suffixes n))"
  using assms
proof (induction F key n lower upper rule: binary_search.induct)
  case (1 F key n lower upper)
  note sorted = suffixes_less [OF "1.prems"(1)] suffixes_le [OF "1.prems"(1)]
  show ?case
  proof (cases "lower < upper")
    case False
    then have "lower_bound key (suffixes n) = lower \<and> key \<notin> set (suffixes n)"
      using "1.prems" by (intro lower_bound_at) (auto simp: search_ok_def)
    then show ?thesis using False by (simp add: binary_search.simps)
  next
    case True
    define mid where "mid = (upper - lower) div 2 + lower"
    have mid: "lower \<le> mid" "mid < upper" "mid < node_count n" using True "1.prems"(3) by (auto simp: mid_def)
    have hd: "slot_head (slots n mid) = head (getKey n mid)" using "1.prems"(1) mid(3) by (simp add: search_ok_def)
    note cmp = compare_slot_sgn [OF hd, of F key]
    have step: "binary_search F key n lower upper = (if compare_slot F key n mid < 0 then binary_search F key n lower mid
        else if 0 < compare_slot F key n mid then binary_search F key n (mid + 1) upper else (mid, True))"
      using True by (subst binary_search.simps) (simp add: mid_def Let_def)
    consider "key < getKey n mid" | "getKey n mid < key" | "key = getKey n mid" by (rule linorder_cases)
    then show ?thesis
    proof cases
      case 1
      have "key < getKey n j" if "mid \<le> j" "j < node_count n" for j
        using 1 sorted(2) [OF that] by (rule order_less_le_trans)
      then have "binary_search F key n lower mid = (lower_bound key (suffixes n), key \<in> set (suffixes n))"
        using "1.IH"(1) [OF True mid_def refl] "1.prems" 1 mid cmp by simp
      then show ?thesis using 1 cmp(1) by (simp add: step)
    next
      case 2
      have "getKey n j < key" if "j < mid + 1" for j
        using that 2 mid(3) sorted(2) [of j mid] by auto
      then have "binary_search F key n (mid + 1) upper = (lower_bound key (suffixes n), key \<in> set (suffixes n))"
        using "1.IH"(2) [OF True mid_def refl] "1.prems" 2 mid cmp order_less_asym [OF 2] by simp
      then show ?thesis using 2 cmp order_less_asym [OF 2] by (simp add: step)
    next
      case 3
      have "lower_bound key (suffixes n) = mid" unfolding lower_bound_def
        using 3 mid sorted(1) [of _ mid] by (intro takeWhile_first) auto
      moreover have "key \<in> set (suffixes n)" using 3 mid(3) by (auto simp: suffixes_def)
      ultimately show ?thesis using cmp unfolding step by (simp add: 3)
    qed
  qed
qed

section \<open>Hints\<close>

lemma heads_mono:
  assumes "search_ok n" "i \<le> j" "j < node_count n"
  shows "slot_head (slots n i) \<le> slot_head (slots n j)"
proof -
  have "slot_head (slots n i) = head (getKey n i)" "slot_head (slots n j) = head (getKey n j)"
    using assms by (simp_all add: search_ok_def)
  moreover have "\<not> head (getKey n j) < head (getKey n i)"
    using head_order suffixes_le [OF assms] by (meson not_le)
  ultimately show ?thesis by simp
qed

lemma hint_posD:
  "hint_pos hs h \<le> length hs"
  "0 < hint_pos hs h \<Longrightarrow> hs ! (hint_pos hs h - 1) < h"
  "hint_pos hs h < length hs \<Longrightarrow> h \<le> hs ! hint_pos hs h"
proof -
  show "hint_pos hs h \<le> length hs" by (simp add: hint_pos_def length_takeWhile_le)
  show "hs ! (hint_pos hs h - 1) < h" if "0 < hint_pos hs h"
  proof -
    let ?t = "takeWhile (\<lambda>x. \<not> h \<le> x) hs"
    have j: "hint_pos hs h - 1 < length ?t" using that by (simp add: hint_pos_def)
    have "?t ! (hint_pos hs h - 1) \<in> set ?t" using j by (rule nth_mem)
    then have "\<not> h \<le> ?t ! (hint_pos hs h - 1)" by (rule set_takeWhileD [THEN conjunct2])
    then show ?thesis using takeWhile_nth [OF j] by simp
  qed
  show "h \<le> hs ! hint_pos hs h" if "hint_pos hs h < length hs"
    using that nth_length_takeWhile [of "\<lambda>x. \<not> h \<le> x" hs] by (simp add: hint_pos_def)
qed

lemma hint_pos2D:
  "hint_pos hs h \<le> hint_pos2 hs h"
  "hint_pos2 hs h < length hs \<Longrightarrow> hs ! hint_pos2 hs h \<noteq> h"
proof -
  show "hint_pos hs h \<le> hint_pos2 hs h" by (simp add: hint_pos2_def)
  let ?d = "drop (hint_pos hs h) hs"
  assume "hint_pos2 hs h < length hs"
  then have "length (takeWhile (\<lambda>x. x = h) ?d) < length ?d" by (simp add: hint_pos2_def)
  from nth_length_takeWhile [OF this] show "hs ! hint_pos2 hs h \<noteq> h"
    using hint_posD(1) [of hs h] by (simp add: hint_pos2_def)
qed

text \<open>The range that the hints leave contains the lower bound.\<close>

lemma hint_bounds:
  assumes "search_ok n" "2 * hint_count < node_count n"
  defines "D \<equiv> node_count n div (hint_count + 1)"
  shows "hint_pos (hint n) (head key) * D \<le> node_count n"
    "j < hint_pos (hint n) (head key) * D \<Longrightarrow> getKey n j < key"
    "hint_pos2 (hint n) (head key) < hint_count \<Longrightarrow> (hint_pos2 (hint n) (head key) + 1) * D \<le> node_count n"
    "hint_pos2 (hint n) (head key) < hint_count \<Longrightarrow> (hint_pos2 (hint n) (head key) + 1) * D \<le> j \<Longrightarrow>
       j < node_count n \<Longrightarrow> key < getKey n j"
proof -
  have hint: "hint n ! i = slot_head (slots n (D * (i + 1)))" if "i < hint_count" for i
    using assms(1,2) that by (simp add: search_ok_def hints_of_def D_def)
  have len: "length (hint n) = hint_count" using assms(1) by (simp add: search_ok_def)
  have hd: "slot_head (slots n i) = head (getKey n i)" if "i < node_count n" for i
    using assms(1) that by (simp add: search_ok_def)
  have small: "D * k < node_count n" if "k \<le> hint_count" for k
  proof -
    have "0 < D" using assms(2) by (simp add: D_def hint_count_def div_greater_zero_iff)
    moreover have "D * hint_count \<le> node_count n - D" by (simp add: D_def hint_count_def)
    moreover have "D * k \<le> D * hint_count" using that by simp
    ultimately show ?thesis using assms(2) by linarith
  qed
  let ?p = "hint_pos (hint n) (head key)" and ?p2 = "hint_pos2 (hint n) (head key)"
  note pos = hint_posD [of "hint n" "head key", unfolded len] and pos2 = hint_pos2D [of "hint n" "head key", unfolded len]
  show "?p * D \<le> node_count n" using small [OF pos(1)] by (simp add: mult.commute)
  show "getKey n j < key" if j: "j < ?p * D"
  proof -
    have p: "0 < ?p" using j by (cases "?p = 0") auto
    then have "slot_head (slots n (D * ?p)) < head key" using pos(1,2) hint [of "?p - 1"] by simp
    then have "getKey n (D * ?p) < key" using hd [OF small [OF pos(1)]] head_order by simp
    moreover have "getKey n j \<le> getKey n (D * ?p)"
      using suffixes_le [OF assms(1)] small [OF pos(1)] j by (simp add: mult.commute)
    ultimately show ?thesis by (rule order_le_less_trans [rotated])
  qed
  assume p2: "?p2 < hint_count"
  then have s2: "(?p2 + 1) * D < node_count n" using small [of "?p2 + 1"] by (simp add: mult.commute)
  then show "(?p2 + 1) * D \<le> node_count n" by simp
  have "head key \<le> hint n ! ?p" using pos(3) pos2(1) p2 by simp
  also have "\<dots> \<le> hint n ! ?p2"
    using p2 pos2(1) heads_mono [OF assms(1)] small [of "?p2 + 1"] by (simp add: hint)
  finally have "head key < hint n ! ?p2" using pos2(2) [OF p2] by simp
  then have "key < getKey n ((?p2 + 1) * D)"
    using hd [OF s2] head_order by (simp add: hint [OF p2] mult.commute)
  moreover assume "(?p2 + 1) * D \<le> j" "j < node_count n"
  then have "getKey n ((?p2 + 1) * D) \<le> getKey n j" by (rule suffixes_le [OF assms(1)])
  ultimately show "key < getKey n j" by (rule order_less_le_trans)
qed

lemma searchHint_spec:
  assumes "search_ok n" "hints_usable F"
  obtains lower upper where "searchHint F n (head key) 0 (node_count n) = Inr (lower, upper)"
    "lower \<le> upper" "upper \<le> node_count n" "\<forall>j < lower. getKey n j < key"
    "\<forall>j. upper \<le> j \<and> j < node_count n \<longrightarrow> key < getKey n j"
proof (cases "2 * hint_count < node_count n \<and> FLAGS_btree_hints F \<in> {1, 2}
    \<and> \<not> (FLAGS_btree_hints F = 2 \<and> hint_pos (hint n) (head key) = hint_count)")
  case False
  then have "searchHint F n (head key) 0 (node_count n) = Inr (0, node_count n)"
    using assms(2) by (auto simp: searchHint_def Let_def hints_usable_def mult.commute)
  then show ?thesis by (rule that) auto
next
  case True
  let ?D = "node_count n div (hint_count + 1)"
  let ?p = "hint_pos (hint n) (head key)" and ?p2 = "hint_pos2 (hint n) (head key)"
  let ?u = "if ?p2 < hint_count then (?p2 + 1) * ?D else node_count n"
  note b = hint_bounds [OF assms(1), where key = key]
  have "searchHint F n (head key) 0 (node_count n) = Inr (?p * ?D, ?u)"
    using assms(2) True by (auto simp: searchHint_def Let_def hints_usable_def mult.commute)
  moreover have "?p * ?D \<le> ?u"
  proof (cases "?p2 < hint_count")
    case True
    have "?p * ?D \<le> (?p2 + 1) * ?D" using hint_pos2D(1) [of "hint n" "head key"] by (intro mult_le_mono1) simp
    then show ?thesis using True by simp
  qed (use b(1) True in simp)
  moreover have "?u \<le> node_count n" using b(3) True by auto
  moreover have "\<forall>j < ?p * ?D. getKey n j < key" using b(2) True by blast
  moreover have "\<forall>j. ?u \<le> j \<and> j < node_count n \<longrightarrow> key < getKey n j"
    using b(4) True by (auto split: if_splits)
  ultimately show ?thesis by (rule that)
qed

section \<open>The whole search\<close>

lemma take_order:
  "take (length p) k < p \<Longrightarrow> k < p @ (s :: bytes)" "p < take (length p) k \<Longrightarrow> p @ s < k"
proof -
  have "(take (length p) k < p \<longrightarrow> k < p @ s) \<and> (p < take (length p) k \<longrightarrow> p @ s < k)"
  proof (induction p arbitrary: k)
    case (Cons a p)
    show ?case using Cons by (cases k) auto
  qed simp
  then show "take (length p) k < p \<Longrightarrow> k < p @ s" "p < take (length p) k \<Longrightarrow> p @ s < k" by simp_all
qed

lemma lower_bound_all: "\<forall>k \<in> set ks. key < k \<Longrightarrow> lower_bound key ks = 0" "\<forall>k \<in> set ks. k < key \<Longrightarrow> lower_bound key ks = length ks"
proof -
  show "lower_bound key ks = 0" if "\<forall>k \<in> set ks. key < k"
    using that by (cases ks) (auto simp: lower_bound_def dest: order_less_asym)
  show "lower_bound key ks = length ks" if "\<forall>k \<in> set ks. k < key"
  proof -
    have "takeWhile (\<lambda>k. k < key) ks = ks" using that by (simp add: takeWhile_eq_all_conv)
    then show ?thesis by (simp only: lower_bound_def)
  qed
qed

lemma lower_bound_prefix: "lower_bound (p @ key) (map (\<lambda>s. p @ s) ks) = lower_bound key ks"
  by (simp add: lower_bound_def takeWhile_map comp_def prefix_order)

lemma lowerBound_spec:
  assumes "search_ok n" "hints_usable F"
  shows "lowerBound F False key e n = Inr (int (lower_bound key (node_keys n)),
      if is_leaf n then key \<in> set (node_keys n) else e)"
    "lowerBound F True key e n = Inr (if key \<in> set (node_keys n) then int (lower_bound key (node_keys n)) else - 1,
      if is_leaf n then key \<in> set (node_keys n) else e)"
proof -
  let ?l = "prefix_length n" and ?p = "getPrefix n"
  have keys: "set (node_keys n) = (\<lambda>s. ?p @ s) ` set (suffixes n)" by (simp add: node_keys_suffixes)
  have tk: "take (min (length key) ?l) key = take ?l key" by (simp add: min_def)
  have out: "key \<notin> set (node_keys n)" if "take ?l key \<noteq> ?p" using that keys by auto
  consider (less) "take ?l key < ?p" | (greater) "?p < take ?l key" | (same) "take ?l key = ?p"
    by (metis linorder_cases)
  then have "lowerBound F False key e n = Inr (int (lower_bound key (node_keys n)),
      if is_leaf n then key \<in> set (node_keys n) else e)
    \<and> lowerBound F True key e n = Inr (if key \<in> set (node_keys n) then int (lower_bound key (node_keys n)) else - 1,
      if is_leaf n then key \<in> set (node_keys n) else e)"
  proof cases
    case less
    then have "\<forall>k \<in> set (node_keys n). key < k" using take_order(1) [of ?p key] by (auto simp: keys)
    then show ?thesis using less out lower_bound_all(1) by (auto simp: lowerBound_def Let_def tk cmpKeys_sgn)
  next
    case greater
    then have "\<forall>k \<in> set (node_keys n). k < key" using take_order(2) [of ?p key] by (auto simp: keys)
    then show ?thesis using greater out lower_bound_all(2)
      by (auto simp: lowerBound_def Let_def tk cmpKeys_sgn dest: order_less_asym)
  next
    case same
    define k where "k = drop ?l key"
    have key: "key = ?p @ k" "length ?p = ?l" using same append_take_drop_id [of ?l key] by (simp_all add: k_def)
    have "\<not> length key < ?l" using key by (metis le_add1 length_append not_less)
    moreover obtain lower upper where h: "searchHint F n (head k) 0 (node_count n) = Inr (lower, upper)"
      "lower \<le> upper" "upper \<le> node_count n" "\<forall>j < lower. getKey n j < k"
      "\<forall>j. upper \<le> j \<and> j < node_count n \<longrightarrow> k < getKey n j"
      using assms by (rule searchHint_spec)
    moreover have "binary_search F k n lower upper = (lower_bound k (suffixes n), k \<in> set (suffixes n))"
      using h(4,5) by (intro binary_search_spec [OF assms(1) h(2,3)]) simp_all
    moreover have "key \<in> set (node_keys n) \<longleftrightarrow> k \<in> set (suffixes n)" unfolding keys using key(1) by auto
    moreover have "lower_bound key (node_keys n) = lower_bound k (suffixes n)"
      unfolding node_keys_suffixes by (subst key(1)) (rule lower_bound_prefix)
    ultimately show ?thesis using same by (simp add: lowerBound_def Let_def tk cmpKeys_sgn k_def)
  qed
  then show "lowerBound F False key e n = Inr (int (lower_bound key (node_keys n)),
      if is_leaf n then key \<in> set (node_keys n) else e)"
    "lowerBound F True key e n = Inr (if key \<in> set (node_keys n) then int (lower_bound key (node_keys n)) else - 1,
      if is_leaf n then key \<in> set (node_keys n) else e)" by simp_all
qed

end
