(* ===== verification/BTreeBuild.thy ===== *)
theory BTreeBuild
  imports BTreeSearch
begin

text \<open>
  Building nodes: every way of storing a key and a payload (\<open>storeKeyValue\<close>, both paths of
  \<open>copyKeyValueRange\<close>) is one primitive that pushes the bytes below the data offset. A sequence of
  pushes never fails when the page has room, leaves everything stored before as it is, and can be
  read back; \<open>compactify\<close> follows.
\<close>

section \<open>Pushing one record\<close>

definition node_push :: "nat \<Rightarrow> u32 \<times> bytes \<times> bytes \<Rightarrow> btree_node \<Rightarrow> btree_node" where
  "node_push i c n = (case c of (h, k, v) \<Rightarrow>
     let off = data_offset n - (length k + length v)
     in n\<lparr>slots := (slots n)(i := \<lparr>slot_offset = off, slot_key_len = length k, slot_payload_len = length v, slot_head = h\<rparr>),
          data_offset := off, space_used := space_used n + (length k + length v),
          heap := write_bytes off (k @ v) (heap n)\<rparr>)"

definition cell_size :: "u32 \<times> bytes \<times> bytes \<Rightarrow> nat" where
  "cell_size c = length (fst (snd c)) + length (snd (snd c))"

definition cell :: "btree_node \<Rightarrow> nat \<Rightarrow> u32 \<times> bytes \<times> bytes" where
  "cell n i = (slot_head (slots n i), getKey n i, getPayload n i)"

definition cells :: "btree_node \<Rightarrow> (u32 \<times> bytes \<times> bytes) list" where
  "cells n = map (cell n) [0..<node_count n]"

lemma cell_size_cell [simp]: "cell_size (cell n i) = getKeyLen n i + getPayloadLength n i"
  by (simp add: cell_size_def cell_def)

lemma tr16_nat: "0 \<le> x \<Longrightarrow> x < 65536 \<Longrightarrow> tr16 x = nat x"
  by (simp add: tr16_def)

lemma tr16_int: "m < 65536 \<Longrightarrow> tr16 (int m) = m"
  by (simp add: tr16_def)

lemma read_write: "read_bytes (write_bytes off bs h) (off + a) len = take len (drop a bs)" if "a + len \<le> length bs"
  using that by (auto simp: read_bytes_def write_bytes_def intro: nth_equalityI)

lemma read_frame:
  assumes "\<And>a. off \<le> a \<Longrightarrow> a < off + len \<Longrightarrow> h a = h' a"
  shows "read_bytes h off len = read_bytes h' off len"
  using assms by (simp add: read_bytes_def)

lemma read_append: "read_bytes h off (a + b) = read_bytes h off a @ read_bytes h (off + a) b"
  by (rule nth_equalityI) (auto simp: read_bytes_def nth_append)

lemma node_push_fields [simp]:
  "upper_swip (node_push i c n) = upper_swip n" "lower_fence (node_push i c n) = lower_fence n"
  "upper_fence (node_push i c n) = upper_fence n" "node_count (node_push i c n) = node_count n"
  "is_leaf (node_push i c n) = is_leaf n" "prefix_length (node_push i c n) = prefix_length n"
  "hint (node_push i c n) = hint n" "has_garbage (node_push i c n) = has_garbage n"
  "data_offset (node_push i c n) = data_offset n - cell_size c" "space_used (node_push i c n) = space_used n + cell_size c"
  by (simp_all add: node_push_def cell_size_def Let_def split: prod.split)

lemma node_push_slot:
  "slots (node_push i c n) j = (if j = i then \<lparr>slot_offset = data_offset n - cell_size c, slot_key_len = length (fst (snd c)),
     slot_payload_len = length (snd (snd c)), slot_head = fst c\<rparr> else slots n j)"
  by (simp add: node_push_def cell_size_def Let_def split: prod.split)

lemma node_push_heap: "cell_size c \<le> data_offset n \<Longrightarrow> data_offset n \<le> a \<Longrightarrow> heap (node_push i c n) a = heap n a"
  by (auto simp: node_push_def cell_size_def write_bytes_def Let_def split: prod.split)

lemma node_push_cell: "cell (node_push i c n) i = c"
proof -
  obtain h k v where c: "c = (h, k, v)" by (cases c)
  let ?off = "data_offset n - (length k + length v)"
  have "read_bytes (write_bytes ?off (k @ v) (heap n)) ?off (length k) = k"
    "read_bytes (write_bytes ?off (k @ v) (heap n)) (?off + length k) (length v) = v"
    using read_write [of 0 "length k" "k @ v"] by (simp_all add: read_write)
  then show ?thesis
    by (simp add: c cell_def getKey_def getPayload_def getKeyLen_def getPayloadLength_def node_push_def Let_def)
qed

lemma storeKeyValue_push:
  assumes "prefix_length n \<le> length key" "slots_end n + (length key - prefix_length n + length payload) \<le> data_offset n"
    "data_offset n + space_used n \<le> EFFECTIVE_PAGE_SIZE"
  shows "storeKeyValue i key payload n
    = Inr (node_push i (head (drop (prefix_length n) key), drop (prefix_length n) key, payload) n)"
proof -
  let ?k = "drop (prefix_length n) key"
  have le: "length ?k + length payload \<le> data_offset n" "data_offset n \<le> EFFECTIVE_PAGE_SIZE" "EFFECTIVE_PAGE_SIZE < 65536"
    using assms(2,3) by (simp_all add: EFFECTIVE_PAGE_SIZE_def)
  have sp: "tr16 (int (length ?k) + int (length payload)) = length ?k + length payload"
    using le by (subst tr16_nat) simp_all
  have off: "tr16 (int (data_offset n) - int (length ?k + length payload)) = data_offset n - (length ?k + length payload)"
    using le by (subst tr16_nat) (simp_all add: nat_diff_distrib' del: of_nat_add)
  have su: "tr16 (int (space_used n) + int (length ?k + length payload)) = space_used n + (length ?k + length payload)"
    using le assms(3) by (subst tr16_nat) simp_all
  have "slots_end n \<le> data_offset n - (length ?k + length payload)"
    "\<not> EFFECTIVE_PAGE_SIZE < data_offset n - (length ?k + length payload) + length ?k + length payload"
    using assms(2) le by simp_all
  then show ?thesis using assms(1) unfolding storeKeyValue_def Let_def sp off su
    by (simp add: node_push_def Let_def)
qed

section \<open>Pushing a sequence\<close>

fun push_all :: "nat \<Rightarrow> (u32 \<times> bytes \<times> bytes) list \<Rightarrow> btree_node \<Rightarrow> btree_node" where
  "push_all s [] n = n"
| "push_all s (c # cs) n = push_all (Suc s) cs (node_push s c n)"

definition total_size :: "(u32 \<times> bytes \<times> bytes) list \<Rightarrow> nat" where
  "total_size cs = sum_list (map cell_size cs)"

lemma total_size_simps [simp]: "total_size [] = 0" "total_size (c # cs) = cell_size c + total_size cs"
  "total_size (cs @ ds) = total_size cs + total_size ds"
  by (simp_all add: total_size_def)

lemma push_all_snoc: "push_all s (cs @ [c]) n = node_push (s + length cs) c (push_all s cs n)"
  by (induction cs arbitrary: s n) simp_all

lemma push_all_fields [simp]:
  "upper_swip (push_all s cs n) = upper_swip n" "lower_fence (push_all s cs n) = lower_fence n"
  "upper_fence (push_all s cs n) = upper_fence n" "node_count (push_all s cs n) = node_count n"
  "is_leaf (push_all s cs n) = is_leaf n" "prefix_length (push_all s cs n) = prefix_length n"
  "hint (push_all s cs n) = hint n" "has_garbage (push_all s cs n) = has_garbage n"
  "data_offset (push_all s cs n) = data_offset n - total_size cs" "space_used (push_all s cs n) = space_used n + total_size cs"
  by (induction cs arbitrary: s n) (simp_all add: diff_diff_eq)

lemma push_all_heap: "total_size cs \<le> data_offset n \<Longrightarrow> data_offset n \<le> a \<Longrightarrow> heap (push_all s cs n) a = heap n a"
  by (induction cs arbitrary: s n) (simp_all add: node_push_heap)

lemma push_all_slot: "j < s \<or> s + length cs \<le> j \<Longrightarrow> slots (push_all s cs n) j = slots n j"
  by (induction cs arbitrary: s n) (auto simp: node_push_slot)

text \<open>A region above the data offset is not touched by pushes.\<close>

lemma cell_frame:
  assumes "slots n' i = slots n i" "\<And>a. data_offset n \<le> a \<Longrightarrow> heap n' a = heap n a" "data_offset n \<le> slot_offset (slots n i)"
  shows "cell n' i = cell n i"
proof -
  have "read_bytes (heap n') off len = read_bytes (heap n) off len" if "data_offset n \<le> off" for off len
    using that assms(2) by (intro read_frame) simp
  then show ?thesis using assms(1,3)
    by (simp add: cell_def getKey_def getPayload_def getKeyLen_def getPayloadLength_def)
qed

lemma push_all_cell:
  assumes "i < length cs" "total_size cs \<le> data_offset n" "data_offset n \<le> EFFECTIVE_PAGE_SIZE"
  shows "cell (push_all s cs n) (s + i) = cs ! i"
    "region_ok (push_all s cs n) (slot_offset (slots (push_all s cs n) (s + i))) (cell_size (cs ! i))"
proof -
  have "cell (push_all s cs n) (s + i) = cs ! i \<and> data_offset n - total_size cs \<le> slot_offset (slots (push_all s cs n) (s + i))
      \<and> slot_offset (slots (push_all s cs n) (s + i)) + cell_size (cs ! i) \<le> data_offset n"
    using assms(1,2)
  proof (induction cs arbitrary: i rule: rev_induct)
    case (snoc c cs)
    let ?n = "push_all s cs n"
    show ?case
    proof (cases "i = length cs")
      case True
      then show ?thesis using snoc.prems by (simp add: push_all_snoc node_push_cell node_push_slot)
    next
      case False
      then have i: "i < length cs" using snoc.prems by simp
      note IH = snoc.IH [OF i] 
      have "total_size cs \<le> data_offset n" using snoc.prems by simp
      moreover have "cell (node_push (s + length cs) c ?n) (s + i) = cell ?n (s + i)"
        using IH snoc.prems i by (intro cell_frame) (simp_all add: node_push_slot node_push_heap)
      ultimately show ?thesis using IH i by (simp add: push_all_snoc nth_append node_push_slot) linarith
    qed
  qed simp
  then show "cell (push_all s cs n) (s + i) = cs ! i"
    "region_ok (push_all s cs n) (slot_offset (slots (push_all s cs n) (s + i))) (cell_size (cs ! i))"
    using assms(3) by (simp_all add: region_ok_def)
qed

section \<open>Copying a range of slots\<close>

text \<open>What is pushed for a slot of another node: the key cut to this node's prefix.\<close>

definition moved :: "btree_node \<Rightarrow> btree_node \<Rightarrow> nat \<Rightarrow> u32 \<times> bytes \<times> bytes" where
  "moved src dst i =
     (if prefix_length src = prefix_length dst then cell src i
      else let k = drop (prefix_length dst) (copyFullKey src i) in (head k, k, getPayload src i))"

lemma moved_cong: "prefix_length dst' = prefix_length dst \<Longrightarrow> moved src dst' = moved src dst"
  by (simp add: moved_def fun_eq_iff)

lemma slot_relocate:
  "(sl :: slot)\<lparr>slot_offset := off\<rparr> = \<lparr>slot_offset = off, slot_key_len = slot_key_len sl,
     slot_payload_len = slot_payload_len sl, slot_head = slot_head sl\<rparr>"
  by (cases sl) simp

lemma copy_bytes_push:
  assumes "slots dst (s + i) = slots src (a + i)" "slots_begin + SLOT_SIZE * (s + cnt) + cell_size (cell src (a + i)) \<le> data_offset dst"
    "data_offset dst + space_used dst \<le> EFFECTIVE_PAGE_SIZE"
  shows "copy_bytes src s a cnt i dst = Inr (node_push (s + i) (cell src (a + i)) dst)"
proof -
  let ?z = "getKeyLen src (a + i) + getPayloadLength src (a + i)"
  have le: "?z \<le> data_offset dst" "data_offset dst < 65536"
    using assms(2,3) by (simp_all add: EFFECTIVE_PAGE_SIZE_def)
  have off: "tr16 (int (data_offset dst) - int ?z) = data_offset dst - ?z"
    using le by (subst tr16_nat) (simp_all add: nat_diff_distrib' del: of_nat_add)
  have su: "tr16 (int (space_used dst) + int ?z) = space_used dst + ?z"
    using le assms(3) by (subst tr16_nat) (simp_all add: EFFECTIVE_PAGE_SIZE_def)
  have "read_bytes (heap src) (slot_offset (slots src (a + i))) ?z = getKey src (a + i) @ getPayload src (a + i)"
    by (simp add: read_append getKey_def getPayload_def)
  moreover have "slots_begin + SLOT_SIZE * (s + cnt) \<le> data_offset dst - ?z" using assms(2) by simp
  ultimately show ?thesis unfolding copy_bytes_def Let_def off su
    by (auto simp: node_push_def cell_def Let_def assms(1) slot_relocate getKeyLen_def getPayloadLength_def
        intro!: btree_node.equality)
qed

lemma fast_copy:
  assumes "slots_begin + SLOT_SIZE * (s + cnt) + total_size (map (\<lambda>i. cell src (a + i)) [0..<cnt]) \<le> data_offset dst"
    "data_offset dst + space_used dst \<le> EFFECTIVE_PAGE_SIZE"
  shows "foldR (copy_bytes src s a cnt) [0..<cnt]
      (dst\<lparr>slots := (\<lambda>i. if s \<le> i \<and> i < s + cnt then slots src (a + (i - s)) else slots dst i)\<rparr>)
    = Inr (push_all s (map (\<lambda>i. cell src (a + i)) [0..<cnt]) dst)"
proof -
  let ?cs = "\<lambda>k. map (\<lambda>i. cell src (a + i)) [0..<k]"
  define st where "st k = (push_all s (?cs k) dst)\<lparr>slots := (\<lambda>j. if s + k \<le> j \<and> j < s + cnt then slots src (a + (j - s))
    else slots (push_all s (?cs k) dst) j)\<rparr>" for k
  have mono: "total_size (?cs k) + cell_size (cell src (a + k)) \<le> total_size (?cs cnt)" if "k < cnt" for k
  proof -
    have "?cs cnt = ?cs (Suc k) @ map (\<lambda>i. cell src (a + i)) [Suc k..<cnt]"
      using that by (metis Suc_leI map_append upt_split)
    then show ?thesis by simp
  qed
  have "\<exists>d. foldR (copy_bytes src s a cnt) [0..<cnt] (st 0) = Inr d \<and> d = st cnt"
  proof (rule foldR_upt_invariant)
    fix i d assume i: "i < cnt" "d = st i"
    have "copy_bytes src s a cnt i (st i) = Inr (node_push (s + i) (cell src (a + i)) (st i))"
      using assms mono [OF i(1)] i(1) by (intro copy_bytes_push) (simp_all add: st_def)
    moreover have "node_push (s + i) (cell src (a + i)) (st i) = st (Suc i)"
    proof -
      have "slots (node_push (s + i) (cell src (a + i)) (st i)) j = slots (st (Suc i)) j" for j
        using i(1) by (auto simp: node_push_slot st_def push_all_snoc)
      moreover have "heap (node_push (s + i) (cell src (a + i)) (st i)) = heap (st (Suc i))"
        by (simp add: st_def push_all_snoc) (simp add: node_push_def Let_def split: prod.split)
      ultimately show ?thesis by (intro btree_node.equality) (simp_all add: fun_eq_iff, simp_all add: st_def)
    qed
    ultimately show "\<exists>d'. copy_bytes src s a cnt i d = Inr d' \<and> d' = st (Suc i)" using i(2) by simp
  qed simp_all
  moreover have "st cnt = push_all s (?cs cnt) dst" unfolding st_def by (rule btree_node.equality) (auto simp: fun_eq_iff)
  moreover have "st 0 = dst\<lparr>slots := (\<lambda>i. if s \<le> i \<and> i < s + cnt then slots src (a + (i - s)) else slots dst i)\<rparr>"
    by (rule btree_node.equality) (simp_all add: st_def fun_eq_iff)
  ultimately show ?thesis by simp
qed

lemma slow_copy:
  assumes "prefix_length src \<noteq> prefix_length dst" "node_count dst \<le> s"
    "\<And>i. i < cnt \<Longrightarrow> prefix_length dst \<le> length (copyFullKey src (a + i))"
    "slots_begin + SLOT_SIZE * (s + cnt) + total_size (map (\<lambda>i. moved src dst (a + i)) [0..<cnt]) \<le> data_offset dst"
    "data_offset dst + space_used dst \<le> EFFECTIVE_PAGE_SIZE"
  shows "foldR (\<lambda>i d. copyKeyValue (a + i) d (s + i) src) [0..<cnt] dst
    = Inr (push_all s (map (\<lambda>i. moved src dst (a + i)) [0..<cnt]) dst)"
proof -
  let ?cs = "\<lambda>k. map (\<lambda>i. moved src dst (a + i)) [0..<k]"
  have mono: "total_size (?cs k) + cell_size (moved src dst (a + k)) \<le> total_size (?cs cnt)" if "k < cnt" for k
  proof -
    have "?cs cnt = ?cs (Suc k) @ map (\<lambda>i. moved src dst (a + i)) [Suc k..<cnt]"
      using that by (metis Suc_leI map_append upt_split)
    then show ?thesis by simp
  qed
  have "\<exists>d. foldR (\<lambda>i d. copyKeyValue (a + i) d (s + i) src) [0..<cnt] dst = Inr d \<and> d = push_all s (?cs cnt) dst"
  proof (rule foldR_upt_invariant)
    fix i d assume i: "i < cnt" "d = push_all s (?cs i) dst"
    let ?k = "drop (prefix_length dst) (copyFullKey src (a + i))"
    have m: "moved src dst (a + i) = (head ?k, ?k, getPayload src (a + i))" using assms(1) by (simp add: moved_def Let_def)
    have end_le: "slots_end dst \<le> slots_begin + SLOT_SIZE * (s + cnt)"
      using assms(2) by (simp add: slots_end_def SLOT_SIZE_def)
    have same_end: "slots_end (push_all s (?cs i) dst) = slots_end dst" by (simp add: slots_end_def)
    have "slots_end d + (length (copyFullKey src (a + i)) - prefix_length d + length (getPayload src (a + i))) \<le> data_offset d"
      using assms(4) mono [OF i(1)] end_le by (simp add: i(2) m cell_size_def same_end)
    then have "copyKeyValue (a + i) d (s + i) src = Inr (node_push (s + i) (moved src dst (a + i)) d)"
      unfolding copyKeyValue_def
      using assms(3) [OF i(1)] assms(4,5) mono [OF i(1)] by (subst storeKeyValue_push) (simp_all add: i(2) m)
    then show "\<exists>d'. copyKeyValue (a + i) d (s + i) src = Inr d' \<and> d' = push_all s (?cs (Suc i)) dst"
      by (simp add: i(2) push_all_snoc)
  qed simp_all
  then show ?thesis by simp
qed

lemma copy_range:
  assumes "node_count dst = s" "prefix_length src = prefix_length dst \<longrightarrow> total_space_used src = space_used src"
    "\<And>i. i < cnt \<Longrightarrow> prefix_length dst \<le> length (copyFullKey src (a + i))"
    "slots_begin + SLOT_SIZE * (s + cnt) + total_size (map (\<lambda>i. moved src dst (a + i)) [0..<cnt]) \<le> data_offset dst"
    "data_offset dst + space_used dst \<le> EFFECTIVE_PAGE_SIZE"
  shows "copyKeyValueRange dst s a cnt src
    = Inr ((push_all s (map (\<lambda>i. moved src dst (a + i)) [0..<cnt]) dst)\<lparr>node_count := s + cnt\<rparr>)"
proof -
  let ?cs = "map (\<lambda>i. moved src dst (a + i)) [0..<cnt]"
  have "SLOT_SIZE * (s + cnt) < 65536" using assms(4,5) by (simp add: EFFECTIVE_PAGE_SIZE_def)
  then have c: "tr16 (int s + int cnt) = s + cnt" by (subst tr16_nat) (simp_all add: SLOT_SIZE_def)
  have "copyKeyValueRange dst s a cnt src = bindR (Inr (push_all s ?cs dst))
     (\<lambda>dst. let dst = dst\<lparr>node_count := tr16 (int (node_count dst) + int cnt)\<rparr>
              in bindR (assertR (slots_end dst \<le> data_offset dst)) (\<lambda>_. Inr dst))"
  proof (cases "prefix_length src = prefix_length dst")
    case True
    then have "moved src dst = cell src" by (simp add: moved_def fun_eq_iff)
    then show ?thesis using True assms(2,4,5) fast_copy [of s cnt src a dst]
      by (simp add: copyKeyValueRange_def del: push_all_fields)
  next
    case False
    then show ?thesis using assms slow_copy [of src dst s cnt a]
      by (simp add: copyKeyValueRange_def del: push_all_fields)
  qed
  moreover have "slots_begin + SLOT_SIZE * (s + cnt) \<le> data_offset dst - total_size ?cs" using assms(4) by simp
  ultimately show ?thesis using assms(1) c by (simp add: slots_end_def Let_def)
qed

section \<open>Cells, layout and search\<close>

definition entries :: "btree_node \<Rightarrow> (bytes \<times> bytes) list" where
  "entries n = map (\<lambda>i. (copyFullKey n i, getPayload n i)) [0..<node_count n]"

lemma length_cells [simp]: "length (cells n) = node_count n"
  by (simp add: cells_def)

lemma entries_cells: "entries n = map (\<lambda>(h, k, v). (getPrefix n @ k, v)) (cells n)"
  by (simp add: entries_def cells_def cell_def copyFullKey_def)

lemma keys_entries: "node_keys n = map fst (entries n)"
  by (simp add: entries_def node_keys_def)

lemma suffixes_cells: "suffixes n = map (fst \<circ> snd) (cells n)"
  by (simp add: suffixes_def cells_def cell_def)

lemma total_space_cells: "total_space_used n = fk_length (upper_fence n) + fk_length (lower_fence n) + total_size (cells n)"
  by (simp add: total_space_used_def cells_def total_size_def comp_def)

lemma search_ok_cells:
  "search_ok n \<longleftrightarrow> sorted_wrt (<) (map (fst \<circ> snd) (cells n)) \<and> (\<forall>(h, k, v) \<in> set (cells n). h = head k)
     \<and> length (hint n) = hint_count \<and> (2 * hint_count < node_count n \<longrightarrow> hint n = hints_of n)"
  by (auto simp: search_ok_def suffixes_cells cells_def cell_def)

lemma makeHint_fields [simp]:
  "cells (makeHint n) = cells n" "getPrefix (makeHint n) = getPrefix n" "getLowerFenceKey (makeHint n) = getLowerFenceKey n"
  "getUpperFenceKey (makeHint n) = getUpperFenceKey n" "node_count (makeHint n) = node_count n" "is_leaf (makeHint n) = is_leaf n"
  "layout_ok F (makeHint n) = layout_ok F n" "freeSpace (makeHint n) = freeSpace n" "upper_swip (makeHint n) = upper_swip n"
  "has_garbage (makeHint n) = has_garbage n"
  by (simp_all add: makeHint_def cells_def cell_def getKey_def getPayload_def getKeyLen_def getPayloadLength_def getPrefix_def
      getLowerFenceKey_def getUpperFenceKey_def fence_bytes_def layout_ok_def region_ok_def fence_ok_def slots_end_def
      total_space_used_def freeSpace_def)

lemma search_ok_makeHint:
  "search_ok (makeHint n) \<longleftrightarrow> sorted_wrt (<) (map (fst \<circ> snd) (cells n)) \<and> (\<forall>(h, k, v) \<in> set (cells n). h = head k)"
  unfolding search_ok_cells makeHint_fields by (simp add: makeHint_def hints_of_def)

lemma layout_prefix:
  assumes "layout_ok F n" "prefix_length n \<noteq> 0"
  obtains l u where "getLowerFenceKey n = Some l" "getUpperFenceKey n = Some u" "prefix_length n = common_prefix l u"
    "data_offset n \<le> fk_offset (lower_fence n)" "l = read_bytes (heap n) (fk_offset (lower_fence n)) (fk_length (lower_fence n))"
proof -
  have "fence_prefix F (getLowerFenceKey n) (getUpperFenceKey n) \<noteq> 0" using assms by (simp add: layout_ok_def)
  then obtain l u where lu: "getLowerFenceKey n = Some l" "getUpperFenceKey n = Some u"
    "FLAGS_btree_prefix_compression F"
    by (auto simp: fence_prefix_def split: if_splits option.splits)
  moreover have "fence_ok n (lower_fence n)" using assms(1) by (simp add: layout_ok_def)
  ultimately show ?thesis using assms(1) that
    by (auto simp: layout_ok_def fence_prefix_def getLowerFenceKey_def fence_bytes_def fence_ok_def region_ok_def split: if_splits)
qed

text \<open>The prefix is the start of the lower fence.\<close>

lemma prefix_of_fence:
  assumes "layout_ok F n" "getLowerFenceKey n = Some l"
  shows "getPrefix n = take (prefix_length n) l"
proof (cases "prefix_length n = 0")
  case False
  with assms(1) obtain l' u where l': "getLowerFenceKey n = Some l'" "prefix_length n = common_prefix l' u"
    "l' = read_bytes (heap n) (fk_offset (lower_fence n)) (fk_length (lower_fence n))"
    by (rule layout_prefix)
  have "prefix_length n \<le> fk_length (lower_fence n)"
    using common_prefix_take [of "prefix_length n" l' u] l'(2,3) by simp
  then show ?thesis using l' assms(2) by (simp add: getPrefix_def read_bytes_def take_map)
qed (simp add: getPrefix_def read_bytes_def)

lemma layout_okD:
  assumes "layout_ok F n"
  shows "slots_end n \<le> data_offset n" "data_offset n + space_used n \<le> EFFECTIVE_PAGE_SIZE"
    "total_space_used n = space_used n" "prefix_length n = fence_prefix F (getLowerFenceKey n) (getUpperFenceKey n)"
    "\<And>i. i < node_count n \<Longrightarrow> region_ok n (slot_offset (slots n i)) (cell_size (cell n i))"
  using assms by (simp_all add: layout_ok_def)

text \<open>Writing below the data offset changes neither the fences nor the prefix.\<close>

lemma layout_frame:
  assumes "layout_ok F n" "\<And>a. data_offset n \<le> a \<Longrightarrow> heap n' a = heap n a" "data_offset n' \<le> data_offset n"
    "lower_fence n' = lower_fence n" "upper_fence n' = upper_fence n" "prefix_length n' = prefix_length n"
  shows "getLowerFenceKey n' = getLowerFenceKey n" "getUpperFenceKey n' = getUpperFenceKey n" "getPrefix n' = getPrefix n"
    "fence_ok n' (lower_fence n')" "fence_ok n' (upper_fence n')"
proof -
  have rd: "read_bytes (heap n') off len = read_bytes (heap n) off len" if "data_offset n \<le> off" for off len
    using that assms(2) by (intro read_frame) simp
  have fence: "fence_bytes n' fk = fence_bytes n fk" "fence_ok n' fk" if "fence_ok n fk" for fk
    using that rd assms(3) by (auto simp: fence_ok_def fence_bytes_def region_ok_def)
  have "fence_ok n (lower_fence n)" "fence_ok n (upper_fence n)" using assms(1) by (simp_all add: layout_ok_def)
  then show "getLowerFenceKey n' = getLowerFenceKey n" "getUpperFenceKey n' = getUpperFenceKey n"
    "fence_ok n' (lower_fence n')" "fence_ok n' (upper_fence n')"
    using fence by (simp_all add: getLowerFenceKey_def getUpperFenceKey_def assms(4,5))
  show "getPrefix n' = getPrefix n"
  proof (cases "prefix_length n = 0")
    case False
    with assms(1) have "data_offset n \<le> fk_offset (lower_fence n)" by (rule layout_prefix)
    then show ?thesis using rd by (simp add: getPrefix_def assms(4,6))
  qed (simp add: getPrefix_def read_bytes_def assms(6))
qed

text \<open>Extending a node whose layout is right by a sequence of records.\<close>

lemma extend_layout:
  assumes "layout_ok F n" "slots_begin + SLOT_SIZE * (node_count n + length cs) + total_size cs \<le> data_offset n"
  defines "n' \<equiv> (push_all (node_count n) cs n)\<lparr>node_count := node_count n + length cs\<rparr>"
  shows "layout_ok F n'" "cells n' = cells n @ cs" "getPrefix n' = getPrefix n" "getLowerFenceKey n' = getLowerFenceKey n"
    "getUpperFenceKey n' = getUpperFenceKey n" "data_offset n' + space_used n' = data_offset n + space_used n"
    "data_offset n' = data_offset n - total_size cs"
proof -
  note L = layout_okD [OF assms(1)]
  have room: "total_size cs \<le> data_offset n" "data_offset n \<le> EFFECTIVE_PAGE_SIZE" using assms(2) L(2) by simp_all
  have hp: "heap n' a = heap n a" if "data_offset n \<le> a" for a using push_all_heap [OF room(1) that] by (simp add: n'_def)
  note frame = layout_frame [OF assms(1) hp]
  show low: "getLowerFenceKey n' = getLowerFenceKey n" and up: "getUpperFenceKey n' = getUpperFenceKey n"
    and "getPrefix n' = getPrefix n" by (rule frame; simp add: n'_def)+
  have slot: "slots n' i = slots n i" if "i < node_count n" for i using that by (simp add: n'_def push_all_slot)
  have old: "cell n' i = cell n i" if "i < node_count n" for i
    using L(5) [OF that] hp slot [OF that] by (intro cell_frame) (simp_all add: region_ok_def)
  have new: "cell n' (node_count n + i) = cs ! i"
    "region_ok n' (slot_offset (slots n' (node_count n + i))) (cell_size (cs ! i))" if "i < length cs" for i
    using push_all_cell [OF that room, of "node_count n"]
    by (simp_all add: n'_def cell_def getKey_def getPayload_def getKeyLen_def getPayloadLength_def region_ok_def)
  have "map (cell n') [node_count n..<node_count n + length cs] = cs"
    using new(1) by (intro nth_equalityI) simp_all
  then have "map (cell n') [0..<node_count n + length cs] = cells n @ cs"
    using old by (simp add: upt_add_eq_append [of 0 "node_count n"] cells_def)
  then show cells: "cells n' = cells n @ cs" by (simp add: cells_def n'_def)
  show "data_offset n' + space_used n' = data_offset n + space_used n" "data_offset n' = data_offset n - total_size cs"
    using room by (simp_all add: n'_def)
  have "region_ok n' (slot_offset (slots n' i)) (getKeyLen n' i + getPayloadLength n' i)" if "i < node_count n'" for i
  proof (cases "i < node_count n")
    case True
    then have "cell_size (cell n' i) = cell_size (cell n i)" by (simp only: old)
    then show ?thesis using L(5) [OF True] slot [OF True] by (auto simp: region_ok_def n'_def)
  next
    case False
    then obtain j where j: "i = node_count n + j" by (metis le_Suc_ex not_less)
    moreover have jl: "j < length cs" using that by (simp add: n'_def j)
    ultimately have "cell_size (cell n' i) = cell_size (cs ! j)" using new(1) by simp
    then show ?thesis using new(2) [OF jl] by (simp add: j)
  qed
  moreover have "total_space_used n' = total_space_used n + total_size cs"
    unfolding total_space_cells cells by (simp add: n'_def)
  ultimately show "layout_ok F n'"
    using L(2-4) room assms(2) frame(4,5) low up unfolding layout_ok_def by (simp add: n'_def slots_end_def)
qed

section \<open>Fences\<close>

definition blank :: "btree_node \<Rightarrow> bool" where
  "blank n \<longleftrightarrow> node_count n = 0 \<and> space_used n = 0 \<and> data_offset n = EFFECTIVE_PAGE_SIZE
     \<and> lower_fence n = \<lparr>fk_offset = 0, fk_length = 0\<rparr> \<and> upper_fence n = \<lparr>fk_offset = 0, fk_length = 0\<rparr>"

definition fence_size :: "bytes option \<Rightarrow> nat" where
  "fence_size k = (case k of None \<Rightarrow> 0 | Some k \<Rightarrow> length k)"

lemma blank_new [simp]: "blank (newBTreeNode leaf)"
  by (simp add: blank_def newBTreeNode_def)

lemma freeSpace_layout: "slots_end n \<le> data_offset n \<Longrightarrow> data_offset n \<le> EFFECTIVE_PAGE_SIZE \<Longrightarrow>
  freeSpace n = data_offset n - slots_end n"
  by (simp add: freeSpace_def tr16_nat EFFECTIVE_PAGE_SIZE_def nat_diff_distrib')

lemma read_write_same: "read_bytes (write_bytes off bs h) off (length bs) = bs"
  using read_write [of 0 "length bs" bs off h] by simp

lemma insertFence_Some:
  assumes "slots_end n + length k \<le> data_offset n" "data_offset n + space_used n \<le> EFFECTIVE_PAGE_SIZE"
  shows "insertFence upd (Some k) n = Inr (upd (\<lambda>_. \<lparr>fk_offset = data_offset n - length k, fk_length = length k\<rparr>)
    (n\<lparr>data_offset := data_offset n - length k, space_used := space_used n + length k,
       heap := write_bytes (data_offset n - length k) k (heap n)\<rparr>))"
proof -
  have off: "tr16 (int (data_offset n) - int (length k)) = data_offset n - length k"
    using assms by (subst tr16_nat) (simp_all add: EFFECTIVE_PAGE_SIZE_def nat_diff_distrib')
  have su: "tr16 (int (space_used n) + int (length k)) = space_used n + length k"
    using assms by (subst tr16_nat) (simp_all add: EFFECTIVE_PAGE_SIZE_def)
  have "length k \<le> freeSpace n" using assms by (subst freeSpace_layout) simp_all
  then show ?thesis by (simp add: insertFence_def off su Let_def)
qed

text \<open>A fence that is absent, or stored in a region of its own.\<close>

definition fence_at :: "btree_node \<Rightarrow> fence_key \<Rightarrow> bytes option \<Rightarrow> bool" where
  "fence_at n fk k \<longleftrightarrow> fence_bytes n fk = k \<and> fk_length fk = fence_size k \<and> (k = None \<longrightarrow> fk_offset fk = 0)
     \<and> (k \<noteq> None \<longrightarrow> region_ok n (fk_offset fk) (fk_length fk))"

lemma fence_at_ok: "fence_at n fk k \<Longrightarrow> fence_ok n fk"
  by (cases k) (auto simp: fence_at_def fence_ok_def fence_size_def)

lemma fence_at_frame:
  assumes "fence_at n fk k" "\<And>a. data_offset n \<le> a \<Longrightarrow> heap n' a = heap n a" "data_offset n' \<le> data_offset n"
  shows "fence_at n' fk k"
proof (cases k)
  case (Some b)
  then have reg: "data_offset n \<le> fk_offset fk" using assms(1) by (simp add: fence_at_def region_ok_def)
  then have "read_bytes (heap n') (fk_offset fk) (fk_length fk) = read_bytes (heap n) (fk_offset fk) (fk_length fk)"
    using assms(2) by (intro read_frame) simp
  then show ?thesis using assms(1,3) reg by (auto simp: fence_at_def fence_bytes_def region_ok_def)
qed (use assms(1) in \<open>simp add: fence_at_def fence_bytes_def\<close>)

lemma insertFence_spec:
  assumes "slots_end n + fence_size k \<le> data_offset n" "data_offset n + space_used n \<le> EFFECTIVE_PAGE_SIZE"
    "upd = lower_fence_update \<and> get = lower_fence \<or> upd = upper_fence_update \<and> get = upper_fence"
    "get n = \<lparr>fk_offset = 0, fk_length = 0\<rparr>"
  obtains n' where "insertFence upd k n = Inr n'" "data_offset n' = data_offset n - fence_size k"
    "space_used n' = space_used n + fence_size k" "fence_at n' (get n') k" "\<And>a. data_offset n \<le> a \<Longrightarrow> heap n' a = heap n a"
    "n' = upd (\<lambda>_. get n') (n\<lparr>data_offset := data_offset n', space_used := space_used n', heap := heap n'\<rparr>)"
proof (cases k)
  case None
  then show ?thesis using assms(3,4)
    by (intro that [of n]) (auto simp: insertFence_def fence_size_def fence_at_def fence_bytes_def)
next
  case (Some b)
  let ?off = "data_offset n - length b"
  let ?n = "upd (\<lambda>_. \<lparr>fk_offset = ?off, fk_length = length b\<rparr>)
      (n\<lparr>data_offset := ?off, space_used := space_used n + length b, heap := write_bytes ?off b (heap n)\<rparr>)"
  have pos: "0 < ?off" using assms(1) Some by (simp add: fence_size_def slots_end_def slots_begin_def)
  have "insertFence upd k n = Inr ?n" unfolding Some using assms(1,2) Some by (intro insertFence_Some) (simp_all add: fence_size_def)
  then show ?thesis using assms pos Some
    by (intro that [of ?n])
      (auto simp: fence_size_def fence_at_def fence_bytes_def read_write_same region_ok_def, auto simp: write_bytes_def)
qed

lemma setFences_blank:
  assumes "blank n" "slots_begin + fence_size l + fence_size u \<le> EFFECTIVE_PAGE_SIZE"
  obtains n' where "setFences F l u n = Inr n'" "layout_ok F n'" "getLowerFenceKey n' = l" "getUpperFenceKey n' = u"
    "cells n' = []" "prefix_length n' = fence_prefix F l u" "is_leaf n' = is_leaf n" "has_garbage n' = has_garbage n"
    "hint n' = hint n" "data_offset n' = EFFECTIVE_PAGE_SIZE - (fence_size l + fence_size u)"
    "space_used n' = fence_size l + fence_size u"
proof -
  note b = assms(1) [unfolded blank_def]
  obtain n1 where n1: "insertFence lower_fence_update l n = Inr n1" "data_offset n1 = data_offset n - fence_size l"
    "space_used n1 = space_used n + fence_size l" "fence_at n1 (lower_fence n1) l" "\<And>a. data_offset n \<le> a \<Longrightarrow> heap n1 a = heap n a"
    "n1 = n\<lparr>data_offset := data_offset n1, space_used := space_used n1, heap := heap n1, lower_fence := lower_fence n1\<rparr>"
    using assms(2) b by (elim insertFence_spec [of n l lower_fence_update lower_fence, rotated -1]) (simp_all add: slots_end_def)
  have e1: "node_count n1 = 0" "upper_fence n1 = \<lparr>fk_offset = 0, fk_length = 0\<rparr>" using b by (subst n1(6); simp)+
  obtain n2 where n2: "insertFence upper_fence_update u n1 = Inr n2" "data_offset n2 = data_offset n1 - fence_size u"
    "space_used n2 = space_used n1 + fence_size u" "fence_at n2 (upper_fence n2) u" "\<And>a. data_offset n1 \<le> a \<Longrightarrow> heap n2 a = heap n1 a"
    "n2 = n1\<lparr>data_offset := data_offset n2, space_used := space_used n2, heap := heap n2, upper_fence := upper_fence n2\<rparr>"
    using assms(2) b n1(2,3) e1
    by (elim insertFence_spec [of n1 u upper_fence_update upper_fence, rotated -1]) (simp_all add: slots_end_def)
  let ?n = "n2\<lparr>prefix_length := fence_prefix F l u\<rparr>"
  have same: "node_count n2 = 0" "lower_fence n2 = lower_fence n1" "is_leaf n2 = is_leaf n" "has_garbage n2 = has_garbage n" "hint n2 = hint n"
    using b by (subst n2(6); subst n1(6); simp)+
  have l: "fence_at n2 (lower_fence n2) l" unfolding same(2) by (rule fence_at_frame [OF n1(4) n2(5)]) (simp_all add: n2(2))
  have "fence_bytes ?n fk = fence_bytes n2 fk" for fk by (simp add: fence_bytes_def)
  then have keys: "getLowerFenceKey ?n = l" "getUpperFenceKey ?n = u"
    using l n2(4) by (simp_all add: getLowerFenceKey_def getUpperFenceKey_def fence_at_def)
  have "layout_ok F ?n"
    using assms(2) b l n2(2,3,4) n1(2,3) same(1) fence_at_ok [OF l] fence_at_ok [OF n2(4)] unfolding layout_ok_def keys
    by (simp add: slots_end_def total_space_used_def fence_ok_def region_ok_def fence_at_def)
  then show ?thesis using that [of ?n] n1(1-3) n2(1-3) b same keys by (simp add: setFences_def cells_def)
qed

end
