(* ===== verification/BTreeUpdate.thy ===== *)
theory BTreeUpdate
  imports BTreeBuild
begin

text \<open>
  The update operations of a B-tree node keep it well formed and act on its entries, the sorted list of
  full keys with their payloads, as one expects: compaction changes nothing but the free space,
  insertion and removal are those of a sorted association list, and no assertion of the code fires.
\<close>

lemmas node_view_defs = cells_def cell_def getKey_def getPayload_def getKeyLen_def getPayloadLength_def getPrefix_def
  getLowerFenceKey_def getUpperFenceKey_def fence_bytes_def

lemma makeHint_header [simp]:
  "prefix_length (makeHint n) = prefix_length n" "space_used (makeHint n) = space_used n" "data_offset (makeHint n) = data_offset n"
  "hint (makeHint n) = hints_of n" "hints_of (makeHint n) = hints_of n" "slots (makeHint n) = slots n"
  "slots_end (makeHint n) = slots_end n"
  by (simp_all add: makeHint_def hints_of_def slots_end_def)

lemma header_update_view [simp]:
  "cells (n\<lparr>upper_swip := x\<rparr>) = cells n" "cells (n\<lparr>has_garbage := g\<rparr>) = cells n"
  "getPrefix (n\<lparr>upper_swip := x\<rparr>) = getPrefix n" "getPrefix (n\<lparr>has_garbage := g\<rparr>) = getPrefix n"
  "getLowerFenceKey (n\<lparr>upper_swip := x\<rparr>) = getLowerFenceKey n" "getLowerFenceKey (n\<lparr>has_garbage := g\<rparr>) = getLowerFenceKey n"
  "getUpperFenceKey (n\<lparr>upper_swip := x\<rparr>) = getUpperFenceKey n" "getUpperFenceKey (n\<lparr>has_garbage := g\<rparr>) = getUpperFenceKey n"
  "layout_ok F (n\<lparr>upper_swip := x\<rparr>) = layout_ok F n" "layout_ok F (n\<lparr>has_garbage := g\<rparr>) = layout_ok F n"
  "freeSpace (n\<lparr>upper_swip := x\<rparr>) = freeSpace n" "freeSpace (n\<lparr>has_garbage := g\<rparr>) = freeSpace n"
  by (simp_all add: node_view_defs layout_ok_def region_ok_def fence_ok_def slots_end_def total_space_used_def freeSpace_def)

section \<open>Compaction\<close>

text \<open>Two nodes that differ in where things are stored and in hints only.\<close>

definition same_content :: "btree_node \<Rightarrow> btree_node \<Rightarrow> bool" where
  "same_content n n' \<longleftrightarrow> cells n' = cells n \<and> prefix_length n' = prefix_length n \<and> getPrefix n' = getPrefix n
     \<and> getLowerFenceKey n' = getLowerFenceKey n \<and> getUpperFenceKey n' = getUpperFenceKey n
     \<and> is_leaf n' = is_leaf n \<and> upper_swip n' = upper_swip n \<and> space_used n' = space_used n"

lemma same_content_count: "same_content n n' \<Longrightarrow> node_count n' = node_count n"
  by (metis length_cells same_content_def)

lemma fence_sizes:
  assumes "layout_ok F n"
  shows "fence_size (getLowerFenceKey n) = fk_length (lower_fence n)" "fence_size (getUpperFenceKey n) = fk_length (upper_fence n)"
proof -
  have pos: "0 < data_offset n" using assms by (simp add: layout_ok_def slots_end_def slots_begin_def)
  show "fence_size (getLowerFenceKey n) = fk_length (lower_fence n)" "fence_size (getUpperFenceKey n) = fk_length (upper_fence n)"
    using assms pos by (auto simp: layout_ok_def fence_ok_def region_ok_def getLowerFenceKey_def getUpperFenceKey_def
        fence_bytes_def fence_size_def)
qed

lemma space_used_cells:
  "layout_ok F n \<Longrightarrow> space_used n = fence_size (getLowerFenceKey n) + fence_size (getUpperFenceKey n) + total_size (cells n)"
  using fence_sizes [of F n] by (simp add: layout_ok_def total_space_cells)

lemma freeSpaceAfterCompaction_layout:
  "layout_ok F n \<Longrightarrow> freeSpaceAfterCompaction n = EFFECTIVE_PAGE_SIZE - slots_end n - space_used n"
  by (simp add: layout_ok_def freeSpaceAfterCompaction_def tr16_nat EFFECTIVE_PAGE_SIZE_def nat_diff_distrib')

lemma prefix_same:
  assumes "layout_ok F n" "layout_ok F n'" "getLowerFenceKey n' = getLowerFenceKey n" "getUpperFenceKey n' = getUpperFenceKey n"
  shows "prefix_length n' = prefix_length n" "getPrefix n' = getPrefix n"
proof -
  show p: "prefix_length n' = prefix_length n" using assms by (simp add: layout_ok_def)
  show "getPrefix n' = getPrefix n"
  proof (cases "prefix_length n = 0")
    case False
    with assms(1) obtain l where "getLowerFenceKey n = Some l" by (rule layout_prefix)
    then show ?thesis using prefix_of_fence assms p by metis
  qed (use p in \<open>simp add: getPrefix_def read_bytes_def\<close>)
qed

lemma compactify_spec:
  assumes "layout_ok F n"
  obtains n' where "compactify F n = Inr n'" "layout_ok F n'" "same_content n n'" "hint n' = hints_of n'"
    "freeSpace n' = freeSpaceAfterCompaction n" "has_garbage n' = False"
proof -
  note su = space_used_cells [OF assms]
  have L: "slots_begin + SLOT_SIZE * node_count n \<le> data_offset n" "data_offset n + space_used n \<le> EFFECTIVE_PAGE_SIZE"
    "total_space_used n = space_used n" using assms by (simp_all add: layout_ok_def slots_end_def)
  let ?l = "getLowerFenceKey n" and ?u = "getUpperFenceKey n"
  obtain t where t: "setFences F ?l ?u (newBTreeNode (is_leaf n)) = Inr t" "layout_ok F t" "getLowerFenceKey t = ?l"
    "getUpperFenceKey t = ?u" "cells t = []" "prefix_length t = fence_prefix F ?l ?u" "is_leaf t = is_leaf (newBTreeNode (is_leaf n))"
    "has_garbage t = has_garbage (newBTreeNode (is_leaf n))" "hint t = hint (newBTreeNode (is_leaf n))"
    "data_offset t = EFFECTIVE_PAGE_SIZE - (fence_size ?l + fence_size ?u)" "space_used t = fence_size ?l + fence_size ?u"
    by (rule setFences_blank [of "newBTreeNode (is_leaf n)" ?l ?u F]) (use su L(1,2) in simp_all)
  have same: "prefix_length t = prefix_length n" "getPrefix t = getPrefix n" using prefix_same [OF assms t(2-4)] by simp_all
  have cnt: "node_count t = 0" using t(5) by (metis length_cells list.size(3))
  have cs: "map (\<lambda>i. moved n t (0 + i)) [0..<node_count n] = cells n" using same(1) by (simp add: moved_def cells_def)
  have room: "slots_begin + SLOT_SIZE * (node_count t + length (cells n)) + total_size (cells n) \<le> data_offset t"
    using L(1,2) su by (simp add: t(10) cnt)
  define t' where "t' = (push_all (node_count t) (cells n) t)\<lparr>node_count := node_count t + length (cells n)\<rparr>"
  have c: "copyKeyValueRange t 0 0 (node_count n) n = Inr t'"
    using copy_range [of t 0 n "node_count n" 0] same cnt room L t(2) unfolding cs
    by (simp add: t'_def layout_ok_def copyFullKey_def)
  note e = extend_layout [OF t(2) room, folded t'_def]
  let ?n = "makeHint (t'\<lparr>upper_swip := upper_swip n\<rparr>)"
  have f: "prefix_length t' = prefix_length n" "is_leaf t' = is_leaf n" "space_used t' = space_used n" "\<not> has_garbage t'"
    using t(7,8,11) same(1) su by (simp_all add: t'_def newBTreeNode_def)
  have "freeSpace t' = freeSpaceAfterCompaction n"
    using e(1,7) su unfolding freeSpaceAfterCompaction_layout [OF assms]
    by (subst freeSpace_layout) (simp_all add: layout_ok_def t(10) t'_def slots_end_def cnt)
  then have "compactify F n = Inr ?n" using t(1) c by (simp add: compactify_def)
  moreover have "same_content n ?n"
    using e(2-5) t(3-5) same(2) f by (simp add: same_content_def)
  ultimately show ?thesis using that e(1) \<open>freeSpace t' = _\<close> f(4) by simp
qed

section \<open>Insertion\<close>

lemma search_ok_same:
  "search_ok n \<Longrightarrow> same_content n n' \<Longrightarrow> hint n' = hints_of n' \<Longrightarrow> search_ok n'"
  unfolding search_ok_cells by (simp add: same_content_def)

lemma prepare_spec:
  assumes "layout_ok F n" "search_ok n" "canInsert kl pl n" "prefix_length n \<le> kl" "SLOT_SIZE + kl + pl < 65536"
  obtains n1 where "prepareInsert F kl pl n = Inr (True, n1)" "layout_ok F n1" "search_ok n1" "same_content n n1"
    "slots_end n1 + SLOT_SIZE + (kl - prefix_length n1 + pl) \<le> data_offset n1"
proof -
  let ?sp = "SLOT_SIZE + (kl - prefix_length n) + pl"
  have sp: "spaceNeeded kl pl (prefix_length n) = ?sp"
    using assms(4,5) by (simp add: spaceNeeded_def tr16_nat nat_diff_distrib' nat_add_distrib of_nat_diff [symmetric] del: of_nat_diff)
  have fits: "slots_end m + SLOT_SIZE + (kl - prefix_length n + pl) \<le> data_offset m" if "layout_ok F m" "?sp \<le> freeSpace m" for m
    using that(2) freeSpace_layout [of m] layout_okD(1,2) [OF that(1)] by simp
  show ?thesis
  proof (cases "?sp \<le> freeSpace n")
    case True
    then show ?thesis using that [of n] assms(1,2) fits [of n] sp
      by (simp add: prepareInsert_def requestSpaceFor_def same_content_def)
  next
    case False
    then have sp': "?sp \<le> freeSpaceAfterCompaction n" using assms(3) sp by (simp add: canInsert_def hasEnoughSpaceFor_def)
    obtain n1 where n1: "compactify F n = Inr n1" "layout_ok F n1" "same_content n n1" "hint n1 = hints_of n1"
      "freeSpace n1 = freeSpaceAfterCompaction n" "has_garbage n1 = False"
      using assms(1) by (rule compactify_spec)
    show ?thesis
      using that [of n1] n1 False sp sp' fits [of n1] search_ok_same [OF assms(2) n1(3,4)]
      by (simp add: prepareInsert_def requestSpaceFor_def same_content_def)
  qed
qed

lemma cell_slots_cong: "slots n' j = slots n i \<Longrightarrow> heap n' = heap n \<Longrightarrow> cell n' j = cell n i"
  by (simp add: node_view_defs)

lemma insert_layout:
  assumes "layout_ok F n" "i \<le> node_count n" "slots_end n + SLOT_SIZE + cell_size c \<le> data_offset n"
  defines "n' \<equiv> (node_push i c (shift_up i n))\<lparr>node_count := node_count n + 1\<rparr>"
  shows "layout_ok F n'" "cells n' = take i (cells n) @ c # drop i (cells n)" "getPrefix n' = getPrefix n"
    "getLowerFenceKey n' = getLowerFenceKey n" "getUpperFenceKey n' = getUpperFenceKey n"
proof -
  note L = layout_okD [OF assms(1)]
  have hp: "heap n' a = heap n a" if "data_offset n \<le> a" for a
    using node_push_heap [of c "shift_up i n" a i] that assms(3) by (simp add: n'_def shift_up_def)
  note frame = layout_frame [OF assms(1) hp]
  show low: "getLowerFenceKey n' = getLowerFenceKey n" and up: "getUpperFenceKey n' = getUpperFenceKey n"
    and "getPrefix n' = getPrefix n" by (rule frame; simp add: n'_def shift_up_def)+
  have old: "slots n' j = slots n k \<and> cell n' j = cell n k" if "j < i \<and> k = j \<or> i < j \<and> j \<le> node_count n \<and> k = j - 1" for j k
  proof
    show slot: "slots n' j = slots n k" using that by (auto simp: n'_def node_push_slot shift_up_def)
    have "k < node_count n" using that assms(2) by auto
    then have "data_offset n \<le> slot_offset (slots n k)" using L(5) by (simp add: region_ok_def)
    then have "read_bytes (heap n') (slot_offset (slots n k) + a) len = read_bytes (heap n) (slot_offset (slots n k) + a) len" for a len
      using hp by (intro read_frame) simp
    from this [of 0] this show "cell n' j = cell n k" using slot by (simp add: node_view_defs)
  qed
  have "cell n' i = cell (node_push i c (shift_up i n)) i" by (simp add: n'_def node_view_defs)
  then have new: "cell n' i = c" "slot_offset (slots n' i) = data_offset n - cell_size c"
    by (simp add: node_push_cell, simp add: n'_def node_push_slot shift_up_def)
  have "cells n' ! j = (take i (cells n) @ c # drop i (cells n)) ! j" if "j < node_count n + 1" for j
    using that assms(2) old [of j j] old [of j "j - 1"] new(1)
    by (cases "j < i"; cases "j = i") (auto simp: cells_def n'_def nth_append nth_Cons' less_Suc_eq_le)
  then show cells: "cells n' = take i (cells n) @ c # drop i (cells n)"
    using assms(2) by (intro nth_equalityI) (simp_all add: n'_def)
  have "region_ok n' (slot_offset (slots n' j)) (getKeyLen n' j + getPayloadLength n' j)" if "j < node_count n + 1" for j
  proof (cases "j = i")
    case True
    have "cell_size (cell n' i) = cell_size c" by (simp only: new(1))
    then show ?thesis using True new(2) assms(3) L(2) by (simp add: region_ok_def n'_def shift_up_def)
  next
    case False
    define k where "k = (if j < i then j else j - 1)"
    have k: "k < node_count n" "slots n' j = slots n k \<and> cell n' j = cell n k"
      using False that assms(2) old [of j k] by (auto simp: k_def)
    then have "cell_size (cell n' j) = cell_size (cell n k)" by simp
    then show ?thesis using L(5) [OF k(1)] k(2) by (auto simp: region_ok_def n'_def shift_up_def)
  qed
  moreover have "total_size (take i (cells n)) + total_size (drop i (cells n)) = total_size (cells n)"
    by (metis append_take_drop_id total_size_simps(3))
  then have "total_space_used n' = space_used n'"
    using L(3) unfolding total_space_cells cells by (simp add: n'_def shift_up_def)
  ultimately show "layout_ok F n'"
    using L(2,4) frame(4,5) low up assms(3) unfolding layout_ok_def
    by (simp add: n'_def slots_end_def shift_up_def)
qed

text \<open>Inserting shifts the hints from the slot on; the shortcut of \<open>updateHint\<close> recomputes enough of them.\<close>

lemma updateHint_insert:
  assumes "search_ok n" "i \<le> node_count n" "node_count n' = node_count n + 1" "hint n' = hint n"
    "\<And>j. j < i \<Longrightarrow> slots n' j = slots n j"
  shows "updateHint i n' = Inr (makeHint n')"
proof -
  let ?D = "node_count n' div (hint_count + 1)"
  define b where "b = (if hint_count * 2 + 1 < node_count n' \<and> (node_count n' - 1) div (hint_count + 1) = ?D \<and> 1 < i div ?D
    then i div ?D - 1 else 0)"
  have len: "length (hint n) = hint_count" using assms(1) by (simp add: search_ok_def)
  have "take b (hint n) = take b (hints_of n')"
  proof (cases "b = 0")
    case False
    then have B: "hint_count * 2 + 1 < node_count n'" "(node_count n' - 1) div (hint_count + 1) = ?D" "b = i div ?D - 1"
      by (auto simp: b_def split: if_splits)
    then have "hint n = hints_of n" using assms(1,3) by (simp add: search_ok_def)
    moreover have "slots n' (?D * (k + 1)) = slots n (?D * (k + 1))" if "k < b" for k
    proof -
      have "0 < ?D" using B(1) by (simp add: hint_count_def div_greater_zero_iff)
      have "k + 2 \<le> i div ?D" using that B(3) by simp
      then have "?D * (k + 2) \<le> ?D * (i div ?D)" by (rule mult_le_mono2)
      also have "\<dots> \<le> i" by simp
      finally have "?D * (k + 1) < i" using \<open>0 < ?D\<close> by (simp add: algebra_simps)
      then show ?thesis by (rule assms(5))
    qed
    moreover have "node_count n div (hint_count + 1) = ?D" using B(2) assms(3) by simp
    ultimately show ?thesis
      by (intro nth_equalityI) (simp_all add: hints_of_def)
  qed simp
  then have "take b (hint n') @ drop b (hints_of n') = hints_of n'" by (simp only: assms(4) append_take_drop_id)
  moreover have "hints_of (n'\<lparr>hint := h\<rparr>) = hints_of n'" for h by (simp add: hints_of_def)
  ultimately show ?thesis unfolding updateHint_def Let_def b_def [symmetric] by (simp add: makeHint_def)
qed

lemma sorted_insert:
  assumes "sorted_wrt (<) ks" "key \<notin> set ks"
  shows "sorted_wrt (<) (take (lower_bound key ks) ks @ key # drop (lower_bound key ks) (ks :: bytes list))"
proof -
  let ?P = "\<lambda>k. k < key"
  have t: "take (lower_bound key ks) ks = takeWhile ?P ks" "drop (lower_bound key ks) ks = dropWhile ?P ks"
    by (simp_all only: lower_bound_def takeWhile_eq_take [symmetric] dropWhile_eq_drop [symmetric])
  have "k < key" if "k \<in> set (takeWhile ?P ks)" for k using set_takeWhileD [OF that] by simp
  moreover have "key < k" if "k \<in> set (dropWhile ?P ks)" for k
  proof -
    have "dropWhile ?P ks \<noteq> []" using that by (metis empty_iff list.set(1))
    then obtain x xs where d: "dropWhile ?P ks = x # xs" by (metis list.exhaust)
    have "\<not> x < key" using hd_dropWhile [of ?P ks] d by (metis list.distinct(1) list.sel(1))
    moreover have "x \<in> set ks" using set_dropWhileD [of x ?P ks] d by simp
    ultimately have "\<not> x < key" "x \<in> set ks" .
    then have "key < x" using assms(2) by (metis linorder_neqE)
    moreover have "sorted_wrt (<) (x # xs)" using assms(1) d by (metis sorted_wrt_append takeWhile_dropWhile_id)
    ultimately show ?thesis using that by (auto simp: d dest: order_less_trans)
  qed
  moreover have "sorted_wrt (<) (takeWhile ?P ks @ dropWhile ?P ks)" using assms(1) by simp
  ultimately show ?thesis unfolding t by (auto simp: sorted_wrt_append dest: order_less_trans)
qed

lemma in_fences_prefix:
  assumes "layout_ok F n" "in_fences (getLowerFenceKey n) (getUpperFenceKey n) key"
  shows "prefix_length n \<le> length key" "take (prefix_length n) key = getPrefix n"
proof -
  have "prefix_length n \<le> length key \<and> take (prefix_length n) key = getPrefix n"
  proof (cases "prefix_length n = 0")
    case False
    with assms(1) obtain l u where f: "getLowerFenceKey n = Some l" "getUpperFenceKey n = Some u" "prefix_length n = common_prefix l u"
      by (rule layout_prefix)
    have "l \<le> key" "key \<le> u" using assms(2) f by (auto simp: in_fences_def)
    moreover have "take (prefix_length n) l = take (prefix_length n) u \<and> prefix_length n \<le> length l \<and> prefix_length n \<le> length u"
      using common_prefix_take [of "prefix_length n" l u] f(3) by simp
    ultimately show ?thesis using between_prefix [of "prefix_length n" l u key] prefix_of_fence [OF assms(1) f(1)] by simp
  qed (simp add: getPrefix_def read_bytes_def)
  then show "prefix_length n \<le> length key" "take (prefix_length n) key = getPrefix n" by simp_all
qed

lemma same_content_view: "same_content n n' \<Longrightarrow> entries n' = entries n \<and> node_keys n' = node_keys n \<and> suffixes n' = suffixes n"
  by (simp add: entries_cells keys_entries suffixes_cells same_content_def)

text \<open>What a key and a payload become in a node that has room for them.\<close>

definition fresh_cell :: "bytes \<Rightarrow> bytes \<Rightarrow> btree_node \<Rightarrow> u32 \<times> bytes \<times> bytes" where
  "fresh_cell key payload n = (head (drop (prefix_length n) key), drop (prefix_length n) key, payload)"

lemma place_cell:
  assumes "layout_ok F n" "search_ok n" "prefix_length n \<le> length key" "take (prefix_length n) key = getPrefix n"
    "slots_end n + SLOT_SIZE + (length key - prefix_length n + length payload) \<le> data_offset n" "key \<notin> set (node_keys n)"
  defines "p \<equiv> lower_bound key (node_keys n)"
  obtains n' where "bindR (storeKeyValue p key payload (shift_up p n))
      (\<lambda>n. updateHint p (n\<lparr>node_count := tr16 (int (node_count n) + 1)\<rparr>)) = Inr n'"
    "layout_ok F n'" "search_ok n'" "entries n' = take p (entries n) @ (key, payload) # drop p (entries n)"
    "getLowerFenceKey n' = getLowerFenceKey n" "getUpperFenceKey n' = getUpperFenceKey n" "is_leaf n' = is_leaf n" "upper_swip n' = upper_swip n"
proof -
  note L = layout_okD(1,2) [OF assms(1)]
  let ?k = "drop (prefix_length n) key"
  let ?c = "fresh_cell key payload n"
  have key: "key = getPrefix n @ ?k" using assms(4) append_take_drop_id by metis
  have p: "p \<le> node_count n" unfolding p_def lower_bound_def using length_takeWhile_le [of _ "node_keys n"] by simp
  have ps: "p = lower_bound ?k (suffixes n)"
    unfolding p_def node_keys_suffixes by (subst key) (rule lower_bound_prefix)
  have out: "?k \<notin> set (suffixes n)" using assms(6) key unfolding node_keys_suffixes by (metis image_eqI set_map)
  have sz: "cell_size ?c = length key - prefix_length n + length payload" by (simp add: fresh_cell_def cell_size_def)
  have cnt: "tr16 (int (node_count n) + 1) = node_count n + 1"
    using L by (subst tr16_nat) (simp_all add: slots_end_def SLOT_SIZE_def EFFECTIVE_PAGE_SIZE_def)
  define n2 where "n2 = (node_push p ?c (shift_up p n))\<lparr>node_count := node_count n + 1\<rparr>"
  have ins: "layout_ok F n2" "cells n2 = take p (cells n) @ ?c # drop p (cells n)" "getPrefix n2 = getPrefix n"
    "getLowerFenceKey n2 = getLowerFenceKey n" "getUpperFenceKey n2 = getUpperFenceKey n"
    using insert_layout [OF assms(1) p, of ?c] assms(5) sz by (simp_all add: n2_def)
  have store: "storeKeyValue p key payload (shift_up p n) = Inr (node_push p ?c (shift_up p n))"
    using assms(3,5) L by (subst storeKeyValue_push) (simp_all add: shift_up_def slots_end_def fresh_cell_def)
  have upd: "updateHint p n2 = Inr (makeHint n2)"
    using assms(2) p by (rule updateHint_insert) (simp_all add: n2_def shift_up_def node_push_slot)
  have "bindR (storeKeyValue p key payload (shift_up p n))
      (\<lambda>n. updateHint p (n\<lparr>node_count := tr16 (int (node_count n) + 1)\<rparr>)) = Inr (makeHint n2)"
    using upd by (simp add: store cnt n2_def [symmetric]) (simp add: n2_def shift_up_def cnt)
  moreover have "search_ok (makeHint n2)"
  proof -
    have "map (fst \<circ> snd) (cells n2) = take p (suffixes n) @ ?k # drop p (suffixes n)"
      unfolding ins(2) by (simp add: suffixes_cells take_map drop_map fresh_cell_def)
    moreover have "sorted_wrt (<) (suffixes n)" using assms(2) by (simp add: search_ok_def)
    ultimately have "sorted_wrt (<) (map (fst \<circ> snd) (cells n2))" using sorted_insert out by (simp add: ps)
    moreover have "\<forall>(h, k, v) \<in> set (cells n2). h = head k"
      using assms(2) unfolding ins(2) search_ok_cells by (auto simp: fresh_cell_def dest!: in_set_takeD in_set_dropD)
    ultimately show ?thesis by (simp add: search_ok_makeHint)
  qed
  moreover have "entries (makeHint n2) = take p (entries n) @ (key, payload) # drop p (entries n)"
    using key by (simp add: entries_cells ins(2,3) take_map drop_map fresh_cell_def)
  ultimately show ?thesis using that ins by (simp add: n2_def shift_up_def)
qed

text \<open>The new key is in the fences, so the node stays well formed.\<close>

lemma node_insert_spec:
  assumes "node_ok F n" "hints_usable F" "canInsert (length key) (length payload) n" "key \<notin> set (node_keys n)"
    "in_fences (getLowerFenceKey n) (getUpperFenceKey n) key" "SLOT_SIZE + length key + length payload < 65536"
  obtains n' where "node_insert F key payload n = Inr (lower_bound key (node_keys n), n')" "node_ok F n'"
    "entries n' = take (lower_bound key (node_keys n)) (entries n) @ (key, payload) # drop (lower_bound key (node_keys n)) (entries n)"
    "getLowerFenceKey n' = getLowerFenceKey n" "getUpperFenceKey n' = getUpperFenceKey n" "is_leaf n' = is_leaf n" "upper_swip n' = upper_swip n"
proof -
  have ok: "layout_ok F n" "search_ok n" using assms(1) by (simp_all add: node_ok_def)
  note pre = in_fences_prefix [OF ok(1) assms(5)]
  let ?p = "lower_bound key (node_keys n)"
  obtain n1 where n1: "prepareInsert F (length key) (length payload) n = Inr (True, n1)" "layout_ok F n1" "search_ok n1"
    "same_content n n1" "slots_end n1 + SLOT_SIZE + (length key - prefix_length n1 + length payload) \<le> data_offset n1"
    using ok assms(3) pre(1) assms(6) by (rule prepare_spec)
  have v: "entries n1 = entries n" "node_keys n1 = node_keys n" using same_content_view [OF n1(4)] by simp_all
  have c: "prefix_length n1 = prefix_length n" "getPrefix n1 = getPrefix n" "getLowerFenceKey n1 = getLowerFenceKey n"
    "getUpperFenceKey n1 = getUpperFenceKey n" "is_leaf n1 = is_leaf n" "upper_swip n1 = upper_swip n"
    using n1(4) by (simp_all add: same_content_def)
  obtain n' where n': "bindR (storeKeyValue ?p key payload (shift_up ?p n1))
      (\<lambda>n. updateHint ?p (n\<lparr>node_count := tr16 (int (node_count n) + 1)\<rparr>)) = Inr n'"
    "layout_ok F n'" "search_ok n'" "entries n' = take ?p (entries n) @ (key, payload) # drop ?p (entries n)"
    "getLowerFenceKey n' = getLowerFenceKey n" "getUpperFenceKey n' = getUpperFenceKey n" "is_leaf n' = is_leaf n" "upper_swip n' = upper_swip n"
    using pre n1(5) [unfolded c] assms(4) by (rule place_cell [OF n1(2,3), of key payload, unfolded v c])
  have "node_insert F key payload n = Inr (?p, n')"
    using assms(3,4) n1(1) n'(1) lowerBound_spec(2) [OF ok(2) assms(2), of key False] lowerBound_spec(1) [OF n1(3) assms(2), of key False]
    by (auto simp: node_insert_def v(2) bindR_def split: sum.splits)
  moreover have "node_ok F n'"
    using assms(1,5) n'(2-6) unfolding node_ok_def keys_entries by (auto dest: in_set_takeD in_set_dropD)
  ultimately show ?thesis using that n' by blast
qed

section \<open>Removal\<close>

lemma remove_layout:
  assumes "layout_ok F n" "i < node_count n"
  shows "layout_ok F (removeSlot i n)" "cells (removeSlot i n) = take i (cells n) @ drop (Suc i) (cells n)"
    "getPrefix (removeSlot i n) = getPrefix n" "getLowerFenceKey (removeSlot i n) = getLowerFenceKey n"
    "getUpperFenceKey (removeSlot i n) = getUpperFenceKey n" "is_leaf (removeSlot i n) = is_leaf n"
    "upper_swip (removeSlot i n) = upper_swip n"
proof -
  note L = layout_okD [OF assms(1)]
  have split: "total_size (cells n) = total_size (take i (cells n)) + cell_size (cell n i) + total_size (drop (Suc i) (cells n))"
  proof -
    have "cells n ! i = cell n i" using assms(2) by (simp add: cells_def)
    then have "cells n = take i (cells n) @ cell n i # drop (Suc i) (cells n)"
      using assms(2) id_take_nth_drop [of i "cells n"] by simp
    then have "total_size (cells n) = total_size (take i (cells n) @ cell n i # drop (Suc i) (cells n))" by simp
    then show ?thesis by (simp only: total_size_simps add.assoc)
  qed
  have le: "cell_size (cell n i) \<le> space_used n" using L(3) split by (simp only: total_space_cells)
  define n' where "n' = (shift_down i n)\<lparr>space_used := space_used n - cell_size (cell n i), node_count := node_count n - 1\<rparr>"
  have t1: "tr16 (int (space_used n) - (int (getKeyLen n i) + int (getPayloadLength n i))) = space_used n - cell_size (cell n i)"
    using le L(2) by (subst tr16_nat) (simp_all add: EFFECTIVE_PAGE_SIZE_def nat_diff_distrib' flip: of_nat_add)
  have t2: "tr16 (int (node_count n) - 1) = node_count n - 1"
    using assms(2) L(1,2) by (subst tr16_nat) (simp_all add: slots_end_def SLOT_SIZE_def EFFECTIVE_PAGE_SIZE_def nat_diff_distrib')
  have r: "removeSlot i n = makeHint n'" by (simp add: removeSlot_def Let_def t1 t2 n'_def)
  have slot: "slots n' j = slots n (if j < i then j else j + 1)" if "j < node_count n - 1" for j
    using that by (simp add: n'_def shift_down_def)
  then have cl: "cell n' j = cell n (if j < i then j else j + 1)" if "j < node_count n - 1" for j
    using that by (intro cell_slots_cong) (simp_all add: n'_def shift_down_def)
  have "cells n' = take i (cells n) @ drop (Suc i) (cells n)"
    using assms(2) cl by (intro nth_equalityI) (auto simp: cells_def n'_def nth_append)
  then show cells: "cells (removeSlot i n) = take i (cells n) @ drop (Suc i) (cells n)" by (simp add: r)
  have view: "getLowerFenceKey n' = getLowerFenceKey n" "getUpperFenceKey n' = getUpperFenceKey n" "getPrefix n' = getPrefix n"
    by (simp_all add: n'_def shift_down_def getLowerFenceKey_def getUpperFenceKey_def fence_bytes_def getPrefix_def)
  then show "getPrefix (removeSlot i n) = getPrefix n" "getLowerFenceKey (removeSlot i n) = getLowerFenceKey n"
    "getUpperFenceKey (removeSlot i n) = getUpperFenceKey n" "is_leaf (removeSlot i n) = is_leaf n"
    "upper_swip (removeSlot i n) = upper_swip n" by (simp_all add: r n'_def shift_down_def)
  have "region_ok n' (slot_offset (slots n' j)) (cell_size (cell n' j))" if "j < node_count n - 1" for j
  proof -
    have "region_ok n' a b = region_ok n a b" for a b by (simp add: region_ok_def n'_def shift_down_def)
    moreover have "(if j < i then j else j + 1) < node_count n" using that by auto
    ultimately show ?thesis unfolding slot [OF that] cl [OF that] using L(5) by blast
  qed
  moreover have "total_space_used n' = space_used n'"
    using L(3) split \<open>cells n' = _\<close> unfolding total_space_cells by (simp add: n'_def shift_down_def)
  moreover have "fence_ok n' fk = fence_ok n fk" for fk by (simp add: fence_ok_def region_ok_def n'_def shift_down_def)
  moreover have f: "node_count n' = node_count n - 1" "data_offset n' = data_offset n" "prefix_length n' = prefix_length n"
    "lower_fence n' = lower_fence n" "upper_fence n' = upper_fence n" "space_used n' \<le> space_used n"
    by (simp_all add: n'_def shift_down_def)
  moreover have "slots_end n' \<le> data_offset n'" using L(1) by (simp add: slots_end_def f SLOT_SIZE_def)
  moreover have "data_offset n' + space_used n' \<le> EFFECTIVE_PAGE_SIZE" using L(2) f(2,6) by simp
  moreover have "fence_ok n (lower_fence n)" "fence_ok n (upper_fence n)" using assms(1) by (simp_all add: layout_ok_def)
  ultimately have "layout_ok F n'" using L(4) view unfolding layout_ok_def by simp
  then show "layout_ok F (removeSlot i n)" by (simp add: r)
qed

lemma removeSlot_spec:
  assumes "node_ok F n" "i < node_count n"
  shows "node_ok F (removeSlot i n)" "entries (removeSlot i n) = take i (entries n) @ drop (Suc i) (entries n)"
proof -
  have ok: "layout_ok F n" "search_ok n" using assms(1) by (simp_all add: node_ok_def)
  note r = remove_layout [OF ok(1) assms(2)]
  show e: "entries (removeSlot i n) = take i (entries n) @ drop (Suc i) (entries n)"
    unfolding entries_cells r by (simp add: take_map drop_map)
  have hint: "removeSlot i n = makeHint (n'\<lparr>space_used := u, node_count := c\<rparr>)" if "n' = shift_down i n"
    "u = tr16 (int (space_used n) - (int (getKeyLen n i) + int (getPayloadLength n i)))" "c = tr16 (int (node_count n) - 1)" for n' u c
    using that by (simp add: removeSlot_def)
  have "hint (removeSlot i n) = hints_of (removeSlot i n)" by (simp add: hint [OF refl refl refl])
  moreover have "sorted_wrt (<) (map (fst \<circ> snd) (cells (removeSlot i n)))"
  proof -
    have "sorted_wrt (<) (map (fst \<circ> snd) (take i (cells n) @ drop i (cells n)))" using ok(2) by (simp add: search_ok_cells)
    moreover have "sorted_wrt (<) (map (fst \<circ> snd) (drop (Suc i) (cells n)))"
      using ok(2) by (simp add: search_ok_cells sorted_wrt_drop drop_map [symmetric])
    moreover have "set (drop (Suc i) (cells n)) \<subseteq> set (drop i (cells n))" by (rule set_drop_subset_set_drop) simp
    ultimately show ?thesis unfolding r(2) map_append sorted_wrt_append by auto
  qed
  moreover have "\<forall>(h, k, v) \<in> set (cells (removeSlot i n)). h = head k"
    using ok(2) unfolding r(2) search_ok_cells by (auto dest!: in_set_takeD in_set_dropD)
  ultimately have "search_ok (removeSlot i n)" by (simp add: search_ok_cells)
  then show "node_ok F (removeSlot i n)"
    using assms(1) r(1,4,5) unfolding node_ok_def keys_entries e by (auto dest: in_set_takeD in_set_dropD)
qed

text \<open>Removing a key, present or not.\<close>

lemma lower_bound_member:
  assumes "sorted_wrt (<) ks" "key \<in> set ks"
  shows "lower_bound key ks < length ks" "ks ! lower_bound key ks = (key :: bytes)"
proof -
  obtain i where i: "i < length ks" "ks ! i = key" using assms(2) by (auto simp: in_set_conv_nth)
  have "lower_bound key ks = i" unfolding lower_bound_def
    using i sorted_wrt_nth_less [OF assms(1), of _ i] by (intro takeWhile_first) auto
  then show "lower_bound key ks < length ks" "ks ! lower_bound key ks = key" using i by simp_all
qed

lemma sorted_keys: "search_ok n \<Longrightarrow> sorted_wrt (<) (node_keys n)"
  by (simp add: search_ok_def node_keys_suffixes sorted_wrt_map prefix_order)

lemma filter_entry:
  assumes "sorted_wrt (<) (map fst es)" "i < length es"
  shows "filter (\<lambda>e. fst e \<noteq> fst (es ! i)) es = take i es @ drop (Suc i) (es :: (bytes \<times> bytes) list)"
proof -
  have split: "es = take i es @ es ! i # drop (Suc i) es" using assms(2) by (rule id_take_nth_drop)
  have "sorted_wrt (<) (map fst (take i es @ es ! i # drop (Suc i) es))" using assms(1) split by simp
  then have "\<forall>e \<in> set (take i es). fst e \<noteq> fst (es ! i)" "\<forall>e \<in> set (drop (Suc i) es). fst e \<noteq> fst (es ! i)"
    by (auto simp: sorted_wrt_append)
  then have "filter (\<lambda>e. fst e \<noteq> fst (es ! i)) (take i es @ es ! i # drop (Suc i) es) = take i es @ drop (Suc i) es"
    by (simp add: filter_id_conv)
  then show ?thesis using split by simp
qed

lemma node_remove_spec:
  assumes "node_ok F n" "hints_usable F"
  obtains n' where "node_remove F key n = Inr (key \<in> set (node_keys n), n')" "node_ok F n'"
    "entries n' = filter (\<lambda>e. fst e \<noteq> key) (entries n)"
proof -
  have ok: "search_ok n" using assms(1) by (simp add: node_ok_def)
  note lb = lowerBound_spec(2) [OF ok assms(2), of key False]
  show ?thesis
  proof (cases "key \<in> set (node_keys n)")
    case True
    let ?i = "lower_bound key (node_keys n)"
    note m = lower_bound_member [OF sorted_keys [OF ok] True]
    have i: "?i < node_count n" "fst (entries n ! ?i) = key" using m by (simp_all add: keys_entries, simp add: entries_def)
    have "sorted_wrt (<) (map fst (entries n))" using sorted_keys [OF ok] by (simp add: keys_entries)
    then have "entries (removeSlot ?i n) = filter (\<lambda>e. fst e \<noteq> key) (entries n)"
      using filter_entry [of "entries n" ?i] i removeSlot_spec(2) [OF assms(1) i(1)] by (simp add: entries_def)
    moreover have "node_remove F key n = Inr (True, removeSlot ?i n)" using lb True by (simp add: node_remove_def)
    ultimately show ?thesis using that [of "removeSlot ?i n"] True removeSlot_spec(1) [OF assms(1) i(1)] by simp
  next
    case False
    then have "filter (\<lambda>e. fst e \<noteq> key) (entries n) = entries n" by (auto simp: keys_entries filter_id_conv)
    then show ?thesis using that [of n] lb False assms(1) by (simp add: node_remove_def)
  qed
qed

end
