(* ===== verification/BTreeSplit.thy ===== *)
theory BTreeSplit
  imports BTreeUpdate
begin

text \<open>
  Splitting and merging B-tree nodes: the separator that a split chooses lies between the two halves, a
  split distributes the entries over two well-formed nodes and records the left one in the parent, and
  a merge is its inverse. Space is counted in the bytes that a node with given fences and entries needs.
\<close>

section \<open>Swips as payloads\<close>

lemma length_swip_bytes [simp]: "length (swip_bytes w) = SWIP_SIZE"
  by (simp add: swip_bytes_def)

lemma bit_bytes_swip:
  "bit (bytes_swip bs) i \<longleftrightarrow> i < 64 \<and> i div 8 < length bs \<and> bit (bs ! (i div 8)) (i mod 8)"
proof (induction bs arbitrary: i)
  case Nil
  show ?case by simp
next
  case (Cons b bs)
  show ?case
  proof (cases "i < 8")
    case True
    then show ?thesis by (auto simp: bit_or_iff bit_ucast_iff bit_push_bit_iff bit_imp_le_length)
  next
    case False
    then have "\<not> bit b i" using bit_imp_le_length [of b i] by auto
    moreover obtain j where "i = j + 8" using False by (metis add.commute le_add_diff_inverse2 linorder_not_less)
    ultimately show ?thesis by (auto simp: bit_or_iff bit_ucast_iff bit_push_bit_iff Cons.IH)
  qed
qed

lemma swip_round_trip [simp]: "bytes_swip (swip_bytes w) = w"
proof (rule bit_word_eqI)
  fix i assume "i < LENGTH(64)"
  moreover have "i div 8 * 8 + i mod 8 = i" by simp
  ultimately show "bit (bytes_swip (swip_bytes w)) i = bit w i"
    by (auto simp: bit_bytes_swip swip_bytes_def SWIP_SIZE_def bit_ucast_iff bit_drop_bit_eq algebra_simps)
qed

section \<open>The bytes a node needs\<close>

definition node_bytes :: "btree_flags \<Rightarrow> bytes option \<Rightarrow> bytes option \<Rightarrow> (bytes \<times> bytes) list \<Rightarrow> nat" where
  "node_bytes F l u es = slots_begin + SLOT_SIZE * length es + fence_size l + fence_size u
     + sum_list (map (\<lambda>(k, v). length k - fence_prefix F l u + length v) es)"

lemma length_entries [simp]: "length (entries n) = node_count n"
  by (simp add: entries_def)

lemma node_bytes_layout:
  assumes "layout_ok F n"
  shows "node_bytes F (getLowerFenceKey n) (getUpperFenceKey n) (entries n) = slots_end n + space_used n"
proof -
  have "map (\<lambda>(k, v). length k - fence_prefix F (getLowerFenceKey n) (getUpperFenceKey n) + length v) (entries n) = map cell_size (cells n)"
    using layout_okD(4) [OF assms] by (auto simp: entries_cells cell_size_def)
  then show ?thesis using space_used_cells [OF assms]
    by (simp add: node_bytes_def slots_end_def total_size_def)
qed

lemma node_bytes_fits: "layout_ok F n \<Longrightarrow> node_bytes F (getLowerFenceKey n) (getUpperFenceKey n) (entries n) \<le> EFFECTIVE_PAGE_SIZE"
  using layout_okD(1,2) [of F n] by (simp add: node_bytes_layout)

lemma node_bytes_append:
  "node_bytes F l u (es @ fs) = node_bytes F l u es + SLOT_SIZE * length fs
     + sum_list (map (\<lambda>(k, v). length k - fence_prefix F l u + length v) fs)"
  by (simp add: node_bytes_def add_mult_distrib2)

section \<open>Copying entries\<close>

definition has_prefix :: "btree_node \<Rightarrow> bytes \<Rightarrow> bool" where
  "has_prefix n k \<longleftrightarrow> prefix_length n \<le> length k \<and> take (prefix_length n) k = getPrefix n"

lemma moved_entry:
  assumes "search_ok src" "i < node_count src" "has_prefix dst (copyFullKey src i)"
  shows "moved src dst i = (head (drop (prefix_length dst) (copyFullKey src i)), drop (prefix_length dst) (copyFullKey src i), getPayload src i)"
    "getPrefix dst @ drop (prefix_length dst) (copyFullKey src i) = copyFullKey src i"
proof -
  show "moved src dst i = (head (drop (prefix_length dst) (copyFullKey src i)), drop (prefix_length dst) (copyFullKey src i), getPayload src i)"
    using assms(1,2) by (auto simp: moved_def cell_def copyFullKey_def search_ok_def Let_def)
  show "getPrefix dst @ drop (prefix_length dst) (copyFullKey src i) = copyFullKey src i"
    using assms(3) by (metis append_take_drop_id has_prefix_def)
qed

lemma copy_entries:
  assumes "layout_ok F dst" "search_ok src" "total_space_used src = space_used src" "a + cnt \<le> node_count src"
    "\<And>i. i < cnt \<Longrightarrow> has_prefix dst (copyFullKey src (a + i))"
    "node_bytes F (getLowerFenceKey dst) (getUpperFenceKey dst) (entries dst @ take cnt (drop a (entries src))) \<le> EFFECTIVE_PAGE_SIZE"
    "data_offset dst + space_used dst = EFFECTIVE_PAGE_SIZE"
  obtains n' where "copyKeyValueRange dst (node_count dst) a cnt src = Inr n'" "layout_ok F n'"
    "entries n' = entries dst @ take cnt (drop a (entries src))" "data_offset n' + space_used n' = EFFECTIVE_PAGE_SIZE"
    "\<forall>(h, k, v) \<in> set (cells n') - set (cells dst). h = head k" "getPrefix n' = getPrefix dst"
    "getLowerFenceKey n' = getLowerFenceKey dst" "getUpperFenceKey n' = getUpperFenceKey dst" "is_leaf n' = is_leaf dst"
    "upper_swip n' = upper_swip dst" "has_garbage n' = has_garbage dst" "hint n' = hint dst" "prefix_length n' = prefix_length dst"
proof -
  let ?cs = "map (\<lambda>i. moved src dst (a + i)) [0..<cnt]"
  let ?new = "take cnt (drop a (entries src))"
  let ?k = "\<lambda>i. drop (prefix_length dst) (copyFullKey src (a + i))"
  have mv: "moved src dst (a + i) = (head (?k i), ?k i, getPayload src (a + i))" "getPrefix dst @ ?k i = copyFullKey src (a + i)"
    if "i < cnt" for i
    using that assms(4) moved_entry [OF assms(2) _ assms(5) [OF that]] by simp_all
  have new: "?new = map (\<lambda>i. (copyFullKey src (a + i), getPayload src (a + i))) [0..<cnt]"
    using assms(4) by (intro nth_equalityI) (simp_all add: entries_def)
  have ents: "map (\<lambda>(h, k, v). (getPrefix dst @ k, v)) ?cs = ?new"
    unfolding new map_map by (rule map_cong) (simp_all add: mv)
  have "map cell_size ?cs = map (\<lambda>(k, v). length k - prefix_length dst + length v) ?new"
    unfolding new map_map by (rule map_cong) (simp_all add: mv(1) cell_size_def)
  then have size: "total_size ?cs = sum_list (map (\<lambda>(k, v). length k - prefix_length dst + length v) ?new)"
    by (simp add: total_size_def)
  have room: "slots_begin + SLOT_SIZE * (node_count dst + cnt) + total_size ?cs \<le> data_offset dst"
    using assms(4,6,7) layout_okD(4) [OF assms(1)] size unfolding node_bytes_append node_bytes_layout [OF assms(1)]
    by (simp add: slots_end_def add_mult_distrib2)
  then have room': "slots_begin + SLOT_SIZE * (node_count dst + length ?cs) + total_size ?cs \<le> data_offset dst" by simp
  define n' where "n' = (push_all (node_count dst) ?cs dst)\<lparr>node_count := node_count dst + length ?cs\<rparr>"
  have c: "copyKeyValueRange dst (node_count dst) a cnt src = Inr n'"
    using copy_range [of dst "node_count dst" src cnt a] assms(3,5,7) room by (auto simp: has_prefix_def n'_def)
  note e = extend_layout [OF assms(1) room', folded n'_def]
  have "entries n' = entries dst @ ?new" unfolding entries_cells e(2,3) map_append ents ..
  moreover have "\<forall>(h, k, v) \<in> set (cells n') - set (cells dst). h = head k" unfolding e(2) by (auto simp: mv(1))
  ultimately show ?thesis using that [OF c e(1)] e(3-6) assms(7) by (simp add: n'_def)
qed

lemma node_ok_makeHint:
  assumes "layout_ok F n" "sorted_wrt (<) (map fst (entries n))" "\<forall>(h, k, v) \<in> set (cells n). h = head k"
    "\<forall>k \<in> fst ` set (entries n). in_fences (getLowerFenceKey n) (getUpperFenceKey n) k"
  shows "node_ok F (makeHint n)" "entries (makeHint n) = entries n"
proof -
  show e: "entries (makeHint n) = entries n" by (simp add: entries_cells)
  have "sorted_wrt (<) (map (\<lambda>c. getPrefix n @ fst (snd c)) (cells n))"
    using assms(2) by (simp add: entries_cells case_prod_unfold comp_def)
  then have "sorted_wrt (<) (map (fst \<circ> snd) (cells n))" by (simp add: sorted_wrt_map prefix_order)
  then have "search_ok (makeHint n)" using assms(3) by (simp add: search_ok_makeHint)
  then show "node_ok F (makeHint n)" using assms(1,4) by (simp add: node_ok_def keys_entries e)
qed

lemma sorted_entries: "node_ok F n \<Longrightarrow> sorted_wrt (<) (map fst (entries n))"
  using sorted_keys [of n] by (simp add: node_ok_def keys_entries)

text \<open>A fresh node with given fences, filled with a range of the entries of another.\<close>

lemma build_part:
  assumes "blank t" "node_ok F n" "a + cnt \<le> node_count n" "\<forall>k \<in> fst ` set (take cnt (drop a (entries n))). in_fences l u k"
    "node_bytes F l u (take cnt (drop a (entries n))) \<le> EFFECTIVE_PAGE_SIZE"
  obtains t1 t2 where "setFences F l u t = Inr t1" "copyKeyValueRange t1 0 a cnt n = Inr t2"
    "layout_ok F t2" "entries t2 = take cnt (drop a (entries n))" "\<forall>(h, k, v) \<in> set (cells t2). h = head k"
    "getLowerFenceKey t2 = l" "getUpperFenceKey t2 = u" "is_leaf t2 = is_leaf t" "node_count t2 = cnt"
    "data_offset t2 + space_used t2 = EFFECTIVE_PAGE_SIZE" "prefix_length t1 = fence_prefix F l u" "prefix_length t2 = fence_prefix F l u"
proof -
  have "slots_begin + fence_size l + fence_size u \<le> EFFECTIVE_PAGE_SIZE" using assms(5) by (simp add: node_bytes_def)
  with assms(1) obtain t1 where t1: "setFences F l u t = Inr t1" "layout_ok F t1" "getLowerFenceKey t1 = l" "getUpperFenceKey t1 = u"
    "cells t1 = []" "prefix_length t1 = fence_prefix F l u" "is_leaf t1 = is_leaf t" "has_garbage t1 = has_garbage t"
    "hint t1 = hint t" "data_offset t1 = EFFECTIVE_PAGE_SIZE - (fence_size l + fence_size u)" "space_used t1 = fence_size l + fence_size u"
    by (rule setFences_blank)
  have ok: "search_ok n" "total_space_used n = space_used n"
    using assms(2) by (simp_all add: node_ok_def layout_ok_def)
  have e1: "entries t1 = []" "node_count t1 = 0" using t1(5) by (simp add: entries_cells, metis length_cells list.size(3))
  have key: "copyFullKey n (a + i) \<in> fst ` set (take cnt (drop a (entries n)))" if "i < cnt" for i
  proof -
    have "take cnt (drop a (entries n)) ! i = (copyFullKey n (a + i), getPayload n (a + i))" using that assms(3) by (simp add: entries_def)
    moreover have "i < length (take cnt (drop a (entries n)))" using that assms(3) by simp
    ultimately show ?thesis by (metis fst_conv image_eqI nth_mem)
  qed
  have "has_prefix t1 (copyFullKey n (a + i))" if "i < cnt" for i
    using in_fences_prefix [OF t1(2), unfolded t1(3,4), OF assms(4) [rule_format, OF key [OF that]]] by (simp add: has_prefix_def)
  moreover have "data_offset t1 + space_used t1 = EFFECTIVE_PAGE_SIZE" using assms(5) by (simp add: t1(10,11) node_bytes_def)
  ultimately obtain t2 where "copyKeyValueRange t1 (node_count t1) a cnt n = Inr t2" "layout_ok F t2"
    "entries t2 = entries t1 @ take cnt (drop a (entries n))" "data_offset t2 + space_used t2 = EFFECTIVE_PAGE_SIZE"
    "\<forall>(h, k, v) \<in> set (cells t2) - set (cells t1). h = head k" "getPrefix t2 = getPrefix t1"
    "getLowerFenceKey t2 = getLowerFenceKey t1" "getUpperFenceKey t2 = getUpperFenceKey t1" "is_leaf t2 = is_leaf t1"
    "upper_swip t2 = upper_swip t1" "has_garbage t2 = has_garbage t1" "hint t2 = hint t1" "prefix_length t2 = prefix_length t1"
    using assms(3,5) by (elim copy_entries [OF t1(2) ok, of a cnt, rotated -1]) (simp_all add: e1 t1(3,4))
  moreover have "node_count t2 = cnt" using \<open>entries t2 = _\<close> assms(3) e1 by (metis append_Nil length_drop length_entries length_take le_diff_conv2 add.commute add_leD1 min.absorb2)
  ultimately show ?thesis using that [OF t1(1)] e1 t1 by simp
qed

text \<open>Such a part, with its flags or its last child set, is well-formed once its hints are made.\<close>

lemma part_ok:
  assumes "layout_ok F t" "sorted_wrt (<) (map fst es)" "entries t = es" "\<forall>(h, k, v) \<in> set (cells t). h = head k"
    "\<forall>k \<in> fst ` set es. in_fences (getLowerFenceKey t) (getUpperFenceKey t) k"
  shows "node_ok F (makeHint (t\<lparr>has_garbage := g\<rparr>))" "entries (makeHint (t\<lparr>has_garbage := g\<rparr>)) = es"
    "node_ok F (makeHint (t\<lparr>upper_swip := w\<rparr>))" "entries (makeHint (t\<lparr>upper_swip := w\<rparr>)) = es"
  using assms node_ok_makeHint [of F "t\<lparr>has_garbage := g\<rparr>"] node_ok_makeHint [of F "t\<lparr>upper_swip := w\<rparr>"]
  by (simp_all add: entries_cells)

section \<open>Splitting\<close>

text \<open>Where the entries of a split node go; an inner node moves one separator up.\<close>

definition left_entries :: "nat \<Rightarrow> btree_node \<Rightarrow> (bytes \<times> bytes) list" where
  "left_entries s n = take (if is_leaf n then s + 1 else s) (entries n)"

definition right_entries :: "nat \<Rightarrow> btree_node \<Rightarrow> (bytes \<times> bytes) list" where
  "right_entries s n = drop (s + 1) (entries n)"

definition separates :: "bytes \<Rightarrow> nat \<Rightarrow> btree_node \<Rightarrow> bool" where
  "separates sep s n \<longleftrightarrow> s < node_count n \<and> copyFullKey n s \<le> sep \<and> (s + 1 < node_count n \<longrightarrow> sep < copyFullKey n (s + 1))"

lemma keys_le:
  assumes "node_ok F n" "i \<le> j" "j < node_count n"
  shows "copyFullKey n i \<le> copyFullKey n j"
  using sorted_wrt_nth_less [of "(<)" "node_keys n" i j] sorted_keys [of n] assms
  by (cases "i = j") (auto simp: node_ok_def node_keys_def)

lemma separated_keys:
  assumes "node_ok F n" "separates sep s n"
  shows "\<forall>k \<in> fst ` set (left_entries s n). in_fences (getLowerFenceKey n) (Some sep) k"
    "\<forall>k \<in> fst ` set (right_entries s n). in_fences (Some sep) (getUpperFenceKey n) k"
proof -
  have fences: "in_fences (getLowerFenceKey n) (getUpperFenceKey n) (copyFullKey n i)" if "i < node_count n" for i
    using assms(1) that by (auto simp: node_ok_def node_keys_def)
  have s: "s < node_count n" "copyFullKey n s \<le> sep" "s + 1 < node_count n \<longrightarrow> sep < copyFullKey n (s + 1)"
    using assms(2) by (simp_all add: separates_def)
  show "\<forall>k \<in> fst ` set (left_entries s n). in_fences (getLowerFenceKey n) (Some sep) k"
  proof
    fix k assume "k \<in> fst ` set (left_entries s n)"
    then obtain i where i: "i \<le> s" "k = copyFullKey n i"
      using s(1) unfolding left_entries_def entries_def take_map set_map image_image
      by (cases "is_leaf n") (auto simp: less_Suc_eq_le dest!: less_imp_le)
    then have "k \<le> sep" using keys_le [OF assms(1) i(1) s(1)] s(2) by simp
    then show "in_fences (getLowerFenceKey n) (Some sep) k" using fences [of i] i s(1) by (simp add: in_fences_def)
  qed
  show "\<forall>k \<in> fst ` set (right_entries s n). in_fences (Some sep) (getUpperFenceKey n) k"
  proof
    fix k assume "k \<in> fst ` set (right_entries s n)"
    then obtain i where i: "s + 1 \<le> i" "i < node_count n" "k = copyFullKey n i"
      by (auto simp: right_entries_def entries_def drop_map)
    then have "sep < k" using keys_le [OF assms(1) i(1,2)] s(3) i by (auto intro: order_less_le_trans)
    then show "in_fences (Some sep) (getUpperFenceKey n) k" using fences [OF i(2)] i(3) by (simp add: in_fences_def)
  qed
qed

lemma node_split_spec:
  assumes "node_ok F n" "hints_usable F" "separates sep s n" "blank left" "is_leaf left = is_leaf n"
    "node_bytes F (getLowerFenceKey n) (Some sep) (left_entries s n) \<le> EFFECTIVE_PAGE_SIZE"
    "node_bytes F (Some sep) (getUpperFenceKey n) (right_entries s n) \<le> EFFECTIVE_PAGE_SIZE"
    "node_ok F parent" "canInsert (length sep) SWIP_SIZE parent" "sep \<notin> set (node_keys parent)"
    "in_fences (getLowerFenceKey parent) (getUpperFenceKey parent) sep"
  obtains p l r where "node_split F parent left swip s sep n = Inr (p, l, r)" "node_ok F p" "node_ok F l" "node_ok F r"
    "entries l = left_entries s n" "entries r = right_entries s n"
    "getLowerFenceKey l = getLowerFenceKey n" "getUpperFenceKey l = Some sep" "getLowerFenceKey r = Some sep" "getUpperFenceKey r = getUpperFenceKey n"
    "entries p = take (lower_bound sep (node_keys parent)) (entries parent) @ (sep, swip_bytes swip)
       # drop (lower_bound sep (node_keys parent)) (entries parent)"
    "is_leaf l = is_leaf n" "is_leaf r = is_leaf n" "is_leaf n \<longrightarrow> has_garbage l = has_garbage n \<and> has_garbage r = has_garbage n"
    "\<not> is_leaf n \<longrightarrow> upper_swip l = getChild n s \<and> upper_swip r = upper_swip n"
    "is_leaf p = is_leaf parent" "upper_swip p = upper_swip parent"
proof -
  have s: "s < node_count n" using assms(3) by (simp add: separates_def)
  have lay: "slots_end n \<le> EFFECTIVE_PAGE_SIZE" using assms(1) layout_okD(1,2) [of F n] by (simp add: node_ok_def)
  then have small: "s < EFFECTIVE_PAGE_SIZE div SWIP_SIZE" using s by (simp add: slots_end_def SLOT_SIZE_def EFFECTIVE_PAGE_SIZE_def SWIP_SIZE_def)
  note sep = separated_keys [OF assms(1,3)]
  let ?m = "if is_leaf n then s + 1 else s" and ?c = "node_count n - (s + 1)"
  have le: "left_entries s n = take ?m (drop 0 (entries n))" by (simp add: left_entries_def)
  have re: "right_entries s n = take ?c (drop (s + 1) (entries n))" by (simp add: right_entries_def)
  obtain l1 l2 where l: "setFences F (getLowerFenceKey n) (Some sep) left = Inr l1" "copyKeyValueRange l1 0 0 ?m n = Inr l2"
    "layout_ok F l2" "entries l2 = left_entries s n" "\<forall>(h, k, v) \<in> set (cells l2). h = head k" "getLowerFenceKey l2 = getLowerFenceKey n"
    "getUpperFenceKey l2 = Some sep" "is_leaf l2 = is_leaf left" "node_count l2 = ?m"
    "data_offset l2 + space_used l2 = EFFECTIVE_PAGE_SIZE" "prefix_length l1 = fence_prefix F (getLowerFenceKey n) (Some sep)"
    "prefix_length l2 = fence_prefix F (getLowerFenceKey n) (Some sep)"
    using sep(1) assms(6) s unfolding le by (elim build_part [OF assms(4,1), of 0 ?m, rotated -1]) simp_all
  obtain r1 r2 where r: "setFences F (Some sep) (getUpperFenceKey n) (newBTreeNode (is_leaf n)) = Inr r1" "copyKeyValueRange r1 0 (s + 1) ?c n = Inr r2"
    "layout_ok F r2" "entries r2 = right_entries s n" "\<forall>(h, k, v) \<in> set (cells r2). h = head k" "getLowerFenceKey r2 = Some sep"
    "getUpperFenceKey r2 = getUpperFenceKey n" "is_leaf r2 = is_leaf (newBTreeNode (is_leaf n))" "node_count r2 = ?c"
    "data_offset r2 + space_used r2 = EFFECTIVE_PAGE_SIZE" "prefix_length r1 = fence_prefix F (Some sep) (getUpperFenceKey n)"
    "prefix_length r2 = fence_prefix F (Some sep) (getUpperFenceKey n)"
    using sep(2) assms(7) s unfolding re by (elim build_part [OF blank_new assms(1), of "s + 1" ?c, rotated -1]) simp_all
  have "SLOT_SIZE + length sep + length (swip_bytes swip) < 65536"
    using assms(6) by (simp add: node_bytes_def fence_size_def EFFECTIVE_PAGE_SIZE_def SLOT_SIZE_def SWIP_SIZE_def)
  then obtain p where p: "node_insert F sep (swip_bytes swip) parent = Inr (lower_bound sep (node_keys parent), p)" "node_ok F p"
    "entries p = take (lower_bound sep (node_keys parent)) (entries parent) @ (sep, swip_bytes swip)
       # drop (lower_bound sep (node_keys parent)) (entries parent)"
    "getLowerFenceKey p = getLowerFenceKey parent" "getUpperFenceKey p = getUpperFenceKey parent" "is_leaf p = is_leaf parent"
    "upper_swip p = upper_swip parent"
    using assms(9) by (elim node_insert_spec [OF assms(8,2) _ assms(10,11), rotated -1]) simp_all
  have sorted: "sorted_wrt (<) (map fst (left_entries s n))" "sorted_wrt (<) (map fst (right_entries s n))"
    using sorted_entries [OF assms(1)] by (simp_all add: left_entries_def right_entries_def sorted_wrt_take sorted_wrt_drop flip: take_map drop_map)
  note L = part_ok [OF l(3) sorted(1) l(4,5), unfolded l(6,7), OF sep(1)]
  note R = part_ok [OF r(3) sorted(2) r(4,5), unfolded r(6,7), OF sep(2)]
  show ?thesis
  proof (cases "is_leaf n")
    case True
    then have "node_split F parent left swip s sep n = Inr (p, makeHint (l2\<lparr>has_garbage := has_garbage n\<rparr>), makeHint (r2\<lparr>has_garbage := has_garbage n\<rparr>))"
      using s small l r p(1) assms(9) by (simp add: node_split_def)
    then show ?thesis by (rule that) (use True L(1,2) R(1,2) p l r assms(5) in \<open>simp_all add: newBTreeNode_def\<close>)
  next
    case False
    then have "node_split F parent left swip s sep n = Inr (p, makeHint (l2\<lparr>upper_swip := getChild n s\<rparr>), makeHint (r2\<lparr>upper_swip := upper_swip n\<rparr>))"
      using s small l r p(1) assms(9) by (simp add: node_split_def)
    then show ?thesis by (rule that) (use False L(3,4) R(3,4) p l r assms(5) in \<open>simp_all add: newBTreeNode_def\<close>)
  qed
qed

section \<open>The separator\<close>

lemma truncated_separator:
  assumes "(a :: bytes) < b" "common_prefix a b < length a" "common_prefix a b + 1 < length b"
  shows "a < take (common_prefix a b + 1) b" "take (common_prefix a b + 1) b < b"
proof -
  have "a < take (common_prefix a b + 1) b \<and> take (common_prefix a b + 1) b < b" using assms
  proof (induction a b rule: common_prefix.induct)
    case (1 x xs y ys)
    then show ?case by (cases ys) auto
  qed simp_all
  then show "a < take (common_prefix a b + 1) b" "take (common_prefix a b + 1) b < b" by simp_all
qed

lemma best_slot_inside: "1 < node_count n \<Longrightarrow> best_slot n + 1 < node_count n"
proof -
  assume many: "1 < node_count n"
  show ?thesis
  proof (cases "16 < node_count n")
    case True
    let ?lo = "node_count n div 2 - node_count n div 16" and ?up = "node_count n div 2"
    have "length (takeWhile P [?lo + 1..<?up]) \<le> ?up - (?lo + 1)" for P
      using length_takeWhile_le [of P "[?lo + 1..<?up]"] by simp
    moreover have "?lo + 1 \<le> ?up" "?up + 1 < node_count n" using True by linarith+
    ultimately have "?lo + 1 + length (takeWhile P [?lo + 1..<?up]) \<le> ?up" for P
      by (metis add_le_cancel_left le_add_diff_inverse)
    moreover have "?lo \<le> ?up" by simp
    ultimately have "best_slot n \<le> ?up" using True unfolding best_slot_def Let_def by (simp only: if_True split: if_split) blast
    then show ?thesis using \<open>?up + 1 < node_count n\<close> by linarith
  next
    case False
    then have "best_slot n = (node_count n - 1) div 2" by (simp add: best_slot_def)
    then show ?thesis using many by linarith
  qed
qed

lemma key_sizes:
  assumes "layout_ok F n" "i < node_count n"
  shows "prefix_length n + getKeyLen n i + 1 < 65536"
proof -
  have "getKeyLen n i \<le> EFFECTIVE_PAGE_SIZE" using layout_okD(5) [OF assms] by (simp add: region_ok_def)
  moreover have "prefix_length n \<le> EFFECTIVE_PAGE_SIZE"
  proof (cases "prefix_length n = 0")
    case False
    with assms(1) obtain l u where "getLowerFenceKey n = Some l" "prefix_length n = common_prefix l u" by (rule layout_prefix)
    then have "prefix_length n \<le> fence_size (getLowerFenceKey n)"
      using common_prefix_take [of "common_prefix l u" l u] by (simp add: fence_size_def)
    then show ?thesis using node_bytes_fits [OF assms(1)] by (simp add: node_bytes_def)
  qed simp
  ultimately show ?thesis by (simp add: EFFECTIVE_PAGE_SIZE_def)
qed

lemma read_key_prefix: "m \<le> getKeyLen n i \<Longrightarrow> read_bytes (heap n) (slot_offset (slots n i)) m = take m (getKey n i)"
  by (simp add: getKey_def read_bytes_def take_map)

text \<open>Leaves may truncate the separator, inner nodes take the key of the slot itself.\<close>

lemma findSep_spec:
  assumes "node_ok F n" "1 < node_count n"
  obtains info where "findSep n = Inr info" "separates (getSep info n) (sep_slot info) n"
    "\<not> is_leaf n \<longrightarrow> getSep info n = copyFullKey n (sep_slot info)" "is_leaf n \<longrightarrow> sep_slot info + 1 < node_count n"
proof -
  have ok: "layout_ok F n" "search_ok n" using assms(1) by (simp_all add: node_ok_def)
  have whole: "separates (copyFullKey n i) i n" if "i < node_count n" for i
    using that suffixes_less [OF ok(2), of i "i + 1"] by (simp add: separates_def copyFullKey_def prefix_order)
  have sep: "getSep \<lparr>sep_length = tr16 (int (prefix_length n) + int (getKeyLen n i)), sep_slot = i, sep_trunc = False\<rparr> n = copyFullKey n i"
    if "i < node_count n" for i
    using key_sizes [OF ok(1) that] by (simp add: getSep_def copyFullKey_def tr16_int read_key_prefix flip: of_nat_add)
  show ?thesis
  proof (cases "is_leaf n")
    case False
    have "node_count n div 2 < node_count n" using assms(2) by simp
    then show ?thesis using False assms(2) whole sep by (intro that) (auto simp: findSep_def Let_def)
  next
    case True
    let ?b = "best_slot n"
    let ?a = "getKey n ?b" and ?c = "getKey n (?b + 1)"
    note inside = best_slot_inside [OF assms(2)]
    show ?thesis
    proof (cases "common_prefix ?a ?c < getKeyLen n ?b \<and> common_prefix ?a ?c + 1 < getKeyLen n (?b + 1)")
      case trunc: True
      define info where "info = \<lparr>sep_length = prefix_length n + common_prefix ?a ?c + 1, sep_slot = ?b, sep_trunc = True\<rparr>"
      have "findSep n = Inr info"
        using True trunc inside key_sizes [OF ok(1) inside] assms(2)
        by (simp add: findSep_def commonPrefix_def Let_def info_def tr16_int tr16_nat nat_add_distrib)
      moreover have "getSep info n = getPrefix n @ take (common_prefix ?a ?c + 1) ?c"
        using trunc by (simp add: getSep_def info_def read_key_prefix)
      moreover have "?a < ?c" using suffixes_less [OF ok(2) _ inside] by simp
      then have "?a < take (common_prefix ?a ?c + 1) ?c" "take (common_prefix ?a ?c + 1) ?c < ?c"
        using trunc by (simp_all only: truncated_separator length_getKey)
      ultimately show ?thesis using that [of info] True inside
        by (simp add: separates_def copyFullKey_def prefix_order less_imp_le info_def)
    next
      case False
      then have "findSep n = Inr \<lparr>sep_length = tr16 (int (prefix_length n) + int (getKeyLen n ?b)), sep_slot = ?b, sep_trunc = False\<rparr>"
        using True assms(2) by (auto simp: findSep_def commonPrefix_def Let_def)
      then show ?thesis by (rule that) (use True inside whole [of ?b] sep [of ?b] in simp_all)
    qed
  qed
qed

end
