(* ===== verification/BTreeMerge.thy ===== *)
theory BTreeMerge
  imports BTreeSplit
begin

text \<open>
  Merging two neighbouring B-tree nodes: the bound that \<open>merge\<close> computes covers the bytes of the merged
  node, so a merge within the bound keeps every entry of both nodes, in order, and drops the separator
  of the left one from the parent.
\<close>

section \<open>Nodes under construction\<close>

definition built :: "btree_flags \<Rightarrow> bool \<Rightarrow> bytes option \<Rightarrow> bytes option \<Rightarrow> (bytes \<times> bytes) list \<Rightarrow> btree_node \<Rightarrow> bool" where
  "built F leaf l u es t \<longleftrightarrow> layout_ok F t \<and> entries t = es \<and> (\<forall>(h, k, v) \<in> set (cells t). h = head k)
     \<and> getLowerFenceKey t = l \<and> getUpperFenceKey t = u \<and> is_leaf t = leaf \<and> data_offset t + space_used t = EFFECTIVE_PAGE_SIZE"

lemma built_count: "built F leaf l u es t \<Longrightarrow> node_count t = length es"
  by (metis built_def length_entries)

lemma built_prefix: "built F leaf l u es t \<Longrightarrow> prefix_length t = fence_prefix F l u"
  by (auto simp: built_def layout_ok_def)

lemma built_start:
  assumes "slots_begin + fence_size l + fence_size u \<le> EFFECTIVE_PAGE_SIZE"
  obtains t where "setFences F l u (newBTreeNode leaf) = Inr t" "built F leaf l u [] t"
proof -
  obtain t where t: "setFences F l u (newBTreeNode leaf) = Inr t" "layout_ok F t" "getLowerFenceKey t = l" "getUpperFenceKey t = u"
    "cells t = []" "prefix_length t = fence_prefix F l u" "is_leaf t = is_leaf (newBTreeNode leaf)" "has_garbage t = has_garbage (newBTreeNode leaf)"
    "hint t = hint (newBTreeNode leaf)" "data_offset t = EFFECTIVE_PAGE_SIZE - (fence_size l + fence_size u)" "space_used t = fence_size l + fence_size u"
    using assms by (rule setFences_blank [OF blank_new])
  then have "built F leaf l u [] t" using assms by (simp add: built_def entries_cells newBTreeNode_def)
  with t(1) show ?thesis by (rule that)
qed

lemma built_copy:
  assumes "built F leaf l u es t" "node_ok F src" "\<forall>k \<in> fst ` set (entries src). in_fences l u k"
    "node_bytes F l u (es @ entries src) \<le> EFFECTIVE_PAGE_SIZE"
  obtains t' where "copyKeyValueRange t (length es) 0 (node_count src) src = Inr t'" "built F leaf l u (es @ entries src) t'"
    "upper_swip t' = upper_swip t" "has_garbage t' = has_garbage t"
proof -
  note t = assms(1) [unfolded built_def]
  have src: "search_ok src" "total_space_used src = space_used src" using assms(2) by (simp_all add: node_ok_def layout_ok_def)
  have "has_prefix t (copyFullKey src i)" if "i < node_count src" for i
    using in_fences_prefix [of F t "copyFullKey src i"] t assms(3) that by (force simp: has_prefix_def entries_def)
  then obtain t' where t': "copyKeyValueRange t (node_count t) 0 (node_count src) src = Inr t'" "layout_ok F t'"
    "entries t' = entries t @ take (node_count src) (drop 0 (entries src))" "data_offset t' + space_used t' = EFFECTIVE_PAGE_SIZE"
    "\<forall>(h, k, v) \<in> set (cells t') - set (cells t). h = head k" "getPrefix t' = getPrefix t"
    "getLowerFenceKey t' = getLowerFenceKey t" "getUpperFenceKey t' = getUpperFenceKey t" "is_leaf t' = is_leaf t"
    "upper_swip t' = upper_swip t" "has_garbage t' = has_garbage t" "hint t' = hint t" "prefix_length t' = prefix_length t"
    using t assms(4) by (elim copy_entries [OF _ src, of F t 0 "node_count src", rotated -1]) simp_all
  have "\<forall>(h, k, v) \<in> set (cells t'). h = head k" using t t'(5) by blast
  then have "built F leaf l u (es @ entries src) t'" unfolding built_def using t t' by simp
  then show ?thesis using that [of t'] t'(1,10,11) built_count [OF assms(1)] by simp
qed

lemma built_store:
  assumes "built F leaf l u es t" "in_fences l u key" "node_bytes F l u (es @ [(key, payload)]) \<le> EFFECTIVE_PAGE_SIZE"
  obtains t' where "storeKeyValue (length es) key payload t = Inr t'"
    "built F leaf l u (es @ [(key, payload)]) (t'\<lparr>node_count := tr16 (int (node_count t') + 1)\<rparr>)"
proof -
  note t = assms(1) [unfolded built_def]
  note cnt = built_count [OF assms(1)]
  let ?k = "drop (prefix_length t) key"
  let ?c = "(head ?k, ?k, payload)"
  have pre: "prefix_length t \<le> length key" "getPrefix t @ ?k = key"
    using in_fences_prefix [of F t key] t assms(2) append_take_drop_id [of "prefix_length t" key] by simp_all
  have room: "slots_begin + SLOT_SIZE * (node_count t + 1) + (length ?k + length payload) \<le> data_offset t"
    using assms(3) t node_bytes_layout [of F t] built_prefix [OF assms(1)]
    unfolding node_bytes_append by (simp add: slots_end_def)
  define t' where "t' = node_push (length es) ?c t"
  have store: "storeKeyValue (length es) key payload t = Inr t'"
    using pre(1) room t unfolding t'_def by (intro storeKeyValue_push) (simp_all add: slots_end_def)
  have small: "node_count t < 60000" using room t by (simp add: SLOT_SIZE_def EFFECTIVE_PAGE_SIZE_def)
  have count: "t'\<lparr>node_count := tr16 (int (node_count t') + 1)\<rparr> = (push_all (node_count t) [?c] t)\<lparr>node_count := node_count t + length [?c]\<rparr>"
    using small by (simp add: t'_def cnt tr16_nat nat_add_distrib)
  have "slots_begin + SLOT_SIZE * (node_count t + length [?c]) + total_size [?c] \<le> data_offset t"
    using room by (simp add: cell_size_def)
  note e = extend_layout [OF conjunct1 [OF t] this, folded count]
  have "built F leaf l u (es @ [(key, payload)]) (t'\<lparr>node_count := tr16 (int (node_count t') + 1)\<rparr>)"
    unfolding built_def entries_cells e(2,3) using e(1,4,5,6) t pre(2) by (auto simp: entries_cells t'_def)
  with store show ?thesis by (rule that)
qed

lemma built_ok:
  assumes "built F leaf l u es t" "sorted_wrt (<) (map fst es)" "\<forall>k \<in> fst ` set es. in_fences l u k"
  shows "node_ok F (makeHint t)" "entries (makeHint t) = es" "getLowerFenceKey (makeHint t) = l" "getUpperFenceKey (makeHint t) = u"
    "is_leaf (makeHint t) = leaf"
  using node_ok_makeHint [of F t] assms by (simp_all add: built_def)

lemma built_upper: "built F leaf l u es (t\<lparr>upper_swip := w\<rparr>) = built F leaf l u es t"
  by (simp add: built_def entries_cells)

section \<open>The bound\<close>

text \<open>The bound of \<open>merge\<close> with unbounded integers: every entry grows by what the common prefix loses.\<close>

definition merge_room :: "btree_node \<Rightarrow> btree_node \<Rightarrow> nat \<Rightarrow> nat \<Rightarrow> nat" where
  "merge_room n right p extra = space_used n + space_used right + (slots_begin + SLOT_SIZE * (node_count n + node_count right))
     + (prefix_length n - p) * node_count n + (prefix_length right - p) * node_count right + extra"

lemma tr16_mod: "tr16 (int m) = m mod 65536"
  by (simp add: tr16_def nat_mod_as_int)

lemma sum_mod: "(a + b mod m + c mod m + d) mod m = (a + b + c + d) mod (m :: nat)"
proof -
  have "(a + b mod m + c mod m + d) mod m = ((a + b mod m) mod m + (c mod m + d) mod m) mod m"
    by (simp only: add.assoc mod_add_eq)
  also have "\<dots> = ((a + b) mod m + (c + d) mod m) mod m" by (simp only: mod_add_left_eq mod_add_right_eq)
  finally show ?thesis by (simp only: mod_add_eq add.assoc)
qed

lemma merge_bound_room:
  assumes "prefix_length tmp \<le> prefix_length n" "prefix_length tmp \<le> prefix_length right"
  shows "merge_bound16 n right tmp extra = merge_room n right (prefix_length tmp) extra mod 65536"
proof -
  have grow: "tr16 ((int (prefix_length m) - int (prefix_length tmp)) * int (node_count m)) = (prefix_length m - prefix_length tmp) * node_count m mod 65536"
    if "prefix_length tmp \<le> prefix_length m" for m
  proof -
    have "(int (prefix_length m) - int (prefix_length tmp)) * int (node_count m) = int ((prefix_length m - prefix_length tmp) * node_count m)"
      using that by (simp only: of_nat_diff of_nat_mult)
    then show ?thesis by (simp only: tr16_mod)
  qed
  show ?thesis unfolding merge_bound16_def Let_def grow [OF assms(1)] grow [OF assms(2)] merge_room_def
    by (simp only: of_nat_add [symmetric] tr16_mod sum_mod)
qed

lemma grown_entries:
  assumes "layout_ok F n" "p \<le> prefix_length n"
  shows "sum_list (map (\<lambda>(k, v). length k - p + length v) (entries n)) + fence_size (getLowerFenceKey n) + fence_size (getUpperFenceKey n)
    = space_used n + (prefix_length n - p) * node_count n"
proof -
  have "map (\<lambda>(k, v). length k - p + length v) (entries n) = map (\<lambda>c. (prefix_length n - p) + cell_size c) (cells n)"
    using assms(2) by (auto simp: entries_cells cell_size_def)
  then have "sum_list (map (\<lambda>(k, v). length k - p + length v) (entries n)) = (prefix_length n - p) * node_count n + total_size (cells n)"
    by (simp only: sum_list_addf sum_list_triv total_size_def map_replicate_const) (simp add: sum_list_replicate)
  then show ?thesis using layout_okD(3) [OF assms(1)] fence_sizes [OF assms(1)] by (simp add: total_space_cells)
qed

lemma merged_bytes:
  assumes "layout_ok F n" "layout_ok F right" "l = getLowerFenceKey n" "u = getUpperFenceKey right"
    "fence_prefix F l u \<le> prefix_length n" "fence_prefix F l u \<le> prefix_length right"
  shows "merge_room n right (fence_prefix F l u) 0
      = node_bytes F l u (entries n @ entries right) + fence_size (getUpperFenceKey n) + fence_size (getLowerFenceKey right)"
    "merge_room n right (fence_prefix F l u) (SLOT_SIZE + (length k - fence_prefix F l u) + length v)
      = node_bytes F l u (entries n @ (k, v) # entries right) + fence_size (getUpperFenceKey n) + fence_size (getLowerFenceKey right)"
  using grown_entries [OF assms(1,5)] grown_entries [OF assms(2,6)] assms(3,4)
  by (simp_all add: node_bytes_def merge_room_def add_mult_distrib2)

lemma common_prefix_max: "take c a = take c b \<Longrightarrow> c \<le> length a \<Longrightarrow> c \<le> length b \<Longrightarrow> c \<le> common_prefix a b"
proof (induction a b arbitrary: c rule: common_prefix.induct)
  case (1 x xs y ys)
  then show ?case by (cases c) auto
qed auto

text \<open>Fences further apart have a shorter prefix in common.\<close>

lemma prefix_shrinks:
  assumes "in_fences l u s"
  shows "fence_prefix F l u \<le> fence_prefix F l (Some s)" "fence_prefix F l u \<le> fence_prefix F (Some s) u" "fence_prefix F l u \<le> length s"
proof -
  have "common_prefix a b \<le> common_prefix a s \<and> common_prefix a b \<le> common_prefix s b \<and> common_prefix a b \<le> length s"
    if "a < s" "s \<le> b" for a b
  proof -
    have c: "take (common_prefix a b) a = take (common_prefix a b) b" "common_prefix a b \<le> length a" "common_prefix a b \<le> length b"
      using common_prefix_take [of "common_prefix a b" a b] by auto
    have s: "common_prefix a b \<le> length s" "take (common_prefix a b) s = take (common_prefix a b) a"
      using between_prefix [OF c(1-3) less_imp_le [OF that(1)] that(2)] by simp_all
    show ?thesis using common_prefix_max [OF s(2) [symmetric] c(2) s(1)] common_prefix_max [OF trans [OF s(2) c(1)] s(1) c(3)] s(1) by simp
  qed
  then show "fence_prefix F l u \<le> fence_prefix F l (Some s)" "fence_prefix F l u \<le> fence_prefix F (Some s) u" "fence_prefix F l u \<le> length s"
    using assms by (auto simp: fence_prefix_def in_fences_def split: option.splits)
qed

section \<open>Merging\<close>

definition adjacent :: "btree_flags \<Rightarrow> btree_node \<Rightarrow> btree_node \<Rightarrow> bytes \<Rightarrow> bool" where
  "adjacent F n right s \<longleftrightarrow> node_ok F n \<and> node_ok F right \<and> is_leaf right = is_leaf n
     \<and> getUpperFenceKey n = Some s \<and> getLowerFenceKey right = Some s \<and> (is_leaf n \<or> s \<notin> set (node_keys n))
     \<and> in_fences (getLowerFenceKey n) (getUpperFenceKey right) s
     \<and> slots_begin + fence_size (getLowerFenceKey n) + fence_size (getUpperFenceKey right) \<le> EFFECTIVE_PAGE_SIZE"

definition merged_entries :: "btree_node \<Rightarrow> btree_node \<Rightarrow> bytes \<Rightarrow> (bytes \<times> bytes) list" where
  "merged_entries n right s = entries n @ (if is_leaf n then [] else [(s, swip_bytes (upper_swip n))]) @ entries right"

text \<open>The bytes of the merged node, and twice the fence between the two: \<open>merge\<close> counts it although it disappears.\<close>

definition merge_need :: "btree_flags \<Rightarrow> btree_node \<Rightarrow> btree_node \<Rightarrow> bytes \<Rightarrow> nat" where
  "merge_need F n right s = node_bytes F (getLowerFenceKey n) (getUpperFenceKey right) (merged_entries n right s) + 2 * length s"

lemma adjacent_entries:
  assumes "adjacent F n right s"
  shows "sorted_wrt (<) (map fst (merged_entries n right s))"
    "\<forall>k \<in> fst ` set (merged_entries n right s). in_fences (getLowerFenceKey n) (getUpperFenceKey right) k"
    "merge_room n right (fence_prefix F (getLowerFenceKey n) (getUpperFenceKey right))
      (if is_leaf n then 0 else SLOT_SIZE + (length s - fence_prefix F (getLowerFenceKey n) (getUpperFenceKey right)) + SWIP_SIZE) = merge_need F n right s"
proof -
  note A = assms [unfolded adjacent_def]
  have s: "(case getLowerFenceKey n of None \<Rightarrow> True | Some l \<Rightarrow> l < s)" "(case getUpperFenceKey right of None \<Rightarrow> True | Some u \<Rightarrow> s \<le> u)"
    using A by (simp_all add: in_fences_def)
  have below: "k \<le> s" "case getLowerFenceKey n of None \<Rightarrow> True | Some l \<Rightarrow> l < k" if "k \<in> fst ` set (entries n)" for k
    using that A by (auto simp: node_ok_def keys_entries in_fences_def)
  have above: "s < k" "case getUpperFenceKey right of None \<Rightarrow> True | Some u \<Rightarrow> k \<le> u" if "k \<in> fst ` set (entries right)" for k
    using that A by (auto simp: node_ok_def keys_entries in_fences_def)
  have strict: "k < s" if "k \<in> fst ` set (entries n)" "\<not> is_leaf n" for k
    using below(1) [OF that(1)] that A by (auto simp: keys_entries order_less_le)
  have across: "k < k'" if "k \<in> fst ` set (entries n)" "k' \<in> fst ` set (entries right)" for k k'
    using below(1) [OF that(1)] above(1) [OF that(2)] by (rule order_le_less_trans)
  have sorted: "sorted_wrt (<) (map fst (entries n))" "sorted_wrt (<) (map fst (entries right))"
    using A sorted_entries by blast+
  have ball: "\<forall>x\<in>set (map fst (entries n)). \<forall>y\<in>set (map fst (entries right)). x < y" "\<forall>y\<in>set (map fst (entries right)). s < y"
    "\<not> is_leaf n \<Longrightarrow> \<forall>x\<in>set (map fst (entries n)). x < s"
    unfolding set_map by (intro ballI, rule across, assumption+, intro ballI, rule above(1), assumption, intro ballI, rule strict)
  show "sorted_wrt (<) (map fst (merged_entries n right s))"
  proof (cases "is_leaf n")
    case True
    then show ?thesis using sorted ball(1) by (simp only: merged_entries_def map_append sorted_wrt_append if_True append_Nil simp_thms)
  next
    case False
    then show ?thesis using sorted ball(1,2) ball(3) [OF False]
      by (simp only: merged_entries_def map_append sorted_wrt_append if_False list.map fst_conv list.set simp_thms sorted_wrt.simps) auto
  qed
  have "in_fences (getLowerFenceKey n) (getUpperFenceKey right) k" if k: "k \<in> fst ` set (entries n)" for k
    unfolding in_fences_def using below [OF k] s(2) by (auto split: option.splits)
  moreover have "in_fences (getLowerFenceKey n) (getUpperFenceKey right) k" if k: "k \<in> fst ` set (entries right)" for k
    unfolding in_fences_def using above [OF k] s(1) by (auto split: option.splits)
  ultimately show "\<forall>k \<in> fst ` set (merged_entries n right s). in_fences (getLowerFenceKey n) (getUpperFenceKey right) k"
    using A by (auto simp: merged_entries_def)
  have lay: "layout_ok F n" "layout_ok F right" "in_fences (getLowerFenceKey n) (getUpperFenceKey right) s" using A by (simp_all add: node_ok_def)
  have "fence_prefix F (getLowerFenceKey n) (getUpperFenceKey right) \<le> prefix_length n"
    "fence_prefix F (getLowerFenceKey n) (getUpperFenceKey right) \<le> prefix_length right"
    using prefix_shrinks [OF lay(3), of F] A layout_okD(4) [OF lay(1)] layout_okD(4) [OF lay(2)] by simp_all
  note M = merged_bytes [OF lay(1,2) refl refl this]
  show "merge_room n right (fence_prefix F (getLowerFenceKey n) (getUpperFenceKey right))
      (if is_leaf n then 0 else SLOT_SIZE + (length s - fence_prefix F (getLowerFenceKey n) (getUpperFenceKey right)) + SWIP_SIZE) = merge_need F n right s"
    using M(1) M(2) [of s "swip_bytes (upper_swip n)"] A by (simp add: merged_entries_def merge_need_def fence_size_def)
qed

text \<open>The decision: the 16-bit bound is the exact one as long as that fits into 16 bits.\<close>

definition merge_extra :: "btree_node \<Rightarrow> btree_node \<Rightarrow> nat \<Rightarrow> btree_node \<Rightarrow> nat" where
  "merge_extra n parent slotId tmp = (if is_leaf n then 0 else spaceNeeded (getFullKeyLen parent slotId) SWIP_SIZE (prefix_length tmp))"

lemma merge_decision:
  assumes "adjacent F n right s" "layout_ok F parent" "slotId < node_count parent" "copyFullKey parent slotId = s" "merge_need F n right s < 65536"
    "prefix_length tmp = fence_prefix F (getLowerFenceKey n) (getUpperFenceKey right)"
  shows "merge_bound16 n right tmp (merge_extra n parent slotId tmp) = merge_need F n right s"
proof -
  note A = assms(1) [unfolded adjacent_def]
  let ?p = "fence_prefix F (getLowerFenceKey n) (getUpperFenceKey right)"
  have lay: "layout_ok F n" "layout_ok F right" "in_fences (getLowerFenceKey n) (getUpperFenceKey right) s" using A by (simp_all add: node_ok_def)
  note shrink = prefix_shrinks [OF lay(3), of F]
  have p: "?p \<le> prefix_length n" "?p \<le> prefix_length right"
    using shrink A layout_okD(4) [OF lay(1)] layout_okD(4) [OF lay(2)] by simp_all
  have len: "getFullKeyLen parent slotId = length s" "length s < 65536"
    using key_sizes [OF assms(2,3)] assms(4) by (auto simp: getFullKeyLen_def tr16_nat nat_add_distrib copyFullKey_def)
  have extra: "merge_extra n parent slotId tmp = (if is_leaf n then 0 else SLOT_SIZE + (length s - ?p) + SWIP_SIZE)"
  proof (cases "is_leaf n")
    case False
    then have "SLOT_SIZE + (length s - ?p) + SWIP_SIZE < 65536" using assms(5) adjacent_entries(3) [OF assms(1)] by (simp add: merge_room_def)
    then have "tr16 (int (SLOT_SIZE + (length s - ?p) + SWIP_SIZE)) = SLOT_SIZE + (length s - ?p) + SWIP_SIZE" by (rule tr16_int)
    moreover have "int (SLOT_SIZE + (length s - ?p) + SWIP_SIZE) = int SLOT_SIZE + (int (length s) - int ?p) + int SWIP_SIZE"
      using shrink(3) by (simp only: of_nat_add of_nat_diff)
    ultimately show ?thesis using False len(1) assms(6) by (simp only: merge_extra_def spaceNeeded_def if_False)
  qed (simp add: merge_extra_def)
  show ?thesis using merge_bound_room [of tmp n right] p assms(5,6) unfolding extra by (simp add: adjacent_entries(3) [OF assms(1)])
qed

lemma node_merge_unfold:
  assumes "is_leaf right = is_leaf n" "\<not> is_leaf parent" "setFences F (getLowerFenceKey n) (getUpperFenceKey right) (newBTreeNode (is_leaf n)) = Inr tmp"
  shows "node_merge F slotId parent right n =
    (if EFFECTIVE_PAGE_SIZE < merge_bound16 n right tmp (merge_extra n parent slotId tmp) then Inr (False, parent, right)
     else bindR (copyKeyValueRange tmp 0 0 (node_count n) n) (\<lambda>tmp.
       if is_leaf n then bindR (copyKeyValueRange tmp (node_count n) 0 (node_count right) right) (\<lambda>tmp.
         Inr (True, removeSlot slotId parent, makeHint tmp))
       else bindR (storeKeyValue (node_count n) (copyFullKey parent slotId) (swip_bytes (upper_swip n)) tmp) (\<lambda>tmp.
         let tmp = tmp\<lparr>node_count := tr16 (int (node_count tmp) + 1)\<rparr>
         in bindR (copyKeyValueRange tmp (node_count tmp) 0 (node_count right) right) (\<lambda>tmp.
           Inr (True, removeSlot slotId parent, makeHint (tmp\<lparr>upper_swip := upper_swip right\<rparr>))))))"
  using assms by (simp add: node_merge_def merge_extra_def Let_def)

lemma node_merge_refused:
  assumes "adjacent F n right s" "layout_ok F parent" "\<not> is_leaf parent" "slotId < node_count parent" "copyFullKey parent slotId = s"
    "merge_need F n right s < 65536" "EFFECTIVE_PAGE_SIZE < merge_need F n right s"
  shows "node_merge F slotId parent right n = Inr (False, parent, right)"
proof -
  note A = assms(1) [unfolded adjacent_def]
  obtain t where t: "setFences F (getLowerFenceKey n) (getUpperFenceKey right) (newBTreeNode (is_leaf n)) = Inr t"
    "built F (is_leaf n) (getLowerFenceKey n) (getUpperFenceKey right) [] t"
    using A by (elim built_start [rotated -1]) simp
  show ?thesis using node_merge_unfold [OF _ assms(3) t(1)] A merge_decision [OF assms(1,2,4,5,6) built_prefix [OF t(2)]] assms(7) by simp
qed

lemma node_merge_done:
  assumes "adjacent F n right s" "node_ok F parent" "\<not> is_leaf parent" "slotId < node_count parent" "copyFullKey parent slotId = s"
    "merge_need F n right s \<le> EFFECTIVE_PAGE_SIZE"
  obtains r where "node_merge F slotId parent right n = Inr (True, removeSlot slotId parent, r)" "node_ok F r"
    "entries r = merged_entries n right s" "getLowerFenceKey r = getLowerFenceKey n" "getUpperFenceKey r = getUpperFenceKey right"
    "is_leaf r = is_leaf n" "\<not> is_leaf n \<longrightarrow> upper_swip r = upper_swip right"
proof -
  note A = assms(1) [unfolded adjacent_def]
  let ?l = "getLowerFenceKey n" and ?u = "getUpperFenceKey right"
  have lay: "layout_ok F parent" using assms(2) by (simp add: node_ok_def)
  have small: "merge_need F n right s < 65536" using assms(6) by (simp add: EFFECTIVE_PAGE_SIZE_def)
  note E = adjacent_entries [OF assms(1)]
  have bytes: "node_bytes F ?l ?u (merged_entries n right s) \<le> EFFECTIVE_PAGE_SIZE" using assms(6) by (simp add: merge_need_def)
  obtain t where t: "setFences F ?l ?u (newBTreeNode (is_leaf n)) = Inr t" "built F (is_leaf n) ?l ?u [] t"
    using A by (elim built_start [rotated -1]) simp
  note unfold = node_merge_unfold [OF _ assms(3) t(1)]
  have go: "\<not> EFFECTIVE_PAGE_SIZE < merge_bound16 n right t (merge_extra n parent slotId t)"
    using merge_decision [OF assms(1) lay assms(4,5) small built_prefix [OF t(2)]] assms(6) by simp
  have keys: "\<forall>k \<in> fst ` set (entries n). in_fences ?l ?u k" "\<forall>k \<in> fst ` set (entries right). in_fences ?l ?u k"
    using E(2) by (simp_all add: merged_entries_def)
  obtain t1 where t1: "copyKeyValueRange t (length ([] :: (bytes \<times> bytes) list)) 0 (node_count n) n = Inr t1" "built F (is_leaf n) ?l ?u ([] @ entries n) t1"
    "upper_swip t1 = upper_swip t" "has_garbage t1 = has_garbage t"
    using A bytes keys(1) by (elim built_copy [OF t(2), of n, rotated -1]) (auto simp: merged_entries_def node_bytes_append)
  show ?thesis
  proof (cases "is_leaf n")
    case True
    obtain t2 where t2: "copyKeyValueRange t1 (length ([] @ entries n)) 0 (node_count right) right = Inr t2"
      "built F (is_leaf n) ?l ?u (([] @ entries n) @ entries right) t2" "upper_swip t2 = upper_swip t1" "has_garbage t2 = has_garbage t1"
      using A bytes keys(2) True by (elim built_copy [OF t1(2), of right, rotated -1]) (auto simp: merged_entries_def)
    have "node_merge F slotId parent right n = Inr (True, removeSlot slotId parent, makeHint t2)"
      using unfold go t1(1) t2(1) True A by simp
    moreover have "built F (is_leaf n) ?l ?u (merged_entries n right s) t2" using t2(2) True by (simp add: merged_entries_def)
    note built_ok [OF this E(1,2)]
    ultimately show ?thesis using True by (elim that) simp_all
  next
    case False
    obtain t2 where t2: "storeKeyValue (length ([] @ entries n)) s (swip_bytes (upper_swip n)) t1 = Inr t2"
      "built F (is_leaf n) ?l ?u (([] @ entries n) @ [(s, swip_bytes (upper_swip n))]) (t2\<lparr>node_count := tr16 (int (node_count t2) + 1)\<rparr>)"
      using A bytes False by (elim built_store [OF t1(2), of s "swip_bytes (upper_swip n)", rotated -1])
        (auto simp: merged_entries_def node_bytes_append add_mult_distrib2)
    let ?t2 = "t2\<lparr>node_count := tr16 (int (node_count t2) + 1)\<rparr>"
    obtain t3 where t3: "copyKeyValueRange ?t2 (length (([] @ entries n) @ [(s, swip_bytes (upper_swip n))])) 0 (node_count right) right = Inr t3"
      "built F (is_leaf n) ?l ?u ((([] @ entries n) @ [(s, swip_bytes (upper_swip n))]) @ entries right) t3" "upper_swip t3 = upper_swip ?t2" "has_garbage t3 = has_garbage ?t2"
      using A bytes keys(2) False by (elim built_copy [OF t2(2), of right, rotated -1]) (auto simp: merged_entries_def)
    have "node_merge F slotId parent right n = Inr (True, removeSlot slotId parent, makeHint (t3\<lparr>upper_swip := upper_swip right\<rparr>))"
      using unfold go t1(1) t2(1) t3(1) built_count [OF t2(2)] False A assms(5) by (simp add: Let_def)
    moreover have "built F (is_leaf n) ?l ?u (merged_entries n right s) (t3\<lparr>upper_swip := upper_swip right\<rparr>)"
      using t3(2) False by (simp add: merged_entries_def built_upper)
    note built_ok [OF this E(1,2)]
    ultimately show ?thesis by (elim that) simp_all
  qed
qed

end
