(* ===== verification/BTreeMap.thy ===== *)
theory BTreeMap
  imports BTreeMerge
begin

text \<open>
  The B-tree node as an ordered map from keys to payloads, and as a router of keys to children: the
  contract that the tree relies on, and the properties of the node's operations.
\<close>

section \<open>Ordered stores\<close>

lemma listed_by_keys: "distinct (map fst xs) \<Longrightarrow> map (\<lambda>k. (k, the (map_of xs k))) (map fst xs) = xs"
  unfolding map_map by (rule map_idI) (auto simp: comp_def)

text \<open>Insertion of absent keys, and removal, on a store whose contents are listed in the order of the keys.\<close>

locale ordered_store =
  fixes ok :: "'s \<Rightarrow> bool"
    and view :: "'s \<Rightarrow> ('k :: linorder \<times> 'v) list"
    and admits :: "'k \<Rightarrow> 'v \<Rightarrow> 's \<Rightarrow> bool"
    and ins :: "'k \<Rightarrow> 'v \<Rightarrow> 's \<Rightarrow> (nat \<times> 's) result"
    and del :: "'k \<Rightarrow> 's \<Rightarrow> (bool \<times> 's) result"
  assumes view_sorted: "ok s \<Longrightarrow> sorted_wrt (<) (map fst (view s))"
    and ins_law: "ok s \<Longrightarrow> admits k v s \<Longrightarrow> map_of (view s) k = None \<Longrightarrow>
      \<exists>i s'. ins k v s = Inr (i, s') \<and> ok s' \<and> map_of (view s') = (map_of (view s))(k \<mapsto> v)"
    and del_law: "ok s \<Longrightarrow>
      \<exists>s'. del k s = Inr (k \<in> dom (map_of (view s)), s') \<and> ok s' \<and> map_of (view s') = (map_of (view s))(k := None)"
begin

lemma view_map:
  assumes "ok s" "ok s'" "map_of (view s) = map_of (view s')"
  shows "view s = view s'"
proof -
  note sorted = view_sorted [OF assms(1)] view_sorted [OF assms(2)]
  have "set (map fst (view s)) = set (map fst (view s'))"
    using assms(3) dom_map_of_conv_image_fst [of "view s"] dom_map_of_conv_image_fst [of "view s'"] by simp
  then have "map fst (view s) = map fst (view s')" using sorted by (intro strict_sorted_equal)
  moreover have "distinct (map fst (view s))" "distinct (map fst (view s'))" using sorted by (simp_all add: strict_sorted_iff)
  ultimately show ?thesis using assms(3) by (metis listed_by_keys)
qed

lemma ins_del:
  assumes "ok s" "admits k v s" "map_of (view s) k = None"
  shows "\<exists>i s' s''. ins k v s = Inr (i, s') \<and> ok s' \<and> del k s' = Inr (True, s'') \<and> ok s'' \<and> view s'' = view s"
proof -
  obtain i s' where s': "ins k v s = Inr (i, s')" "ok s'" "map_of (view s') = (map_of (view s))(k \<mapsto> v)"
    using ins_law [OF assms] by blast
  obtain s'' where s'': "del k s' = Inr (k \<in> dom (map_of (view s')), s'')" "ok s''" "map_of (view s'') = (map_of (view s'))(k := None)"
    using del_law [OF s'(2), of k] by blast
  have "map_of (view s'') = map_of (view s)" using s'(3) s''(3) assms(3) by (auto simp: fun_eq_iff)
  then have "view s'' = view s" using view_map [OF s''(2) assms(1)] by simp
  moreover have "k \<in> dom (map_of (view s'))" using s'(3) by simp
  ultimately show ?thesis using s' s'' by auto
qed

lemma del_absent:
  assumes "ok s" "map_of (view s) k = None"
  shows "\<exists>s'. del k s = Inr (False, s') \<and> ok s' \<and> view s' = view s"
proof -
  obtain s' where s': "del k s = Inr (k \<in> dom (map_of (view s)), s')" "ok s'" "map_of (view s') = (map_of (view s))(k := None)"
    using del_law [OF assms(1), of k] by blast
  then have "map_of (view s') = map_of (view s)" using assms(2) by (auto simp: fun_eq_iff)
  then show ?thesis using view_map [OF s'(2) assms(1)] s' assms(2) by auto
qed

end

section \<open>Nodes as ordered stores\<close>

definition admits :: "bytes \<Rightarrow> bytes \<Rightarrow> btree_node \<Rightarrow> bool" where
  "admits key payload n \<longleftrightarrow> canInsert (length key) (length payload) n
     \<and> in_fences (getLowerFenceKey n) (getUpperFenceKey n) key \<and> SLOT_SIZE + length key + length payload < 65536"

lemma map_of_insert:
  assumes "distinct (map fst (xs @ ys))" "k \<notin> fst ` set (xs @ ys)"
  shows "map_of (xs @ (k, v) # ys) = (map_of (xs @ ys))(k \<mapsto> v)"
proof -
  have "map_of xs k = None" using assms(2) by (auto simp: map_of_eq_None_iff)
  then show ?thesis by (auto simp: fun_eq_iff map_add_def split: option.splits)
qed

lemma map_of_filter: "map_of (filter (\<lambda>e. fst e \<noteq> k) xs) = (map_of xs)(k := None)"
  by (induction xs) (auto simp: fun_eq_iff)

lemma distinct_entries: "node_ok F n \<Longrightarrow> distinct (map fst (entries n))"
  using sorted_entries [of F n] by (simp add: strict_sorted_iff)

lemma absent_key: "map_of (entries n) k = None \<longleftrightarrow> k \<notin> set (node_keys n)"
  by (simp add: map_of_eq_None_iff keys_entries)

lemma node_insert_map:
  assumes "node_ok F n" "hints_usable F" "admits key payload n" "map_of (entries n) key = None"
  obtains n' where "node_insert F key payload n = Inr (lower_bound key (node_keys n), n')" "node_ok F n'"
    "map_of (entries n') = (map_of (entries n))(key \<mapsto> payload)" "getLowerFenceKey n' = getLowerFenceKey n"
    "getUpperFenceKey n' = getUpperFenceKey n" "is_leaf n' = is_leaf n" "upper_swip n' = upper_swip n"
proof -
  have new: "key \<notin> set (node_keys n)" using assms(4) by (simp add: absent_key)
  have a: "canInsert (length key) (length payload) n" "in_fences (getLowerFenceKey n) (getUpperFenceKey n) key"
    "SLOT_SIZE + length key + length payload < 65536" using assms(3) by (simp_all add: admits_def)
  obtain n' where n': "node_insert F key payload n = Inr (lower_bound key (node_keys n), n')" "node_ok F n'"
    "entries n' = take (lower_bound key (node_keys n)) (entries n) @ (key, payload) # drop (lower_bound key (node_keys n)) (entries n)"
    "getLowerFenceKey n' = getLowerFenceKey n" "getUpperFenceKey n' = getUpperFenceKey n" "is_leaf n' = is_leaf n" "upper_swip n' = upper_swip n"
    by (rule node_insert_spec [OF assms(1,2) a(1) new a(2,3)])
  have "map_of (entries n') = (map_of (entries n))(key \<mapsto> payload)"
    using map_of_insert [of "take (lower_bound key (node_keys n)) (entries n)" "drop (lower_bound key (node_keys n)) (entries n)" key payload]
      distinct_entries [OF assms(1)] new by (simp add: n'(3) keys_entries)
  with n' show ?thesis by (intro that)
qed

interpretation node_store: ordered_store "\<lambda>n. hints_usable F \<and> node_ok F n" entries admits "node_insert F" "node_remove F"
  for F
proof
  show "sorted_wrt (<) (map fst (entries n))" if "hints_usable F \<and> node_ok F n" for n
    using that sorted_entries by blast
  show "\<exists>i n'. node_insert F k v n = Inr (i, n') \<and> (hints_usable F \<and> node_ok F n') \<and> map_of (entries n') = (map_of (entries n))(k \<mapsto> v)"
    if "hints_usable F \<and> node_ok F n" "admits k v n" "map_of (entries n) k = None" for n k v
    using that by (elim conjE node_insert_map [of F n k v]) blast+
  show "\<exists>n'. node_remove F k n = Inr (k \<in> dom (map_of (entries n)), n') \<and> (hints_usable F \<and> node_ok F n')
      \<and> map_of (entries n') = (map_of (entries n))(k := None)" if ok: "hints_usable F \<and> node_ok F n" for n k
  proof -
    obtain n' where "node_remove F k n = Inr (k \<in> set (node_keys n), n')" "node_ok F n'" "entries n' = filter (\<lambda>e. fst e \<noteq> k) (entries n)"
      using ok by (elim conjE node_remove_spec [of F n k])
    then show ?thesis using ok by (simp add: map_of_filter keys_entries dom_map_of_conv_image_fst)
  qed
qed

section \<open>Nodes as routers\<close>

definition inner_ok :: "btree_flags \<Rightarrow> btree_node \<Rightarrow> bool" where
  "inner_ok F n \<longleftrightarrow> node_ok F n \<and> \<not> is_leaf n \<and> (\<forall>(k, v) \<in> set (entries n). length v = SWIP_SIZE)"

text \<open>The child of a key: of the first separator that is not below it, or the last one.\<close>

definition route :: "(bytes \<times> bytes) list \<Rightarrow> u64 \<Rightarrow> bytes \<Rightarrow> u64" where
  "route es up k = (case dropWhile (\<lambda>e. fst e < k) es of [] \<Rightarrow> up | (_, v) # _ \<Rightarrow> bytes_swip v)"

lemma lower_bound_dropWhile: "drop (lower_bound k (map fst es)) es = dropWhile (\<lambda>e. fst e < k) es"
  by (induction es) (auto simp: lower_bound_def)

lemma lookupInner_route:
  assumes "inner_ok F n" "hints_usable F"
  shows "lookupInner F k n = Inr (route (entries n) (upper_swip n) k)"
proof -
  let ?i = "lower_bound k (node_keys n)"
  have "search_ok n" using assms(1) by (simp add: inner_ok_def node_ok_def)
  note lb = lowerBound_spec(1) [OF this assms(2), of k False]
  have le: "?i \<le> node_count n" using length_takeWhile_le [of "\<lambda>x. x < k" "node_keys n"] by (simp add: lower_bound_def)
  have dw: "dropWhile (\<lambda>e. fst e < k) (entries n) = drop ?i (entries n)" by (simp add: keys_entries lower_bound_dropWhile)
  show ?thesis
  proof (cases "?i = node_count n")
    case True
    then show ?thesis unfolding route_def dw using lb by (simp add: lookupInner_def)
  next
    case False
    then have lt: "?i < node_count n" using le by simp
    then have e: "drop ?i (entries n) = (copyFullKey n ?i, getPayload n ?i) # drop (Suc ?i) (entries n)"
      by (simp add: entries_def flip: Cons_nth_drop_Suc)
    have "(copyFullKey n ?i, getPayload n ?i) \<in> set (entries n)" using lt by (simp add: entries_def)
    then have "getPayloadLength n ?i = SWIP_SIZE" using assms(1) by (auto simp: inner_ok_def)
    then have "getChild n ?i = bytes_swip (getPayload n ?i)" by (simp add: getChild_def getPayload_def)
    then show ?thesis unfolding route_def dw e using lb lt by (simp add: lookupInner_def)
  qed
qed

lemma route_insert:
  assumes "sorted_wrt (<) (map fst es)" "sep \<notin> fst ` set es"
  shows "route (take (lower_bound sep (map fst es)) es @ (sep, swip_bytes w) # drop (lower_bound sep (map fst es)) es) up k
    = (if k \<le> sep \<and> (\<forall>e \<in> set es. fst e < sep \<longrightarrow> fst e < k) then w else route es up k)"
proof -
  have t: "take (lower_bound sep (map fst es)) es = takeWhile (\<lambda>e. fst e < sep) es"
    by (simp add: lower_bound_def takeWhile_map comp_def flip: takeWhile_eq_take)
  have d: "drop (lower_bound sep (map fst es)) es = dropWhile (\<lambda>e. fst e < sep) es" by (rule lower_bound_dropWhile)
  show ?thesis unfolding t d using assms
  proof (induction es)
    case Nil
    show ?case by (auto simp: route_def)
  next
    case (Cons e es)
    show ?case
    proof (cases "fst e < sep")
      case True
      then show ?thesis using Cons by (cases "fst e < k") (auto simp: route_def not_less dest: order_le_less_trans)
    next
      case False
      then have "sep < fst e" using Cons.prems(2) by (auto simp: order_less_le)
      moreover have "sep < fst x" if "x \<in> set es" for x
        using Cons.prems(1) that \<open>sep < fst e\<close> by (auto intro: order_less_trans)
      ultimately show ?thesis by (auto simp: route_def dest: order_less_asym)
    qed
  qed
qed

section \<open>Room\<close>

text \<open>A node admits an entry whenever the bytes of all its entries then fit the page, garbage or not.\<close>

lemma canInsert_bytes:
  assumes "layout_ok F n" "prefix_length n \<le> length k"
    "node_bytes F (getLowerFenceKey n) (getUpperFenceKey n) ((k, v) # entries n) \<le> EFFECTIVE_PAGE_SIZE"
  shows "canInsert (length k) (length v) n"
proof -
  let ?need = "SLOT_SIZE + (length k - prefix_length n) + length v"
  have fit: "slots_end n + space_used n + ?need \<le> EFFECTIVE_PAGE_SIZE"
    using assms(3) node_bytes_layout [OF assms(1)] layout_okD(4) [OF assms(1)] by (simp add: node_bytes_def)
  then have "?need < 65536" by (simp add: EFFECTIVE_PAGE_SIZE_def)
  then have "tr16 (int ?need) = ?need" by (rule tr16_int)
  moreover have "int ?need = int SLOT_SIZE + (int (length k) - int (prefix_length n)) + int (length v)"
    using assms(2) by (simp only: of_nat_add of_nat_diff)
  ultimately have "spaceNeeded (length k) (length v) (prefix_length n) = ?need" by (simp only: spaceNeeded_def)
  moreover have "freeSpaceAfterCompaction n = EFFECTIVE_PAGE_SIZE - slots_end n - space_used n"
    using fit by (simp add: freeSpaceAfterCompaction_def tr16_nat EFFECTIVE_PAGE_SIZE_def nat_diff_distrib')
  ultimately show ?thesis unfolding canInsert_def hasEnoughSpaceFor_def using fit by linarith
qed

lemma new_node_ok: "node_ok F (newBTreeNode leaf)" "entries (newBTreeNode leaf) = []"
  "getLowerFenceKey (newBTreeNode leaf) = None" "getUpperFenceKey (newBTreeNode leaf) = None" "is_leaf (newBTreeNode leaf) = leaf"
  by (simp_all add: node_ok_def layout_ok_def search_ok_def slots_end_def newBTreeNode_def fence_ok_def total_space_used_def
      getLowerFenceKey_def getUpperFenceKey_def fence_bytes_def fence_prefix_def suffixes_def node_keys_def entries_def
      slots_begin_def SLOT_SIZE_def EFFECTIVE_PAGE_SIZE_def hint_count_def)

lemma no_prefix [simp]: "fence_prefix F None u = 0" "fence_prefix F l None = 0"
  by (simp_all add: fence_prefix_def split: option.split)

text \<open>One insertion into a node without fences, as the samples below use it.\<close>

lemma open_insert:
  assumes "node_ok F n" "hints_usable F" "getLowerFenceKey n = None" "getUpperFenceKey n = None" "entries n = es" "k \<notin> fst ` set es"
    "node_bytes F None None ((k, v) # es) \<le> EFFECTIVE_PAGE_SIZE"
  obtains n' where "node_insert F k v n = Inr (lower_bound k (map fst es), n')" "node_ok F n'"
    "entries n' = take (lower_bound k (map fst es)) es @ (k, v) # drop (lower_bound k (map fst es)) es"
    "getLowerFenceKey n' = None" "getUpperFenceKey n' = None" "is_leaf n' = is_leaf n"
proof -
  have lay: "layout_ok F n" using assms(1) by (simp add: node_ok_def)
  have "prefix_length n = 0" using layout_okD(4) [OF lay] by (simp add: assms(3,4) fence_prefix_def)
  then have can: "canInsert (length k) (length v) n" using canInsert_bytes [OF lay] assms(3-5,7) by simp
  have new: "k \<notin> set (node_keys n)" using assms(5,6) by (simp add: keys_entries)
  have fence: "in_fences (getLowerFenceKey n) (getUpperFenceKey n) k" by (simp add: assms(3,4) in_fences_def)
  have size: "SLOT_SIZE + length k + length v < 65536"
    using assms(7) by (simp add: node_bytes_def no_prefix SLOT_SIZE_def EFFECTIVE_PAGE_SIZE_def)
  show ?thesis using node_insert_spec [OF assms(1,2) can new fence size] that assms(3,4,5) by (metis keys_entries)
qed

section \<open>Properties of the node\<close>

lemma filter_below:
  assumes "sorted_wrt (<) ks"
  shows "filter (\<lambda>k. k < key) ks = takeWhile (\<lambda>k. k < key) (ks :: bytes list)"
  using assms
proof (induction ks)
  case (Cons a ks)
  show ?case
  proof (cases "a < key")
    case True
    then show ?thesis using Cons by simp
  next
    case False
    then have "\<not> k < key" if "k \<in> set ks" for k using Cons.prems that by (auto dest: order_less_trans)
    then show ?thesis using False by (simp add: filter_empty_conv)
  qed
qed simp

text \<open>
  C15. The search of a B-tree node, whatever the flags for heads, hints and prefix compression, is a linear
  scan: it returns the number of keys below the one sought; in the variant for equality only, that
  number when the key is there and -1 otherwise; in leaves it also reports whether the key is there.\<close>

theorem node_search_is_linear:
  assumes "node_ok F n" "hints_usable F"
  shows "lowerBound F False key e n = Inr (int (length (filter (\<lambda>k. k < key) (node_keys n))),
      if is_leaf n then key \<in> set (node_keys n) else e)
    \<and> lowerBound F True key e n = Inr (if key \<in> set (node_keys n) then int (length (filter (\<lambda>k. k < key) (node_keys n))) else - 1,
      if is_leaf n then key \<in> set (node_keys n) else e)"
proof -
  have ok: "search_ok n" using assms(1) by (simp add: node_ok_def)
  show ?thesis using lowerBound_spec [OF ok assms(2), of key e]
    by (simp only: filter_below [OF sorted_keys [OF ok]] lower_bound_def)
qed

definition sample_flags :: btree_flags where
  "sample_flags = \<lparr>FLAGS_btree_prefix_compression = True, FLAGS_btree_heads = True, FLAGS_btree_hints = 1, built_with_avx512 = False\<rparr>"

lemma sample_flags_usable [simp]: "hints_usable sample_flags"
  by (simp add: sample_flags_def hints_usable_def)

lemmas sizes = node_bytes_def fence_size_def slots_begin_def SLOT_SIZE_def SWIP_SIZE_def EFFECTIVE_PAGE_SIZE_def

lemma sample_leaf:
  obtains n where "node_ok sample_flags n" "entries n = [([1], [7]), ([1, 2], [8, 9])]" "is_leaf n"
    "getLowerFenceKey n = None" "getUpperFenceKey n = None"
proof -
  obtain n1 where n1: "node_ok sample_flags n1" "entries n1 = [([1, 2], [8, 9])]" "getLowerFenceKey n1 = None" "getUpperFenceKey n1 = None" "is_leaf n1"
    by (rule open_insert [of sample_flags "newBTreeNode True" "[]" "[1, 2]" "[8, 9]"])
      (simp_all add: new_node_ok node_bytes_def fence_size_def slots_begin_def SLOT_SIZE_def EFFECTIVE_PAGE_SIZE_def)
  show ?thesis
    by (rule open_insert [of sample_flags n1 "[([1, 2], [8, 9])]" "[1]" "[7]"])
      (use n1 in \<open>simp_all add: that node_bytes_def fence_size_def slots_begin_def SLOT_SIZE_def EFFECTIVE_PAGE_SIZE_def lower_bound_def\<close>)
qed

theorem node_search_is_linear_witness:
  "\<exists>n. node_keys n = [[1], [1, 2]] \<and> lowerBound sample_flags False [1, 1] False n = Inr (1, False)
     \<and> lowerBound sample_flags True [1, 2] False n = Inr (1, True)"
proof -
  obtain n where n: "node_ok sample_flags n" "entries n = [([1], [7]), ([1, 2], [8, 9])]" "is_leaf n" by (rule sample_leaf)
  then have "node_keys n = [[1], [1, 2]]" by (simp add: keys_entries)
  then show ?thesis using node_search_is_linear [OF n(1) sample_flags_usable, of "[1, 1]" False]
      node_search_is_linear [OF n(1) sample_flags_usable, of "[1, 2]" False] n(3) by auto
qed

text \<open>
  C11. Inserting an absent key into a node that has room for it, with or without compaction, refines the
  update of a map: the entry is there with its payload, every other entry is unchanged, the returned slot
  is the number of smaller keys, and the node stays well-formed with the same fences.\<close>

theorem node_insert_refines_map:
  assumes "node_ok F n" "hints_usable F" "canInsert (length key) (length payload) n" "key \<notin> set (node_keys n)"
    "in_fences (getLowerFenceKey n) (getUpperFenceKey n) key" "SLOT_SIZE + length key + length payload < 65536"
  shows "\<exists>n'. node_insert F key payload n = Inr (length (filter (\<lambda>k. k < key) (node_keys n)), n') \<and> node_ok F n'
    \<and> map_of (entries n') = (map_of (entries n))(key \<mapsto> payload)
    \<and> getLowerFenceKey n' = getLowerFenceKey n \<and> getUpperFenceKey n' = getUpperFenceKey n"
proof -
  have a: "admits key payload n" "map_of (entries n) key = None" using assms(3-6) by (simp_all add: admits_def absent_key)
  have "length (filter (\<lambda>k. k < key) (node_keys n)) = lower_bound key (node_keys n)"
    using assms(1) filter_below [OF sorted_keys [of n]] by (simp add: node_ok_def lower_bound_def)
  then show ?thesis using node_insert_map [OF assms(1,2) a] by metis
qed

theorem node_insert_refines_map_witness:
  "\<exists>n'. node_insert sample_flags [1] [7] (newBTreeNode True) = Inr (0, n') \<and> map_of (entries n') = [[1] \<mapsto> [7]]"
proof -
  have "canInsert (length [1 :: u8]) (length [7 :: u8]) (newBTreeNode True)"
    by (rule canInsert_bytes [of sample_flags]) (simp_all add: new_node_ok new_node_ok(1) [unfolded node_ok_def] node_bytes_def fence_size_def
        slots_begin_def SLOT_SIZE_def EFFECTIVE_PAGE_SIZE_def, simp add: newBTreeNode_def)
  moreover have "node_keys (newBTreeNode True) = []" by (simp add: keys_entries new_node_ok)
  ultimately show ?thesis
    using node_insert_refines_map [OF new_node_ok(1) sample_flags_usable, of "[1]" "[7]" True]
    by (auto simp: in_fences_def new_node_ok SLOT_SIZE_def)
qed

text \<open>
  C36. Inserting an absent key and then removing it gives back exactly the entries the node had before, in
  the same order, although the bytes of the page may have moved.\<close>

theorem insert_then_remove:
  assumes "node_ok F n" "hints_usable F" "canInsert (length key) (length payload) n" "key \<notin> set (node_keys n)"
    "in_fences (getLowerFenceKey n) (getUpperFenceKey n) key" "SLOT_SIZE + length key + length payload < 65536"
  shows "\<exists>i n' n''. node_insert F key payload n = Inr (i, n') \<and> node_remove F key n' = Inr (True, n'')
    \<and> node_ok F n'' \<and> entries n'' = entries n"
  using node_store.ins_del [of F n key payload] assms by (auto simp: admits_def absent_key)

theorem insert_then_remove_witness:
  "\<exists>n i n' n''. entries n = [([1], [7]), ([1, 2], [8, 9])] \<and> node_insert sample_flags [1, 1] [3] n = Inr (i, n')
     \<and> node_remove sample_flags [1, 1] n' = Inr (True, n'') \<and> entries n'' = [([1], [7]), ([1, 2], [8, 9])]"
proof -
  obtain n where n: "node_ok sample_flags n" "entries n = [([1], [7]), ([1, 2], [8, 9])]" "getLowerFenceKey n = None" "getUpperFenceKey n = None"
    by (rule sample_leaf)
  then have lay: "layout_ok sample_flags n" "prefix_length n = 0" using layout_okD(4) [of sample_flags n] by (simp_all add: node_ok_def)
  have "canInsert (length [1 :: u8, 1]) (length [3 :: u8]) n"
    by (rule canInsert_bytes [OF lay(1)]) (use n lay in \<open>simp_all add: node_bytes_def fence_size_def slots_begin_def SLOT_SIZE_def EFFECTIVE_PAGE_SIZE_def\<close>)
  then have "\<exists>i n' n''. node_insert sample_flags [1, 1] [3] n = Inr (i, n') \<and> node_remove sample_flags [1, 1] n' = Inr (True, n'')
    \<and> node_ok sample_flags n'' \<and> entries n'' = entries n"
    using insert_then_remove [OF n(1) sample_flags_usable, of "[1, 1]" "[3]"] n by (simp add: keys_entries in_fences_def SLOT_SIZE_def)
  then show ?thesis using n(2) by auto
qed



text \<open>
  C38. A node with at least two keys has a separator: \<open>findSep\<close> and \<open>getSep\<close> give a key that is not below the
  key of the chosen slot and is below the next one, a leaf always keeps a key on either side, and an inner
  node takes the key of the slot itself. Truncating the separator of a leaf never breaks this.\<close>

theorem separator_separates:
  assumes "node_ok F n" "1 < node_count n"
  shows "\<exists>info. findSep n = Inr info \<and> separates (getSep info n) (sep_slot info) n
    \<and> (is_leaf n \<or> getSep info n = copyFullKey n (sep_slot info)) \<and> (\<not> is_leaf n \<or> sep_slot info + 1 < node_count n)"
  using findSep_spec [OF assms] by blast

theorem separator_separates_witness:
  "\<exists>n info. node_keys n = [[1], [1, 2]] \<and> findSep n = Inr info \<and> sep_slot info = 0 \<and> [1] \<le> getSep info n \<and> getSep info n < [1, 2]"
proof -
  obtain n where n: "node_ok sample_flags n" "entries n = [([1], [7]), ([1, 2], [8, 9])]" "is_leaf n" by (rule sample_leaf)
  then have c: "node_count n = 2" "node_keys n = [[1], [1, 2]]" using length_entries [of n] by (simp_all add: keys_entries)
  then have k: "copyFullKey n 0 = [1]" "copyFullKey n 1 = [1, 2]" by (simp_all add: node_keys_def numeral_2_eq_2)
  obtain info where i: "findSep n = Inr info" "separates (getSep info n) (sep_slot info) n" "sep_slot info + 1 < node_count n"
    using separator_separates [OF n(1)] c n(3) by auto
  then have "sep_slot info = 0" using c by simp
  then show ?thesis using i c k by (auto simp: separates_def)
qed

text \<open>
  C12. Splitting a node at a separator, when both halves fit a page and the parent has room: the two halves
  are well-formed nodes whose fences meet at the separator, together they hold the entries of the node in
  order (an inner node hands the entry of the separator over as the last child of the left half), the
  parent gains one entry, the separator with the left half's swip, and leaves keep their garbage flag.\<close>

theorem split_partitions:
  assumes "node_ok F n" "hints_usable F" "separates sep s n" "is_leaf n \<or> sep = copyFullKey n s"
    "node_bytes F (getLowerFenceKey n) (Some sep) (left_entries s n) \<le> EFFECTIVE_PAGE_SIZE"
    "node_bytes F (Some sep) (getUpperFenceKey n) (right_entries s n) \<le> EFFECTIVE_PAGE_SIZE"
    "node_ok F parent" "canInsert (length sep) SWIP_SIZE parent" "sep \<notin> set (node_keys parent)"
    "in_fences (getLowerFenceKey parent) (getUpperFenceKey parent) sep"
  shows "\<exists>p l r. node_split F parent (newBTreeNode (is_leaf n)) swip s sep n = Inr (p, l, r) \<and> node_ok F p \<and> node_ok F l \<and> node_ok F r
    \<and> getLowerFenceKey l = getLowerFenceKey n \<and> getUpperFenceKey l = Some sep
    \<and> getLowerFenceKey r = Some sep \<and> getUpperFenceKey r = getUpperFenceKey n
    \<and> entries n = entries l @ (if is_leaf n then [] else [(sep, getPayload n s)]) @ entries r
    \<and> map_of (entries p) = (map_of (entries parent))(sep \<mapsto> swip_bytes swip)
    \<and> (if is_leaf n then has_garbage l = has_garbage n \<and> has_garbage r = has_garbage n
       else upper_swip l = getChild n s \<and> upper_swip r = upper_swip n)"
proof -
  obtain p l r where P: "node_split F parent (newBTreeNode (is_leaf n)) swip s sep n = Inr (p, l, r)" "node_ok F p" "node_ok F l" "node_ok F r"
    "entries l = left_entries s n" "entries r = right_entries s n"
    "getLowerFenceKey l = getLowerFenceKey n" "getUpperFenceKey l = Some sep" "getLowerFenceKey r = Some sep" "getUpperFenceKey r = getUpperFenceKey n"
    "entries p = take (lower_bound sep (node_keys parent)) (entries parent) @ (sep, swip_bytes swip)
       # drop (lower_bound sep (node_keys parent)) (entries parent)"
    "is_leaf l = is_leaf n" "is_leaf r = is_leaf n" "is_leaf n \<longrightarrow> has_garbage l = has_garbage n \<and> has_garbage r = has_garbage n"
    "\<not> is_leaf n \<longrightarrow> upper_swip l = getChild n s \<and> upper_swip r = upper_swip n"
    "is_leaf p = is_leaf parent" "upper_swip p = upper_swip parent"
    by (rule node_split_spec [OF assms(1-3) blank_new new_node_ok(5) assms(5-10)])
  have s: "s < node_count n" using assms(3) by (simp add: separates_def)
  have "entries n = entries l @ (if is_leaf n then [] else [(sep, getPayload n s)]) @ entries r"
  proof (cases "is_leaf n")
    case False
    then have "entries n ! s = (sep, getPayload n s)" using s assms(4) by (simp add: entries_def)
    then show ?thesis using id_take_nth_drop [of s "entries n"] s False by (simp add: P(5,6) left_entries_def right_entries_def)
  qed (simp add: P(5,6) left_entries_def right_entries_def)
  moreover have "map_of (entries p) = (map_of (entries parent))(sep \<mapsto> swip_bytes swip)"
    using map_of_insert [of "take (lower_bound sep (node_keys parent)) (entries parent)" "drop (lower_bound sep (node_keys parent)) (entries parent)"]
      distinct_entries [OF assms(7)] assms(9) by (simp add: P(11) keys_entries)
  ultimately show ?thesis using P by auto
qed

text \<open>The sample leaf, split between its two keys below an empty parent.\<close>

lemma sample_split:
  obtains n where "node_ok sample_flags n" "entries n = [([1], [7]), ([1, 2], [8, 9])]" "is_leaf n"
    "getLowerFenceKey n = None" "getUpperFenceKey n = None" "separates [1] 0 n"
    "node_bytes sample_flags (getLowerFenceKey n) (Some [1]) (left_entries 0 n) \<le> EFFECTIVE_PAGE_SIZE"
    "node_bytes sample_flags (Some [1]) (getUpperFenceKey n) (right_entries 0 n) \<le> EFFECTIVE_PAGE_SIZE"
    "canInsert (length [1 :: u8]) SWIP_SIZE (newBTreeNode False)"
proof -
  obtain n where n: "node_ok sample_flags n" "entries n = [([1], [7]), ([1, 2], [8, 9])]" "is_leaf n"
    "getLowerFenceKey n = None" "getUpperFenceKey n = None" by (rule sample_leaf)
  have c: "node_count n = 2" "node_keys n = [[1], [1, 2]]" using n(2) length_entries [of n] by (simp_all add: keys_entries)
  then have "copyFullKey n 0 = [1]" "copyFullKey n 1 = [1, 2]" by (simp_all add: node_keys_def numeral_2_eq_2)
  then have "separates [1] 0 n" using c by (simp add: separates_def)
  moreover have "canInsert (length [1 :: u8]) (length (replicate SWIP_SIZE (0 :: u8))) (newBTreeNode False)"
    by (rule canInsert_bytes [of sample_flags]) (simp_all add: new_node_ok new_node_ok(1) [unfolded node_ok_def] sizes, simp add: newBTreeNode_def)
  ultimately show ?thesis using n by (intro that [of n]) (simp_all add: left_entries_def right_entries_def sizes)
qed

theorem split_partitions_witness:
  "\<exists>n p l r. entries n = [([1], [7]), ([1, 2], [8, 9])]
     \<and> node_split sample_flags (newBTreeNode False) (newBTreeNode (is_leaf n)) 5 0 [1] n = Inr (p, l, r)
     \<and> entries l @ entries r = [([1], [7]), ([1, 2], [8, 9])] \<and> map_of (entries p) = [[1] \<mapsto> swip_bytes 5]"
proof -
  obtain n where n: "node_ok sample_flags n" "entries n = [([1], [7]), ([1, 2], [8, 9])]" "is_leaf n"
    "getLowerFenceKey n = None" "getUpperFenceKey n = None" "separates [1] 0 n"
    "node_bytes sample_flags (getLowerFenceKey n) (Some [1]) (left_entries 0 n) \<le> EFFECTIVE_PAGE_SIZE"
    "node_bytes sample_flags (Some [1]) (getUpperFenceKey n) (right_entries 0 n) \<le> EFFECTIVE_PAGE_SIZE"
    "canInsert (length [1 :: u8]) SWIP_SIZE (newBTreeNode False)" by (rule sample_split)
  have p: "[1] \<notin> set (node_keys (newBTreeNode False))" "in_fences (getLowerFenceKey (newBTreeNode False)) (getUpperFenceKey (newBTreeNode False)) [1]"
    by (simp_all add: keys_entries new_node_ok in_fences_def)
  obtain q l r where q: "node_split sample_flags (newBTreeNode False) (newBTreeNode (is_leaf n)) 5 0 [1] n = Inr (q, l, r)"
    "entries n = entries l @ entries r" "map_of (entries q) = (map_of (entries (newBTreeNode False)))([1] \<mapsto> swip_bytes 5)"
    using split_partitions [OF n(1) sample_flags_usable n(6) disjI1 [OF n(3)] n(7,8) new_node_ok(1) n(9) p, of 5] n(3) by auto
  have "entries l @ entries r = [([1], [7]), ([1, 2], [8, 9])]" using q(2) n(2) by (rule trans [OF sym])
  moreover have "map_of (entries q) = [[1] \<mapsto> swip_bytes 5]" using q(3) by (simp add: new_node_ok)
  ultimately show ?thesis using n(2) q(1) by blast
qed

text \<open>
  C13. After a split, the parent routes exactly the keys up to the separator, and above the separator before
  it, to the left half, and every other key to the child that had it before.\<close>

theorem split_routes:
  assumes "node_ok F n" "hints_usable F" "separates sep s n"
    "node_bytes F (getLowerFenceKey n) (Some sep) (left_entries s n) \<le> EFFECTIVE_PAGE_SIZE"
    "node_bytes F (Some sep) (getUpperFenceKey n) (right_entries s n) \<le> EFFECTIVE_PAGE_SIZE"
    "inner_ok F parent" "canInsert (length sep) SWIP_SIZE parent" "sep \<notin> set (node_keys parent)"
    "in_fences (getLowerFenceKey parent) (getUpperFenceKey parent) sep"
  shows "\<exists>p l r. node_split F parent (newBTreeNode (is_leaf n)) swip s sep n = Inr (p, l, r)
    \<and> (\<forall>k. lookupInner F k p =
         (if k \<le> sep \<and> list_all (\<lambda>k'. k' < sep \<longrightarrow> k' < k) (node_keys parent) then Inr swip else lookupInner F k parent))"
proof -
  have pok: "node_ok F parent" using assms(6) by (simp add: inner_ok_def)
  obtain p l r where P: "node_split F parent (newBTreeNode (is_leaf n)) swip s sep n = Inr (p, l, r)" "node_ok F p"
    "entries p = take (lower_bound sep (node_keys parent)) (entries parent) @ (sep, swip_bytes swip)
       # drop (lower_bound sep (node_keys parent)) (entries parent)" "is_leaf p = is_leaf parent" "upper_swip p = upper_swip parent"
    by (rule node_split_spec [OF assms(1-3) blank_new new_node_ok(5) assms(4,5) pok assms(7-9)])
  have "inner_ok F p" using assms(6) P by (auto simp: inner_ok_def dest: in_set_takeD in_set_dropD)
  then have "lookupInner F k p = Inr (route (entries p) (upper_swip p) k)" for k by (rule lookupInner_route [OF _ assms(2)])
  moreover have "lookupInner F k parent = Inr (route (entries parent) (upper_swip parent) k)" for k by (rule lookupInner_route [OF assms(6,2)])
  moreover have "sep \<notin> fst ` set (entries parent)" using assms(8) by (simp add: keys_entries)
  ultimately show ?thesis using P(1,5) route_insert [OF sorted_entries [OF pok], of sep swip]
    by (simp add: P(3) keys_entries list_all_iff) blast
qed

theorem split_routes_witness:
  "\<exists>n p l r. node_split sample_flags (newBTreeNode False) (newBTreeNode (is_leaf n)) 5 0 [1] n = Inr (p, l, r)
     \<and> lookupInner sample_flags [1] p = Inr 5 \<and> lookupInner sample_flags [1, 2] p = Inr 0"
proof -
  obtain n where n: "node_ok sample_flags n" "entries n = [([1], [7]), ([1, 2], [8, 9])]" "is_leaf n"
    "getLowerFenceKey n = None" "getUpperFenceKey n = None" "separates [1] 0 n"
    "node_bytes sample_flags (getLowerFenceKey n) (Some [1]) (left_entries 0 n) \<le> EFFECTIVE_PAGE_SIZE"
    "node_bytes sample_flags (Some [1]) (getUpperFenceKey n) (right_entries 0 n) \<le> EFFECTIVE_PAGE_SIZE"
    "canInsert (length [1 :: u8]) SWIP_SIZE (newBTreeNode False)" by (rule sample_split)
  have p: "inner_ok sample_flags (newBTreeNode False)" "[1] \<notin> set (node_keys (newBTreeNode False))"
    "in_fences (getLowerFenceKey (newBTreeNode False)) (getUpperFenceKey (newBTreeNode False)) [1]"
    by (simp_all add: inner_ok_def keys_entries new_node_ok in_fences_def)
  have "lookupInner sample_flags [1, 2] (newBTreeNode False) = Inr 0"
    unfolding lookupInner_route [OF p(1) sample_flags_usable] by (simp add: new_node_ok route_def, simp add: newBTreeNode_def)
  moreover have "node_keys (newBTreeNode False) = []" by (simp add: keys_entries new_node_ok)
  moreover obtain q l r where "node_split sample_flags (newBTreeNode False) (newBTreeNode (is_leaf n)) 5 0 [1] n = Inr (q, l, r)"
    "\<forall>k. lookupInner sample_flags k q = (if k \<le> [1] \<and> list_all (\<lambda>k'. k' < [1] \<longrightarrow> k' < k) (node_keys (newBTreeNode False))
       then Inr 5 else lookupInner sample_flags k (newBTreeNode False))"
    using split_routes [OF n(1) sample_flags_usable n(6,7,8) p(1) n(9) p(2,3), of 5] by blast
  ultimately have "node_split sample_flags (newBTreeNode False) (newBTreeNode (is_leaf n)) 5 0 [1] n = Inr (q, l, r)
    \<and> lookupInner sample_flags [1] q = Inr 5 \<and> lookupInner sample_flags [1, 2] q = Inr 0" by simp
  then show ?thesis by blast
qed



text \<open>
  C39. Compacting a node keeps its entries, fences and children, and afterwards all the space that the node
  does not need is in one piece: the free space is what the accounting promised. It also clears the
  garbage flag, whatever it was.\<close>

theorem compactify_reclaims:
  assumes "node_ok F n"
  shows "\<exists>n'. compactify F n = Inr n' \<and> node_ok F n' \<and> entries n' = entries n \<and> upper_swip n' = upper_swip n \<and> is_leaf n' = is_leaf n
    \<and> getLowerFenceKey n' = getLowerFenceKey n \<and> getUpperFenceKey n' = getUpperFenceKey n
    \<and> freeSpace n' = EFFECTIVE_PAGE_SIZE - node_bytes F (getLowerFenceKey n) (getUpperFenceKey n) (entries n) \<and> \<not> has_garbage n'"
proof -
  have ok: "layout_ok F n" "search_ok n" using assms by (simp_all add: node_ok_def)
  obtain n' where n': "compactify F n = Inr n'" "layout_ok F n'" "same_content n n'" "hint n' = hints_of n'"
    "freeSpace n' = freeSpaceAfterCompaction n" "has_garbage n' = False"
    by (rule compactify_spec [OF ok(1)])
  have v: "entries n' = entries n" "node_keys n' = node_keys n" using same_content_view [OF n'(3)] by simp_all
  have "search_ok n'" using ok(2) n'(3,4) unfolding search_ok_cells same_content_def by simp
  then have "node_ok F n'" using assms n'(2,3) v by (simp add: node_ok_def same_content_def)
  moreover have "freeSpaceAfterCompaction n = EFFECTIVE_PAGE_SIZE - (slots_end n + space_used n)"
    using layout_okD(1,2) [OF ok(1)] by (simp add: freeSpaceAfterCompaction_def tr16_nat EFFECTIVE_PAGE_SIZE_def nat_diff_distrib')
  ultimately show ?thesis using n' v node_bytes_layout [OF ok(1)] by (simp add: same_content_def)
qed

theorem compactify_reclaims_witness:
  "\<exists>n n'. entries n = [([1], [7]), ([1, 2], [8, 9])] \<and> compactify sample_flags n = Inr n'
     \<and> entries n' = [([1], [7]), ([1, 2], [8, 9])] \<and> freeSpace n' = 16233"
proof -
  obtain n where n: "node_ok sample_flags n" "entries n = [([1], [7]), ([1, 2], [8, 9])]" "is_leaf n"
    "getLowerFenceKey n = None" "getUpperFenceKey n = None" by (rule sample_leaf)
  then have "node_bytes sample_flags (getLowerFenceKey n) (getUpperFenceKey n) (entries n) = 119" by (simp add: sizes)
  then show ?thesis using compactify_reclaims [OF n(1)] n(2) by (auto simp: EFFECTIVE_PAGE_SIZE_def)
qed

end
