(* ===== verification/SlabAllocator.thy ===== *)
theory SlabAllocator
  imports Doubles
begin

text \<open>
  \<open>RecordCacheSlabAllocator.hpp\<close>: the allocator of record cache entries. A region of memory is carved into
  slabs of 2 MB; a slab belongs to one of 2046 size classes, whose free blocks form a singly linked list
  threaded through the blocks themselves; a slab without live blocks goes back to a pool that all
  classes share. Addresses are natural numbers, 0 is the null pointer, and \<open>next_of\<close> is the memory of the
  free nodes. Blocks of more than 16 KB come from \<open>new_delete_resource\<close>. Mutexes and atomics are
  sequential updates; the counters printed with a failed allocation are kept, the printing is not.
\<close>

section \<open>State\<close>

definition HUGE_PAGE_SIZE :: nat where "HUGE_PAGE_SIZE = 2 * 1024 * 1024"
definition BLOCK_STEP :: nat where "BLOCK_STEP = 8"
definition MIN_BLOCK_SIZE :: nat where "MIN_BLOCK_SIZE = 24"
definition MAX_BLOCK_SIZE :: nat where "MAX_BLOCK_SIZE = 16 * 1024"
definition NUM_CLASSES :: nat where "NUM_CLASSES = (MAX_BLOCK_SIZE - MIN_BLOCK_SIZE) div BLOCK_STEP + 1"
definition SIZE_MAX :: nat where "SIZE_MAX = 2 ^ 64 - 1"

record slab_size_class =
  free_list :: nat
  free_list_tail :: nat
  class_block_size :: nat
  slab_count :: nat
  drain_target_idx :: nat

record slab_metadata =
  live_count :: nat
  meta_block_size :: nat
  total_blocks :: nat
  is_drain_target :: bool

record slab_allocator =
  classes :: "nat \<Rightarrow> slab_size_class"
  base_ptr :: nat
  current_ptr :: nat
  end_ptr :: nat
  total_capacity :: nat
  bytes_in_use :: nat
  max_slab_count :: nat
  metadata :: "nat \<Rightarrow> slab_metadata"
  free_slab_pool :: "nat list"
  reclaimed_slab_total :: nat
  sunk_to_tail_total :: nat
  drain_target_switch_total :: nat
  rescue_attempted_total :: nat
  rescue_succeeded_total :: nat
  next_of :: "nat \<Rightarrow> nat"

text \<open>Atomic counters of type \<open>size_t\<close>.\<close>

definition fetch_add :: "nat \<Rightarrow> nat \<Rightarrow> nat" where
  "fetch_add x d = (x + d) mod 2 ^ 64"

definition fetch_sub :: "nat \<Rightarrow> nat \<Rightarrow> nat" where
  "fetch_sub x d = nat ((int x - int d) mod 2 ^ 64)"

definition newRecordCacheSlabAllocator :: "nat \<Rightarrow> nat \<Rightarrow> (nat \<Rightarrow> nat) \<Rightarrow> slab_allocator result" where
  "newRecordCacheSlabAllocator base total_size memory =
     (if base = 0 \<or> total_size < HUGE_PAGE_SIZE then Inl InvalidArgument
      else Inr \<lparr>classes = (\<lambda>i. \<lparr>free_list = 0, free_list_tail = 0, class_block_size = MIN_BLOCK_SIZE + i * BLOCK_STEP,
                  slab_count = 0, drain_target_idx = SIZE_MAX\<rparr>),
                base_ptr = base, current_ptr = base, end_ptr = base + total_size, total_capacity = total_size,
                bytes_in_use = 0, max_slab_count = total_size div HUGE_PAGE_SIZE,
                metadata = (\<lambda>_. \<lparr>live_count = 0, meta_block_size = 0, total_blocks = 0, is_drain_target = False\<rparr>),
                free_slab_pool = [], reclaimed_slab_total = 0, sunk_to_tail_total = 0, drain_target_switch_total = 0,
                rescue_attempted_total = 0, rescue_succeeded_total = 0, next_of = memory\<rparr>)"

section \<open>Observers\<close>

definition getUsageRatio :: "slab_allocator \<Rightarrow> double result" where
  "getUsageRatio s =
     (if total_capacity s = 0 then Inr 0 else ddiv (double_of_nat (bytes_in_use s)) (double_of_nat (total_capacity s)))"

definition align_up :: "u64 \<Rightarrow> u64" where
  "align_up bsize = (if bsize \<le> 24 then 24 else (bsize + 8 - 1) AND NOT (8 - 1))"

definition getAlignedBlockSize :: "u64 \<Rightarrow> u64" where
  "getAlignedBlockSize raw_bytes = align_up raw_bytes"

definition GetClassIndex :: "u64 \<Rightarrow> nat result" where
  "GetClassIndex bsize =
     (let aligned = align_up bsize
      in bindR (assertR (unat aligned \<le> MAX_BLOCK_SIZE)) (\<lambda>_. Inr (unat ((aligned - 24) div 8))))"

definition slab_index :: "slab_allocator \<Rightarrow> nat \<Rightarrow> nat" where
  "slab_index s p = (p - base_ptr s) div HUGE_PAGE_SIZE"

definition isSlabUnderUtilized :: "nat \<Rightarrow> slab_allocator \<Rightarrow> bool" where
  "isSlabUnderUtilized p s =
     (if p < base_ptr s \<or> end_ptr s \<le> p then False
      else if max_slab_count s \<le> slab_index s p then False
      else is_drain_target (metadata s (slab_index s p)))"

definition hasFreeSlab :: "slab_allocator \<Rightarrow> bool" where
  "hasFreeSlab s \<longleftrightarrow> free_slab_pool s \<noteq> []"

record slab_rescue_candidate =
  cand_slab_idx :: nat
  cand_slab_base :: nat
  cand_slab_bytes :: nat
  cand_block_size :: nat
  cand_live_count :: nat

text \<open>\<open>std::sort\<close> leaves the order of equal counts open; the model keeps them in the order of the slabs.\<close>

definition findRescueCandidates :: "nat \<Rightarrow> slab_allocator \<Rightarrow> slab_rescue_candidate list" where
  "findRescueCandidates max_results s =
     take max_results (sort_key cand_live_count
       (map (\<lambda>i. \<lparr>cand_slab_idx = i, cand_slab_base = base_ptr s + i * HUGE_PAGE_SIZE, cand_slab_bytes = HUGE_PAGE_SIZE,
                   cand_block_size = meta_block_size (metadata s i), cand_live_count = live_count (metadata s i)\<rparr>)
         (filter (\<lambda>i. meta_block_size (metadata s i) \<noteq> 0 \<and> live_count (metadata s i) \<noteq> 0) [0..<max_slab_count s])))"

section \<open>Carving and reclaiming slabs\<close>

text \<open>The free list through the blocks of a new slab.\<close>

definition chain_blocks :: "nat \<Rightarrow> nat \<Rightarrow> nat \<Rightarrow> (nat \<Rightarrow> nat) \<Rightarrow> nat \<Rightarrow> nat" where
  "chain_blocks slab bsize num memory =
     (fold (\<lambda>i m. m(slab + i * bsize := slab + (i + 1) * bsize)) [0..<num - 1] memory)(slab + (num - 1) * bsize := 0)"

text \<open>A slab from the pool, or else from the rest of the region.\<close>

definition take_slab :: "slab_allocator \<Rightarrow> (nat \<times> slab_allocator) option" where
  "take_slab s =
     (if free_slab_pool s \<noteq> [] then Some (last (free_slab_pool s), s\<lparr>free_slab_pool := butlast (free_slab_pool s)\<rparr>)
      else if end_ptr s < current_ptr s + HUGE_PAGE_SIZE then None
      else Some (slab_index s (current_ptr s), s\<lparr>current_ptr := current_ptr s + HUGE_PAGE_SIZE\<rparr>))"

definition allocate_slab_for_class :: "nat \<Rightarrow> slab_allocator \<Rightarrow> (bool \<times> slab_allocator) result" where
  "allocate_slab_for_class c s =
     (case take_slab s of
        None \<Rightarrow> Inr (False, s)
      | Some (slab_idx, s) \<Rightarrow>
          if max_slab_count s \<le> slab_idx then Inl OutOfRange
          else
            let slab = base_ptr s + slab_idx * HUGE_PAGE_SIZE;
                bsize = class_block_size (classes s c);
                num = HUGE_PAGE_SIZE div bsize
            in Inr (True, s\<lparr>
                 metadata := (metadata s)(slab_idx := (metadata s slab_idx)\<lparr>meta_block_size := bsize, total_blocks := num, live_count := 0\<rparr>),
                 next_of := chain_blocks slab bsize num (next_of s),
                 classes := (classes s)(c := (classes s c)\<lparr>slab_count := fetch_add (slab_count (classes s c)) 1,
                   free_list := slab, free_list_tail := slab + (num - 1) * bsize\<rparr>)\<rparr>))"

text \<open>
  The walk of \<open>tryReclaimSlab\<close> over a free list that unlinks the nodes of one slab; it does not return
  (\<open>None\<close>) on a list with a cycle.
\<close>

partial_function (option) reclaim_walk ::
    "nat \<Rightarrow> nat \<Rightarrow> (nat \<Rightarrow> nat) \<Rightarrow> nat \<Rightarrow> nat \<Rightarrow> nat \<Rightarrow> ((nat \<Rightarrow> nat) \<times> nat \<times> nat) option" where
  "reclaim_walk slab_begin slab_end memory new_head new_tail cur =
     (if cur = 0 then Some (memory, new_head, new_tail)
      else if slab_begin \<le> cur \<and> cur < slab_end
        then reclaim_walk slab_begin slab_end memory new_head new_tail (memory cur)
      else if new_head = 0 then reclaim_walk slab_begin slab_end memory cur cur (memory cur)
      else reclaim_walk slab_begin slab_end (memory(new_tail := cur)) new_head cur (memory cur))"

definition tryReclaimSlab :: "nat \<Rightarrow> nat \<Rightarrow> slab_allocator \<Rightarrow> slab_allocator result" where
  "tryReclaimSlab slab_idx c s =
     (let slab_begin = base_ptr s + slab_idx * HUGE_PAGE_SIZE
      in case reclaim_walk slab_begin (slab_begin + HUGE_PAGE_SIZE) (next_of s) 0 0 (free_list (classes s c)) of
           None \<Rightarrow> Inl Diverges
         | Some (memory, new_head, new_tail) \<Rightarrow>
             Inr (s\<lparr>
               next_of := (if new_tail = 0 then memory else memory(new_tail := 0)),
               metadata := (metadata s)(slab_idx := (metadata s slab_idx)\<lparr>meta_block_size := 0, total_blocks := 0, is_drain_target := False\<rparr>),
               classes := (classes s)(c := (classes s c)\<lparr>free_list := new_head, free_list_tail := new_tail,
                 drain_target_idx := (if drain_target_idx (classes s c) = slab_idx then SIZE_MAX else drain_target_idx (classes s c)),
                 slab_count := fetch_sub (slab_count (classes s c)) 1\<rparr>),
               free_slab_pool := free_slab_pool s @ [slab_idx],
               reclaimed_slab_total := fetch_add (reclaimed_slab_total s) 1\<rparr>))"

section \<open>Allocation\<close>

datatype allocation = Block nat | NewDelete

definition pop_block :: "nat \<Rightarrow> slab_allocator \<Rightarrow> (allocation \<times> slab_allocator) result" where
  "pop_block c s =
     (let node = free_list (classes s c);
          rest = next_of s node;
          slab_idx = slab_index s node
      in if node < base_ptr s \<or> max_slab_count s \<le> slab_idx then Inl OutOfRange
         else Inr (Block node, s\<lparr>
           classes := (classes s)(c := (classes s c)\<lparr>free_list := rest,
             free_list_tail := (if rest = 0 then 0 else free_list_tail (classes s c))\<rparr>),
           bytes_in_use := fetch_add (bytes_in_use s) (class_block_size (classes s c)),
           metadata := (metadata s)(slab_idx := (metadata s slab_idx)\<lparr>live_count := fetch_add (live_count (metadata s slab_idx)) 1\<rparr>)\<rparr>))"

text \<open>\<open>rescue\<close> is the callback of \<open>setSlabRescueCallback\<close>, which may free blocks and reports a free slab.\<close>

type_synonym rescue_callback = "slab_allocator \<Rightarrow> (bool \<times> slab_allocator) result"

definition call_rescue :: "rescue_callback option \<Rightarrow> slab_allocator \<Rightarrow> slab_allocator result" where
  "call_rescue rescue s =
     (case rescue of
        None \<Rightarrow> Inr s
      | Some callback \<Rightarrow>
          bindR (callback (s\<lparr>rescue_attempted_total := fetch_add (rescue_attempted_total s) 1\<rparr>)) (\<lambda>(rescued, s).
            Inr (if rescued then s\<lparr>rescue_succeeded_total := fetch_add (rescue_succeeded_total s) 1\<rparr> else s)))"

definition do_allocate :: "rescue_callback option \<Rightarrow> u64 \<Rightarrow> nat \<Rightarrow> slab_allocator \<Rightarrow> (allocation \<times> slab_allocator) result" where
  "do_allocate rescue bytes alignment s =
     bindR (assertR (alignment \<le> 8)) (\<lambda>_.
       if MAX_BLOCK_SIZE < unat bytes then Inr (NewDelete, s)
       else
         bindR (GetClassIndex bytes) (\<lambda>c.
         bindR
           (if free_list (classes s c) \<noteq> 0 then Inr s
            else
              bindR (allocate_slab_for_class c s) (\<lambda>(ok, s).
                if ok then Inr s
                else
                  bindR (call_rescue rescue s) (\<lambda>s.
                    if free_list (classes s c) \<noteq> 0 then Inr s
                    else bindR (allocate_slab_for_class c s) (\<lambda>(ok, s). if ok then Inr s else Inl BadAlloc))))
           (pop_block c)))"

section \<open>Deallocation\<close>

text \<open>The choice of the slab of a class that is being drained: the one with the fewest live blocks seen.\<close>

definition select_drain_target :: "nat \<Rightarrow> nat \<Rightarrow> nat \<Rightarrow> slab_allocator \<Rightarrow> (bool \<times> slab_allocator) result" where
  "select_drain_target c slab_idx live_after s =
     (let cur_target = drain_target_idx (classes s c)
      in if cur_target \<noteq> SIZE_MAX \<and> cur_target \<noteq> slab_idx \<and> max_slab_count s \<le> cur_target then Inl OutOfRange
         else
           let become_target = (cur_target = SIZE_MAX
                 \<or> cur_target \<noteq> slab_idx \<and> live_after < live_count (metadata s cur_target));
               m = (if become_target \<and> cur_target \<noteq> SIZE_MAX \<and> cur_target \<noteq> slab_idx
                    then (metadata s)(cur_target := (metadata s cur_target)\<lparr>is_drain_target := False\<rparr>) else metadata s);
               s' = (if become_target
                     then s\<lparr>metadata := m(slab_idx := (m slab_idx)\<lparr>is_drain_target := True\<rparr>),
                            classes := (classes s)(c := (classes s c)\<lparr>drain_target_idx := slab_idx\<rparr>),
                            drain_target_switch_total := fetch_add (drain_target_switch_total s) 1\<rparr>
                     else s)
           in Inr (drain_target_idx (classes s' c) = slab_idx, s'))"

definition push_tail :: "nat \<Rightarrow> nat \<Rightarrow> slab_allocator \<Rightarrow> slab_allocator" where
  "push_tail c node s =
     (let tail = free_list_tail (classes s c);
          memory = (next_of s)(node := 0)
      in if tail = 0
         then s\<lparr>next_of := memory, classes := (classes s)(c := (classes s c)\<lparr>free_list := node, free_list_tail := node\<rparr>),
                sunk_to_tail_total := fetch_add (sunk_to_tail_total s) 1\<rparr>
         else s\<lparr>next_of := memory(tail := node), classes := (classes s)(c := (classes s c)\<lparr>free_list_tail := node\<rparr>),
                sunk_to_tail_total := fetch_add (sunk_to_tail_total s) 1\<rparr>)"

definition push_head :: "nat \<Rightarrow> nat \<Rightarrow> slab_allocator \<Rightarrow> slab_allocator" where
  "push_head c node s =
     s\<lparr>next_of := (next_of s)(node := free_list (classes s c)),
       classes := (classes s)(c := (classes s c)\<lparr>free_list := node,
         free_list_tail := (if free_list_tail (classes s c) = 0 then node else free_list_tail (classes s c))\<rparr>)\<rparr>"

definition do_deallocate :: "nat \<Rightarrow> u64 \<Rightarrow> slab_allocator \<Rightarrow> slab_allocator result" where
  "do_deallocate p bytes s =
     (if p = 0 then Inr s
      else if MAX_BLOCK_SIZE < unat bytes then Inr s
      else
        bindR (GetClassIndex bytes) (\<lambda>c.
        let slab_idx = slab_index s p
        in if p < base_ptr s \<or> max_slab_count s \<le> slab_idx then Inl OutOfRange
           else
             let prev_live = live_count (metadata s slab_idx);
                 s = s\<lparr>bytes_in_use := fetch_sub (bytes_in_use s) (class_block_size (classes s c)),
                       metadata := (metadata s)(slab_idx := (metadata s slab_idx)\<lparr>live_count := fetch_sub prev_live 1\<rparr>)\<rparr>;
                 live_after = prev_live - 1
             in bindR
                  (if 0 < live_after then
                     bindR (getUsageRatio s) (\<lambda>global_util.
                       if 1 / 2 \<le> global_util then select_drain_target c slab_idx live_after s else Inr (False, s))
                   else Inr (False, s))
                  (\<lambda>(sink_to_tail, s).
                    let s = (if sink_to_tail then push_tail c p s else push_head c p s)
                    in if prev_live = 1 then tryReclaimSlab slab_idx c s else Inr s)))"

end
