(* ===== verification/SlabFreeLists.thy ===== *)
theory SlabFreeLists
  imports SlabAllocator
begin

text \<open>
  The pointer level of the slab allocator: which size class serves a request, and the linked lists of
  free blocks as lists of addresses. The four ways in which the code changes a list (a new slab, taking
  the head, freeing to the head or to the tail, unlinking a slab) are the list operations they stand for.
\<close>

section \<open>Size classes\<close>

definition blk :: "nat \<Rightarrow> nat" where
  "blk c = MIN_BLOCK_SIZE + c * BLOCK_STEP"

lemma blk_bounds: "c < NUM_CLASSES \<Longrightarrow> 24 \<le> blk c \<and> blk c \<le> 16384"
  by (simp add: blk_def NUM_CLASSES_def MIN_BLOCK_SIZE_def MAX_BLOCK_SIZE_def BLOCK_STEP_def)

lemma blk_pos [simp]: "0 < blk c"
  by (simp add: blk_def MIN_BLOCK_SIZE_def)

lemma blk_inj [simp]: "blk c = blk d \<longleftrightarrow> c = d"
  by (simp add: blk_def BLOCK_STEP_def)

lemma clear_low_bits: "unat ((w :: u64) AND NOT 7) = 8 * (unat w div 8)"
proof -
  have "w AND NOT (mask 3) = push_bit 3 (drop_bit 3 w)"
    by (rule bit_word_eqI) (auto simp: bit_and_iff bit_not_iff bit_mask_iff bit_push_bit_iff bit_drop_bit_eq)
  moreover have "(mask 3 :: u64) = 7" by (simp add: mask_eq_exp_minus_1)
  ultimately have eq: "w AND NOT 7 = 8 * drop_bit 3 w" by (simp add: push_bit_eq_mult mult.commute)
  have d: "unat (drop_bit 3 w) = unat w div 8" by (simp add: drop_bit_eq_div unat_div)
  have "unat (8 :: u64) * unat (drop_bit 3 w) < 2 ^ LENGTH(64)"
    unfolding d using unsigned_less [of w, where ?'a = nat] by simp
  then have "unat (8 * drop_bit 3 w) = unat (8 :: u64) * unat (drop_bit 3 w)" by (rule iffD1 [OF unat_mult_lem])
  then show ?thesis unfolding eq d by simp
qed

lemma align_up_value:
  assumes "unat w \<le> MAX_BLOCK_SIZE"
  shows "unat (align_up w) = max 24 (8 * ((unat w + 7) div 8))"
proof (cases "w \<le> 24")
  case True
  then have "unat w \<le> 24" by (simp add: word_le_nat_alt)
  then show ?thesis using True by (simp add: align_up_def)
next
  case False
  then have "24 < unat w" by (simp add: word_le_nat_alt)
  moreover have "unat (w + 7) = unat w + 7"
    using assms unat_add_lem [of w 7] by (simp add: MAX_BLOCK_SIZE_def)
  moreover have "align_up w = (w + 7) AND NOT 7" using False by (simp add: align_up_def add.commute)
  ultimately show ?thesis by (simp only: clear_low_bits)
qed

text \<open>The class of a request is the smallest one whose blocks are large enough.\<close>

lemma GetClassIndex_value:
  assumes "unat w \<le> MAX_BLOCK_SIZE"
  obtains c where "GetClassIndex w = Inr c" "c < NUM_CLASSES" "unat w \<le> blk c" "\<And>d. unat w \<le> blk d \<Longrightarrow> c \<le> d"
proof -
  define k where "k = (unat w + 7) div 8"
  have k: "unat w \<le> 8 * k" "8 * k \<le> unat w + 7"
    using div_mult_mod_eq [of "unat w + 7" 8] mod_less_divisor [of 8 "unat w + 7"] unfolding k_def by linarith+
  have a: "unat (align_up w) = max 24 (8 * k)" using align_up_value [OF assms] by (simp add: k_def)
  have le: "8 * k \<le> MAX_BLOCK_SIZE" using assms k(2) by (simp add: MAX_BLOCK_SIZE_def)
  have "(24 :: u64) \<le> align_up w" unfolding word_le_nat_alt a by simp
  then have "unat (align_up w - 24) = max 24 (8 * k) - 24" using a by (simp add: unat_sub)
  then have "unat ((align_up w - 24) div 8) = (max 24 (8 * k) - 24) div 8" by (simp add: unat_div)
  also have "\<dots> = k - 3" by (cases "k \<le> 3") (auto simp: max_def)
  finally have "GetClassIndex w = Inr (k - 3)" using le a by (simp add: GetClassIndex_def Let_def MAX_BLOCK_SIZE_def)
  moreover have "k - 3 < NUM_CLASSES" using le by (simp add: NUM_CLASSES_def MAX_BLOCK_SIZE_def MIN_BLOCK_SIZE_def BLOCK_STEP_def)
  moreover have "unat w \<le> blk (k - 3)" using k(1) unfolding blk_def MIN_BLOCK_SIZE_def BLOCK_STEP_def by linarith
  moreover have "k - 3 \<le> d" if "unat w \<le> blk d" for d
    using that k(2) unfolding blk_def MIN_BLOCK_SIZE_def BLOCK_STEP_def by linarith
  ultimately show ?thesis by (rule that)
qed

section \<open>Linked lists\<close>

fun chained :: "(nat \<Rightarrow> nat) \<Rightarrow> nat list \<Rightarrow> bool" where
  "chained m (x # y # ys) \<longleftrightarrow> m x = y \<and> chained m (y # ys)"
| "chained m _ \<longleftrightarrow> True"

definition first :: "nat list \<Rightarrow> nat" where
  "first xs = (case xs of [] \<Rightarrow> 0 | x # _ \<Rightarrow> x)"

definition final :: "nat list \<Rightarrow> nat" where
  "final xs = (if xs = [] then 0 else last xs)"

definition linked :: "(nat \<Rightarrow> nat) \<Rightarrow> nat \<Rightarrow> nat \<Rightarrow> nat list \<Rightarrow> bool" where
  "linked m p t xs \<longleftrightarrow> 0 \<notin> set xs \<and> chained m xs \<and> p = first xs \<and> t = final xs \<and> (xs \<noteq> [] \<longrightarrow> m (last xs) = 0)"

lemma first_simps [simp]: "first [] = 0" "first (x # xs) = x"
  by (simp_all add: first_def)

lemma final_simps [simp]: "final [] = 0" "final (xs @ [x]) = x"
  by (simp_all add: final_def)

lemma chained_frame: "(\<And>x. x \<in> set xs \<Longrightarrow> m' x = m x) \<Longrightarrow> chained m' xs = chained m xs"
  by (induction m xs rule: chained.induct) auto

lemma chained_snoc: "chained m (xs @ [x]) \<longleftrightarrow> chained m xs \<and> (xs \<noteq> [] \<longrightarrow> m (last xs) = x)"
  by (induction m xs rule: chained.induct) auto

lemma chained_Cons: "chained m (x # xs) \<longleftrightarrow> chained m xs \<and> (xs \<noteq> [] \<longrightarrow> m x = first xs)"
  by (cases xs) auto

lemma linked_frame: "(\<And>x. x \<in> set xs \<Longrightarrow> m' x = m x) \<Longrightarrow> linked m' p t xs = linked m p t xs"
  unfolding linked_def using chained_frame [of xs m' m] by auto

lemma linked_empty:
  assumes "linked m p t xs"
  shows "p = 0 \<longleftrightarrow> xs = []" "t = 0 \<longleftrightarrow> xs = []"
proof -
  have "0 \<notin> set xs" "p = first xs" "t = final xs" using assms by (simp_all add: linked_def)
  moreover have "xs \<noteq> [] \<Longrightarrow> hd xs \<in> set xs" "xs \<noteq> [] \<Longrightarrow> last xs \<in> set xs" by simp_all
  ultimately show "p = 0 \<longleftrightarrow> xs = []" "t = 0 \<longleftrightarrow> xs = []"
    by (cases xs, simp, metis first_simps(2) list.sel(1) list.discI, metis final_def)
qed

lemma linked_pop:
  assumes "linked m p t (x # xs)"
  shows "p = x" "linked m (m x) (if m x = 0 then 0 else t) xs"
  using assms by (auto simp: linked_def chained_Cons final_def first_def split: list.splits if_splits)

lemma linked_push:
  assumes "linked m p t xs" "x \<notin> set xs" "x \<noteq> 0"
  shows "linked (m(x := p)) x (if t = 0 then x else t) (x # xs)"
proof -
  have "linked (m(x := p)) p t xs" using assms(1,2) by (subst linked_frame) auto
  then show ?thesis using assms(3) linked_empty(2) [OF assms(1)]
    by (auto simp: linked_def chained_Cons final_def)
qed

text \<open>The link of the last node is free to change.\<close>

lemma chained_last: "distinct xs \<Longrightarrow> chained (m(last xs := v)) xs = chained m xs"
proof (cases xs rule: rev_cases)
  case (snoc ys y)
  moreover assume "distinct xs"
  ultimately have y: "y \<notin> set ys" by simp
  then have "chained (m(y := v)) ys = chained m ys" by (intro chained_frame) auto
  moreover have "ys \<noteq> [] \<Longrightarrow> last ys \<noteq> y" using y last_in_set by metis
  ultimately show ?thesis by (auto simp: snoc chained_snoc)
qed simp

lemma linked_sink:
  assumes "linked m p t xs" "distinct xs" "x \<notin> set xs" "x \<noteq> 0"
  shows "linked (if t = 0 then m(x := 0) else m(x := 0, t := x)) (if t = 0 then x else p) x (xs @ [x])"
proof (cases "xs = []")
  case True
  then show ?thesis using assms by (simp add: linked_def final_def)
next
  case False
  have t: "t = last xs" using assms(1) False by (simp add: linked_def final_def)
  have t0: "t \<noteq> 0" using linked_empty(2) [OF assms(1)] False by simp
  have ne: "t \<noteq> x" using t assms(3) False by auto
  have "chained (m(x := 0, t := x)) xs = chained (m(x := 0)) xs" unfolding t using chained_last [OF assms(2)] .
  also have "\<dots> = chained m xs" using assms(3) by (intro chained_frame) auto
  finally have "chained (m(x := 0, t := x)) (xs @ [x])" using assms(1) t by (simp add: linked_def chained_snoc)
  moreover have "p = first (xs @ [x])" using assms(1) False by (cases xs) (auto simp: linked_def)
  ultimately show ?thesis using assms t0 ne by (simp add: linked_def)
qed

lemma linked_filter_step:
  assumes "chained m ks" "distinct (ks @ [x])"
  shows "chained (if ks = [] then m else m(last ks := x)) (ks @ [x])"
  using assms chained_last [of ks m x] by (auto simp: chained_snoc)

text \<open>The walk that unlinks a slab, with \<open>ks\<close> kept so far and \<open>xs\<close> still to come.\<close>

lemma reclaim_walk_spec:
  assumes "distinct (ks @ xs)" "0 \<notin> set (ks @ xs)" "chained m ks" "chained m xs" "xs \<noteq> [] \<Longrightarrow> m (last xs) = 0"
  shows "\<exists>m'. reclaim_walk lo hi m (first ks) (final ks) (first xs)
      = Some (m', first (ks @ filter (\<lambda>x. \<not> (lo \<le> x \<and> x < hi)) xs), final (ks @ filter (\<lambda>x. \<not> (lo \<le> x \<and> x < hi)) xs))
    \<and> chained m' (ks @ filter (\<lambda>x. \<not> (lo \<le> x \<and> x < hi)) xs) \<and> (\<forall>y. y \<notin> set (ks @ xs) \<longrightarrow> m' y = m y)"
  using assms
proof (induction xs arbitrary: ks m)
  case Nil
  then show ?case by (simp add: reclaim_walk.simps)
next
  case (Cons x xs)
  have x: "x \<noteq> 0" using Cons.prems(2) by auto
  have tl: "chained m xs" "m x = first xs" "xs \<noteq> [] \<Longrightarrow> m (last xs) = 0"
    using Cons.prems(4,5) by (cases xs; simp)+
  show ?case
  proof (cases "lo \<le> x \<and> x < hi")
    case True
    then show ?thesis using Cons.IH [of ks m] Cons.prems tl x by (subst reclaim_walk.simps) auto
  next
    case False
    define m1 where "m1 = (if ks = [] then m else m(last ks := x))"
    have last: "ks \<noteq> [] \<Longrightarrow> last ks \<notin> set (x # xs)" 
    proof -
      assume "ks \<noteq> []"
      then have "last ks \<in> set ks" by simp
      then show ?thesis using Cons.prems(1) by auto
    qed
    have "chained m1 xs" using tl(1) last by (auto simp: m1_def intro: chained_frame [THEN iffD2, of xs _ m])
    moreover have "chained m1 (ks @ [x])" unfolding m1_def using Cons.prems(1,3) by (intro linked_filter_step) auto
    moreover have "m1 (last xs) = 0" if "xs \<noteq> []"
    proof -
      have "ks = [] \<or> last xs \<noteq> last ks" using last last_in_set [OF that] by (cases "ks = []") (auto simp del: last_in_set)
      then show ?thesis using tl(3) [OF that] by (auto simp: m1_def)
    qed
    ultimately obtain m' where m': "reclaim_walk lo hi m1 (first (ks @ [x])) (final (ks @ [x])) (first xs)
      = Some (m', first ((ks @ [x]) @ filter (\<lambda>x. \<not> (lo \<le> x \<and> x < hi)) xs), final ((ks @ [x]) @ filter (\<lambda>x. \<not> (lo \<le> x \<and> x < hi)) xs))"
      "chained m' ((ks @ [x]) @ filter (\<lambda>x. \<not> (lo \<le> x \<and> x < hi)) xs)" "\<forall>y. y \<notin> set ((ks @ [x]) @ xs) \<longrightarrow> m' y = m1 y"
      using Cons.IH [of "ks @ [x]" m1] Cons.prems(1,2) by auto
    have "reclaim_walk lo hi m (first ks) (final ks) x = reclaim_walk lo hi m1 (first (ks @ [x])) (final (ks @ [x])) (first xs)"
      using False x Cons.prems(2) tl(2) by (subst reclaim_walk.simps) (cases ks; auto simp: m1_def final_def)
    moreover have "\<forall>y. y \<notin> set (ks @ x # xs) \<longrightarrow> m' y = m y" using m'(3) last_in_set [of ks] by (auto simp: m1_def)
    ultimately show ?thesis using m' False by auto
  qed
qed

text \<open>A slab cut into blocks.\<close>

definition slab_blocks :: "nat \<Rightarrow> nat \<Rightarrow> nat list" where
  "slab_blocks slab bsize = map (\<lambda>j. slab + j * bsize) [0..<HUGE_PAGE_SIZE div bsize]"

lemma chain_fold:
  assumes "0 < bsize"
  shows "fold (\<lambda>i m. m(slab + i * bsize := slab + (i + 1) * bsize)) [0..<n] m a
    = (if \<exists>i < n. a = slab + i * bsize then a + bsize else m a)"
proof (induction n)
  case (Suc n)
  then show ?case using assms by (auto simp: less_Suc_eq)
qed simp

lemma chained_upt: "(\<And>i. i + 1 < n \<Longrightarrow> m (f i) = f (i + 1)) \<Longrightarrow> chained m (map f [0..<n])"
proof (induction n)
  case (Suc n)
  have "chained m (map f [0..<n])" using Suc by simp
  moreover have "m (last (map f [0..<n])) = f n" if "0 < n"
    using that Suc.prems [of "n - 1"] by (simp add: last_map)
  ultimately show ?case by (simp only: upt_Suc_append le0 map_append list.map chained_snoc) simp
qed simp

lemma chain_blocks_spec:
  assumes "0 < slab" "0 < bsize" "bsize \<le> HUGE_PAGE_SIZE"
  shows "linked (chain_blocks slab bsize (HUGE_PAGE_SIZE div bsize) m) slab (slab + (HUGE_PAGE_SIZE div bsize - 1) * bsize) (slab_blocks slab bsize)"
    "distinct (slab_blocks slab bsize)"
    "a \<notin> set (slab_blocks slab bsize) \<Longrightarrow> chain_blocks slab bsize (HUGE_PAGE_SIZE div bsize) m a = m a"
proof -
  let ?n = "HUGE_PAGE_SIZE div bsize" and ?m = "chain_blocks slab bsize (HUGE_PAGE_SIZE div bsize) m"
  have n: "0 < ?n" using assms by (simp add: div_greater_zero_iff)
  have val: "?m a = (if a = slab + (?n - 1) * bsize then 0 else if \<exists>i < ?n - 1. a = slab + i * bsize then a + bsize else m a)" for a
    unfolding chain_blocks_def using chain_fold [OF assms(2), of slab "?n - 1" m a] by simp
  have step: "?m (slab + i * bsize) = slab + (i + 1) * bsize" if "i + 1 < ?n" for i
    using that assms(2) val [of "slab + i * bsize"] by auto
  then have "chained ?m (slab_blocks slab bsize)" unfolding slab_blocks_def by (intro chained_upt) simp
  moreover have ne: "slab_blocks slab bsize \<noteq> []" using n by (simp add: slab_blocks_def)
  moreover have "last (slab_blocks slab bsize) = slab + (?n - 1) * bsize" using n by (simp add: slab_blocks_def last_map)
  moreover have "hd (slab_blocks slab bsize) = slab" using n by (simp add: slab_blocks_def hd_map)
  then have "first (slab_blocks slab bsize) = slab" using ne by (metis first_simps(2) list.collapse)
  ultimately show "linked ?m slab (slab + (?n - 1) * bsize) (slab_blocks slab bsize)"
    using val [of "slab + (?n - 1) * bsize"] assms(1) by (auto simp: linked_def final_def) (auto simp: slab_blocks_def)
  show "distinct (slab_blocks slab bsize)" using assms(2) by (simp add: slab_blocks_def distinct_map inj_on_def)
  show "?m a = m a" if "a \<notin> set (slab_blocks slab bsize)"
    using that n val [of a] by (auto simp: slab_blocks_def)
qed

end
