(* ===== verification/SlabInvariant.thy ===== *)
theory SlabInvariant
  imports SlabFreeLists
begin

text \<open>
  The invariant of the slab allocator, against the set of live blocks that its clients hold: every block
  of every slab that a class owns is either live or on the free list of the class, exactly once; slabs
  are owned, pooled or not yet carved; and the counters say how many blocks of a slab are live.
\<close>

section \<open>The invariant\<close>

definition slab_at :: "slab_allocator \<Rightarrow> nat \<Rightarrow> nat" where
  "slab_at s i = base_ptr s + i * HUGE_PAGE_SIZE"

definition owned_size :: "slab_allocator \<Rightarrow> nat \<Rightarrow> nat" where
  "owned_size s i = meta_block_size (metadata s i)"

text \<open>The blocks of a class: those of all its slabs.\<close>

definition class_blocks :: "slab_allocator \<Rightarrow> nat \<Rightarrow> nat set" where
  "class_blocks s c = {p. \<exists>i < max_slab_count s. owned_size s i = blk c \<and> p \<in> set (slab_blocks (slab_at s i) (blk c))}"

definition live_in :: "slab_allocator \<Rightarrow> nat set \<Rightarrow> nat \<Rightarrow> nat set" where
  "live_in s L i = {p \<in> L. slab_index s p = i}"

definition carved :: "slab_allocator \<Rightarrow> nat" where
  "carved s = (current_ptr s - base_ptr s) div HUGE_PAGE_SIZE"

definition region_inv :: "slab_allocator \<Rightarrow> bool" where
  "region_inv s \<longleftrightarrow> 0 < base_ptr s \<and> end_ptr s = base_ptr s + total_capacity s \<and> max_slab_count s = total_capacity s div HUGE_PAGE_SIZE
     \<and> current_ptr s = slab_at s (carved s) \<and> carved s \<le> max_slab_count s \<and> max_slab_count s < SIZE_MAX"

definition owner_inv :: "slab_allocator \<Rightarrow> bool" where
  "owner_inv s \<longleftrightarrow> distinct (free_slab_pool s) \<and> (\<forall>i. i \<in> set (free_slab_pool s) \<longleftrightarrow> i < carved s \<and> owned_size s i = 0)
     \<and> (\<forall>i < max_slab_count s. owned_size s i \<noteq> 0 \<longrightarrow> i < carved s \<and> (\<exists>c < NUM_CLASSES. owned_size s i = blk c))"

definition target_inv :: "slab_allocator \<Rightarrow> bool" where
  "target_inv s \<longleftrightarrow>
     (\<forall>c < NUM_CLASSES. drain_target_idx (classes s c) \<noteq> SIZE_MAX \<longrightarrow>
        drain_target_idx (classes s c) < max_slab_count s \<and> owned_size s (drain_target_idx (classes s c)) = blk c
        \<and> is_drain_target (metadata s (drain_target_idx (classes s c))))
     \<and> (\<forall>i < max_slab_count s. is_drain_target (metadata s i) \<longrightarrow> (\<exists>c < NUM_CLASSES. drain_target_idx (classes s c) = i))"

definition count_inv :: "slab_allocator \<Rightarrow> nat set \<Rightarrow> bool" where
  "count_inv s L \<longleftrightarrow> (\<forall>i < max_slab_count s. live_count (metadata s i) = card (live_in s L i))
     \<and> bytes_in_use s = (\<Sum>p\<in>L. owned_size s (slab_index s p)) mod 2 ^ 64"

definition lists_inv :: "slab_allocator \<Rightarrow> (nat \<Rightarrow> nat list) \<Rightarrow> nat set \<Rightarrow> bool" where
  "lists_inv s fl L \<longleftrightarrow>
     (\<forall>c < NUM_CLASSES. class_block_size (classes s c) = blk c
        \<and> linked (next_of s) (free_list (classes s c)) (free_list_tail (classes s c)) (fl c)
        \<and> distinct (fl c) \<and> set (fl c) = class_blocks s c - L)"

definition live_inv :: "slab_allocator \<Rightarrow> nat set \<Rightarrow> bool" where
  "live_inv s L \<longleftrightarrow> L \<subseteq> (\<Union>c < NUM_CLASSES. class_blocks s c)"

definition slab_inv :: "slab_allocator \<Rightarrow> (nat \<Rightarrow> nat list) \<Rightarrow> nat set \<Rightarrow> bool" where
  "slab_inv s fl L \<longleftrightarrow> region_inv s \<and> owner_inv s \<and> target_inv s \<and> count_inv s L \<and> lists_inv s fl L \<and> live_inv s L"

lemmas inv_defs = region_inv_def owner_inv_def target_inv_def count_inv_def lists_inv_def live_inv_def

section \<open>Blocks and slabs\<close>

lemma HUGE_pos [simp]: "0 < HUGE_PAGE_SIZE"
  by (simp add: HUGE_PAGE_SIZE_def)

lemma blk_nonzero [simp]: "blk c \<noteq> 0"
  using blk_pos [of c] by linarith

lemma slab_blocks_iff: "p \<in> set (slab_blocks slab b) \<longleftrightarrow> (\<exists>j < HUGE_PAGE_SIZE div b. p = slab + j * b)"
  by (auto simp: slab_blocks_def)

lemma slab_at_mono: "i \<le> j \<Longrightarrow> slab_at s i \<le> slab_at s j"
  by (simp add: slab_at_def)

lemma block_place:
  assumes "p \<in> set (slab_blocks (slab_at s i) b)" "0 < b"
  shows "slab_index s p = i" "slab_at s i \<le> p" "p + b \<le> slab_at s (Suc i)"
proof -
  obtain j where j: "p = slab_at s i + j * b" "j < HUGE_PAGE_SIZE div b" using assms(1) unfolding slab_blocks_iff by blast
  have "(j + 1) * b \<le> HUGE_PAGE_SIZE div b * b" using j(2) by (intro mult_right_mono) simp_all
  also have "\<dots> \<le> HUGE_PAGE_SIZE" by (rule div_times_less_eq_dividend)
  finally have le: "j * b + b \<le> HUGE_PAGE_SIZE" by simp
  then show "p + b \<le> slab_at s (Suc i)" using j by (simp add: slab_at_def)
  show "slab_at s i \<le> p" using j by simp
  have "j * b < HUGE_PAGE_SIZE" using le assms(2) by linarith
  then show "slab_index s p = i" using j(1) by (simp add: slab_index_def slab_at_def)
qed

lemma class_blocks_iff:
  "p \<in> class_blocks s c \<longleftrightarrow> slab_index s p < max_slab_count s \<and> owned_size s (slab_index s p) = blk c
     \<and> p \<in> set (slab_blocks (slab_at s (slab_index s p)) (blk c))"
  using block_place(1) [OF _ blk_pos] by (auto simp: class_blocks_def)

lemma class_blocks_disjoint: "p \<in> class_blocks s c \<Longrightarrow> p \<in> class_blocks s d \<Longrightarrow> c = d"
  by (simp add: class_blocks_iff)

lemma class_blocks_cong:
  "base_ptr s' = base_ptr s \<Longrightarrow> max_slab_count s' = max_slab_count s \<Longrightarrow> (\<And>i. i < max_slab_count s \<Longrightarrow> owned_size s' i = owned_size s i)
    \<Longrightarrow> class_blocks s' c = class_blocks s c"
  by (auto simp: class_blocks_def slab_at_def)

lemma slab_index_cong: "base_ptr s' = base_ptr s \<Longrightarrow> slab_index s' = slab_index s"
  by (simp add: slab_index_def fun_eq_iff)

lemma finite_class_blocks [simp]: "finite (class_blocks s c)"
proof -
  have "class_blocks s c \<subseteq> (\<Union>i < max_slab_count s. set (slab_blocks (slab_at s i) (blk c)))" by (auto simp: class_blocks_def)
  then show ?thesis by (rule finite_subset) simp
qed

lemma finite_live: "live_inv s L \<Longrightarrow> finite L"
  unfolding live_inv_def by (erule finite_subset) simp

text \<open>Two different live blocks do not overlap.\<close>

lemma class_blocks_apart:
  assumes "p \<in> class_blocks s c" "q \<in> class_blocks s d" "p < q"
  shows "p + blk c \<le> q"
proof -
  let ?i = "slab_index s p" and ?j = "slab_index s q"
  have p: "p \<in> set (slab_blocks (slab_at s ?i) (blk c))" "owned_size s ?i = blk c"
    and q: "q \<in> set (slab_blocks (slab_at s ?j) (blk d))" "owned_size s ?j = blk d"
    using assms(1,2) by (simp_all add: class_blocks_iff)
  show ?thesis
  proof (cases "?i = ?j")
    case True
    then have "c = d" using p(2) q(2) by simp
    obtain j where j: "p = slab_at s ?i + j * blk c" using p(1) unfolding slab_blocks_iff by blast
    obtain k where "q = slab_at s ?j + k * blk d" using q(1) unfolding slab_blocks_iff by blast
    then have jk: "p = slab_at s ?i + j * blk c" "q = slab_at s ?i + k * blk c" using j True \<open>c = d\<close> by simp_all
    then have "j * blk c < k * blk c" using assms(3) by linarith
    then have "j < k" by simp
    then have "(j + 1) * blk c \<le> k * blk c" by (intro mult_right_mono) simp_all
    then show ?thesis using jk by (simp only: add_mult_distrib)
  next
    case False
    have "?i \<le> ?j" using assms(3) by (simp add: slab_index_def div_le_mono)
    then have "slab_at s (Suc ?i) \<le> slab_at s ?j" using False by (intro slab_at_mono) simp
    then show ?thesis using block_place(3) [OF p(1) blk_pos] block_place(2) [OF q(1) blk_pos] by simp
  qed
qed

lemma live_count_bound:
  assumes "live_inv s L" "i < max_slab_count s"
  shows "card (live_in s L i) \<le> HUGE_PAGE_SIZE"
proof -
  have "live_in s L i \<subseteq> {slab_at s i..<slab_at s (Suc i)}"
  proof
    fix p assume "p \<in> live_in s L i"
    then obtain c where "p \<in> class_blocks s c" "slab_index s p = i" using assms(1) by (auto simp: live_in_def live_inv_def)
    then have "p \<in> set (slab_blocks (slab_at s i) (blk c))" by (simp add: class_blocks_iff)
    then show "p \<in> {slab_at s i..<slab_at s (Suc i)}" using block_place(2,3) [of p s i "blk c"] by (simp add: order_less_le_trans [of p "p + blk c"])
  qed
  then have "card (live_in s L i) \<le> card {slab_at s i..<slab_at s (Suc i)}" by (rule card_mono [rotated]) simp
  then show ?thesis by (simp add: slab_at_def)
qed

section \<open>Steps that keep the slabs where they are\<close>

definition same_slabs :: "slab_allocator \<Rightarrow> slab_allocator \<Rightarrow> bool" where
  "same_slabs s s' \<longleftrightarrow> base_ptr s' = base_ptr s \<and> end_ptr s' = end_ptr s \<and> total_capacity s' = total_capacity s
     \<and> max_slab_count s' = max_slab_count s \<and> current_ptr s' = current_ptr s \<and> free_slab_pool s' = free_slab_pool s
     \<and> (\<forall>i. owned_size s' i = owned_size s i)"

lemma same_slabs_views:
  assumes "same_slabs s s'"
  shows "region_inv s' = region_inv s" "owner_inv s' = owner_inv s" "class_blocks s' c = class_blocks s c" "live_inv s' L = live_inv s L"
    "slab_index s' = slab_index s" "live_in s' = live_in s" "owned_size s' = owned_size s" "max_slab_count s' = max_slab_count s"
    "base_ptr s' = base_ptr s"
proof -
  have e: "base_ptr s' = base_ptr s" "end_ptr s' = end_ptr s" "total_capacity s' = total_capacity s" "max_slab_count s' = max_slab_count s"
    "current_ptr s' = current_ptr s" "free_slab_pool s' = free_slab_pool s" "owned_size s' = owned_size s"
    using assms by (auto simp: same_slabs_def)
  then show "class_blocks s' c = class_blocks s c" for c by (intro class_blocks_cong) simp_all
  then show "live_inv s' L = live_inv s L" by (simp add: live_inv_def)
  show idx: "slab_index s' = slab_index s" using e(1) by (rule slab_index_cong)
  then show "live_in s' = live_in s" by (simp add: live_in_def fun_eq_iff)
  have "slab_at s' = slab_at s" "carved s' = carved s" using e by (simp_all add: slab_at_def carved_def fun_eq_iff)
  then show "region_inv s' = region_inv s" "owner_inv s' = owner_inv s" using e by (simp_all add: region_inv_def owner_inv_def)
  show "owned_size s' = owned_size s" "max_slab_count s' = max_slab_count s" "base_ptr s' = base_ptr s" by (fact e)+
qed

lemma target_cong:
  assumes "same_slabs s s'" "\<And>d. drain_target_idx (classes s' d) = drain_target_idx (classes s d)"
    "\<And>i. is_drain_target (metadata s' i) = is_drain_target (metadata s i)"
  shows "target_inv s' = target_inv s"
  unfolding target_inv_def same_slabs_views [OF assms(1)] assms(2,3) ..

lemma live_in_insert: "live_in s (insert x L) i = (if slab_index s x = i then insert x (live_in s L i) else live_in s L i)"
  by (auto simp: live_in_def)

lemma live_in_remove: "live_in s (L - {x}) i = live_in s L i - {x}"
  by (auto simp: live_in_def)

lemma fetch_add_small: "x + d < 2 ^ 64 \<Longrightarrow> fetch_add x d = x + d"
  by (simp add: fetch_add_def)

lemma fetch_sub_small: "d \<le> x \<Longrightarrow> x < 2 ^ 64 \<Longrightarrow> fetch_sub x d = x - d"
  by (simp add: fetch_sub_def nat_diff_distrib')

lemma count_add:
  assumes "count_inv s L" "live_inv s L" "x \<notin> L" "slab_index s x < max_slab_count s" "same_slabs s s'"
    "\<And>i. live_count (metadata s' i) = (if i = slab_index s x then fetch_add (live_count (metadata s i)) 1 else live_count (metadata s i))"
    "bytes_in_use s' = fetch_add (bytes_in_use s) (owned_size s (slab_index s x))"
  shows "count_inv s' (insert x L)"
proof -
  note v = same_slabs_views [OF assms(5)]
  have fin: "finite L" using assms(2) by (rule finite_live)
  have lc: "live_count (metadata s i) = card (live_in s L i)" if "i < max_slab_count s" for i
    using assms(1) that by (simp add: count_inv_def)
  have "live_count (metadata s' i) = card (live_in s (insert x L) i)" if i: "i < max_slab_count s" for i
  proof (cases "i = slab_index s x")
    case True
    have "card (live_in s L i) \<le> HUGE_PAGE_SIZE" using assms(2) i by (rule live_count_bound)
    then have "fetch_add (card (live_in s L i)) 1 = card (live_in s L i) + 1" by (intro fetch_add_small) (simp add: HUGE_PAGE_SIZE_def)
    moreover have "card (insert x (live_in s L i)) = card (live_in s L i) + 1" using fin assms(3) by (simp add: live_in_def)
    ultimately show ?thesis using True lc [OF i] by (simp add: assms(6) live_in_insert)
  qed (simp add: assms(6) live_in_insert lc [OF i])
  moreover have "bytes_in_use s' = (\<Sum>p\<in>insert x L. owned_size s (slab_index s p)) mod 2 ^ 64"
    using assms(1,3,7) fin by (simp add: count_inv_def fetch_add_def mod_add_right_eq add.commute)
  ultimately show ?thesis by (simp add: count_inv_def v)
qed

lemma count_remove:
  assumes "count_inv s L" "live_inv s L" "x \<in> L" "slab_index s x < max_slab_count s" "same_slabs s s'"
    "\<And>i. live_count (metadata s' i) = (if i = slab_index s x then fetch_sub (live_count (metadata s i)) 1 else live_count (metadata s i))"
    "bytes_in_use s' = fetch_sub (bytes_in_use s) (owned_size s (slab_index s x))"
  shows "count_inv s' (L - {x})"
proof -
  note v = same_slabs_views [OF assms(5)]
  have fin: "finite L" using assms(2) by (rule finite_live)
  have lc: "live_count (metadata s i) = card (live_in s L i)" if "i < max_slab_count s" for i
    using assms(1) that by (simp add: count_inv_def)
  have "live_count (metadata s' i) = card (live_in s (L - {x}) i)" if i: "i < max_slab_count s" for i
  proof (cases "i = slab_index s x")
    case True
    then have x: "x \<in> live_in s L i" "finite (live_in s L i)" using assms(3) fin by (simp_all add: live_in_def)
    then have "1 \<le> card (live_in s L i)" using card_gt_0_iff [of "live_in s L i"] by auto
    moreover have "card (live_in s L i) \<le> HUGE_PAGE_SIZE" using assms(2) i by (rule live_count_bound)
    ultimately have "fetch_sub (card (live_in s L i)) 1 = card (live_in s L i) - 1" by (intro fetch_sub_small) (simp_all add: HUGE_PAGE_SIZE_def)
    then show ?thesis using True lc [OF i] x by (simp add: assms(6) live_in_remove)
  qed (auto simp: assms(6) live_in_remove lc [OF i] live_in_def intro!: arg_cong [of _ _ card])
  moreover have "bytes_in_use s' = (\<Sum>p\<in>L - {x}. owned_size s (slab_index s p)) mod 2 ^ 64"
  proof -
    let ?f = "\<lambda>p. owned_size s (slab_index s p)"
    have "sum ?f L = ?f x + sum ?f (L - {x})" using fin assms(3) by (rule sum.remove)
    then have "bytes_in_use s = (?f x + sum ?f (L - {x})) mod 2 ^ 64" using assms(1) by (simp add: count_inv_def)
    then show ?thesis unfolding assms(7) fetch_sub_def by (simp add: zmod_int mod_diff_left_eq nat_mod_as_int)
  qed
  ultimately show ?thesis by (simp add: count_inv_def v)
qed

lemma lists_invD:
  assumes "lists_inv s fl L" "c < NUM_CLASSES"
  shows "class_block_size (classes s c) = blk c" "linked (next_of s) (free_list (classes s c)) (free_list_tail (classes s c)) (fl c)"
    "distinct (fl c)" "set (fl c) = class_blocks s c - L"
  using assms by (simp_all add: lists_inv_def)

lemma lists_other:
  assumes "lists_inv s fl L" "c < NUM_CLASSES" "d < NUM_CLASSES" "d \<noteq> c" "x \<in> class_blocks s c"
  shows "x \<notin> set (fl d)" "class_blocks s d - insert x L = class_blocks s d - L" "class_blocks s d - (L - {x}) = class_blocks s d - L"
proof -
  have "x \<notin> class_blocks s d" using assms(4,5) class_blocks_disjoint by metis
  then show "x \<notin> set (fl d)" "class_blocks s d - insert x L = class_blocks s d - L" "class_blocks s d - (L - {x}) = class_blocks s d - L"
    using assms(1,3) by (auto simp: lists_inv_def)
qed

lemma class_block_place:
  assumes "x \<in> class_blocks s c"
  shows "slab_index s x < max_slab_count s" "owned_size s (slab_index s x) = blk c" "base_ptr s \<le> x"
proof -
  show "slab_index s x < max_slab_count s" "owned_size s (slab_index s x) = blk c" using assms by (simp_all add: class_blocks_iff)
  have "slab_at s (slab_index s x) \<le> x" using assms block_place(2) blk_pos unfolding class_blocks_iff by blast
  then show "base_ptr s \<le> x" by (simp add: slab_at_def)
qed

text \<open>Taking the head of a free list.\<close>

lemma pop_block_inv:
  assumes "slab_inv s fl L" "c < NUM_CLASSES" "fl c = x # xs"
  obtains s' where "pop_block c s = Inr (Block x, s')" "slab_inv s' (fl(c := xs)) (insert x L)" "x \<in> class_blocks s c" "x \<notin> L"
    "same_slabs s s'"
proof -
  have I: "region_inv s" "owner_inv s" "target_inv s" "count_inv s L" "lists_inv s fl L" "live_inv s L"
    using assms(1) by (simp_all add: slab_inv_def)
  note fc = lists_invD [OF I(5) assms(2), unfolded assms(3)]
  have x: "x \<in> class_blocks s c" "x \<notin> L" using fc(4) by auto
  note place = class_block_place [OF x(1)]
  note pop = linked_pop [OF fc(2)]
  let ?i = "slab_index s x"
  define s' where "s' = s\<lparr>classes := (classes s)(c := (classes s c)\<lparr>free_list := next_of s x,
      free_list_tail := (if next_of s x = 0 then 0 else free_list_tail (classes s c))\<rparr>),
    bytes_in_use := fetch_add (bytes_in_use s) (class_block_size (classes s c)),
    metadata := (metadata s)(?i := (metadata s ?i)\<lparr>live_count := fetch_add (live_count (metadata s ?i)) 1\<rparr>)\<rparr>"
  have p: "pop_block c s = Inr (Block x, s')" using place pop(1) by (simp add: pop_block_def s'_def Let_def)
  have same: "same_slabs s s'" by (simp add: same_slabs_def s'_def owned_size_def)
  note v = same_slabs_views [OF same]
  have "count_inv s' (insert x L)"
    by (rule count_add [OF I(4,6) x(2) place(1) same]) (simp_all add: s'_def fc(1) place(2))
  moreover have "target_inv s'" using I(3) by (subst target_cong [OF same]) (simp_all add: s'_def)
  moreover have "lists_inv s' (fl(c := xs)) (insert x L)" unfolding lists_inv_def v
  proof (intro allI impI)
    fix d assume d: "d < NUM_CLASSES"
    show "class_block_size (classes s' d) = blk d \<and> linked (next_of s') (free_list (classes s' d)) (free_list_tail (classes s' d)) ((fl(c := xs)) d)
      \<and> distinct ((fl(c := xs)) d) \<and> set ((fl(c := xs)) d) = class_blocks s d - insert x L"
    proof (cases "d = c")
      case True
      then show ?thesis using fc pop(2) by (auto simp: s'_def)
    next
      case False
      then show ?thesis using I(5) d lists_other(2) [OF I(5) assms(2) d False x(1)] by (simp add: s'_def lists_inv_def)
    qed
  qed
  moreover have "live_inv s' (insert x L)" using I(6) x(1) assms(2) unfolding v by (auto simp: live_inv_def)
  ultimately have "slab_inv s' (fl(c := xs)) (insert x L)" using I(1,2) v by (simp add: slab_inv_def)
  with p show ?thesis using x same by (intro that)
qed

section \<open>Carving\<close>

lemma take_slab_inv:
  assumes "region_inv s" "owner_inv s"
  shows "(case take_slab s of None \<Rightarrow> free_slab_pool s = [] \<and> end_ptr s < current_ptr s + HUGE_PAGE_SIZE
    | Some (i, s1) \<Rightarrow> i < max_slab_count s \<and> owned_size s i = 0 \<and> region_inv s1 \<and> i < carved s1 \<and> carved s \<le> carved s1
        \<and> distinct (free_slab_pool s1) \<and> (\<forall>j. j \<in> set (free_slab_pool s1) \<longleftrightarrow> j < carved s1 \<and> owned_size s j = 0 \<and> j \<noteq> i)
        \<and> s1 = s\<lparr>free_slab_pool := free_slab_pool s1, current_ptr := current_ptr s1\<rparr>)"
proof (cases "free_slab_pool s = []")
  case False
  then obtain ys i where pool: "free_slab_pool s = ys @ [i]" by (cases "free_slab_pool s" rule: rev_cases) auto
  have i: "i < carved s" "owned_size s i = 0" using assms(2) pool by (auto simp: owner_inv_def)
  have eq: "carved (s\<lparr>free_slab_pool := ys\<rparr>) = carved s" "region_inv (s\<lparr>free_slab_pool := ys\<rparr>) = region_inv s"
    by (simp_all add: carved_def region_inv_def slab_at_def)
  have "j \<in> set ys \<longleftrightarrow> j < carved s \<and> owned_size s j = 0 \<and> j \<noteq> i" for j
    using assms(2) pool by (auto simp: owner_inv_def)
  then show ?thesis using assms i pool eq by (simp add: take_slab_def owner_inv_def region_inv_def)
next
  case True
  show ?thesis
  proof (cases "end_ptr s < current_ptr s + HUGE_PAGE_SIZE")
    case False
    let ?s1 = "s\<lparr>current_ptr := current_ptr s + HUGE_PAGE_SIZE\<rparr>"
    have cur: "current_ptr s = slab_at s (carved s)" using assms(1) by (simp add: region_inv_def)
    then have idx: "slab_index s (current_ptr s) = carved s" by (simp add: slab_index_def slab_at_def)
    have "current_ptr s + HUGE_PAGE_SIZE - base_ptr s = Suc (carved s) * HUGE_PAGE_SIZE" unfolding cur by (simp add: slab_at_def)
    then have c1: "carved ?s1 = Suc (carved s)" unfolding carved_def by simp
    have "slab_at s (Suc (carved s)) \<le> base_ptr s + total_capacity s" using False cur assms(1) by (simp add: slab_at_def region_inv_def)
    then have "Suc (carved s) * HUGE_PAGE_SIZE \<le> total_capacity s" by (simp add: slab_at_def)
    then have lt: "Suc (carved s) \<le> max_slab_count s" using assms(1) by (simp only: region_inv_def less_eq_div_iff_mult_less_eq HUGE_pos)
    then have "region_inv ?s1" using assms(1) c1 cur by (simp add: region_inv_def slab_at_def)
    moreover have "owned_size s (carved s) = 0" using assms(2) lt by (metis owner_inv_def less_irrefl Suc_le_lessD)
    moreover have "owned_size s j \<noteq> 0" if "j < carved s" for j using assms(2) True that by (auto simp: owner_inv_def)
    then have "\<forall>j. \<not> (j < Suc (carved s) \<and> owned_size s j = 0 \<and> j \<noteq> carved s)" by (metis less_Suc_eq)
    ultimately show ?thesis using True False idx c1 lt by (simp add: take_slab_def)
  qed (use True in \<open>simp add: take_slab_def\<close>)
qed

lemma carved_blocks:
  assumes "base_ptr s' = base_ptr s" "max_slab_count s' = max_slab_count s" "i < max_slab_count s" "owned_size s i = 0"
    "owned_size s' = (owned_size s)(i := blk c)"
  shows "class_blocks s' d = class_blocks s d \<union> (if d = c then set (slab_blocks (slab_at s i) (blk c)) else {})"
    "set (slab_blocks (slab_at s i) (blk c)) \<inter> class_blocks s d = {}"
proof -
  have at: "slab_at s' j = slab_at s j" for j by (simp add: slab_at_def assms(1))
  show "class_blocks s' d = class_blocks s d \<union> (if d = c then set (slab_blocks (slab_at s i) (blk c)) else {})"
    (is "?lhs = ?rhs")
  proof (rule set_eqI)
    fix p
    have idx: "slab_index s' p = slab_index s p" by (simp add: slab_index_def assms(1))
    show "p \<in> ?lhs \<longleftrightarrow> p \<in> ?rhs"
    proof (cases "slab_index s p = i")
      case True
      then show ?thesis using assms(3,4) by (auto simp: class_blocks_iff idx at assms(2,5))
    next
      case False
      then have "p \<notin> set (slab_blocks (slab_at s i) (blk c))" using block_place(1) [of p s i "blk c"] by auto
      then show ?thesis using False by (simp add: class_blocks_iff idx at assms(2,5))
    qed
  qed
  show "set (slab_blocks (slab_at s i) (blk c)) \<inter> class_blocks s d = {}"
    using assms(4) block_place(1) [of _ s i "blk c"] by (auto simp: class_blocks_iff)
qed

text \<open>Slabs are only added: what a slab that was owned serves does not change.\<close>

definition grown :: "slab_allocator \<Rightarrow> slab_allocator \<Rightarrow> bool" where
  "grown s s' \<longleftrightarrow> base_ptr s' = base_ptr s \<and> max_slab_count s' = max_slab_count s \<and> total_capacity s' = total_capacity s
     \<and> (\<forall>i. owned_size s i \<noteq> 0 \<longrightarrow> owned_size s' i = owned_size s i)"

lemma grown_blocks: "grown s s' \<Longrightarrow> p \<in> class_blocks s c \<Longrightarrow> p \<in> class_blocks s' c"
  by (auto simp: class_blocks_iff grown_def slab_at_def slab_index_def)

lemma grown_trans: "grown s s1 \<Longrightarrow> grown s1 s2 \<Longrightarrow> grown s s2"
  unfolding grown_def by metis

lemma same_grown: "same_slabs s s' \<Longrightarrow> grown s s'"
  by (simp add: same_slabs_def grown_def)

lemma carve_inv:
  assumes "slab_inv s fl L" "c < NUM_CLASSES" "fl c = []"
  shows "(case take_slab s of None \<Rightarrow> allocate_slab_for_class c s = Inr (False, s) \<and> free_slab_pool s = [] \<and> end_ptr s < current_ptr s + HUGE_PAGE_SIZE
    | Some _ \<Rightarrow> \<exists>s' xs. allocate_slab_for_class c s = Inr (True, s') \<and> xs \<noteq> [] \<and> slab_inv s' (fl(c := xs)) L \<and> grown s s')"
proof (cases "take_slab s")
  case None
  have "region_inv s" "owner_inv s" using assms(1) by (simp_all add: slab_inv_def)
  from take_slab_inv [OF this] None show ?thesis by (simp add: allocate_slab_for_class_def)
next
  case (Some r)
  obtain i s1 where r: "r = (i, s1)" by (cases r)
  have I: "region_inv s" "owner_inv s" "target_inv s" "count_inv s L" "lists_inv s fl L" "live_inv s L"
    using assms(1) by (simp_all add: slab_inv_def)
  have T: "i < max_slab_count s" "owned_size s i = 0" "region_inv s1" "i < carved s1" "carved s \<le> carved s1" "distinct (free_slab_pool s1)"
    "\<And>j. j \<in> set (free_slab_pool s1) \<longleftrightarrow> j < carved s1 \<and> owned_size s j = 0 \<and> j \<noteq> i"
    and s1: "s1 = s\<lparr>free_slab_pool := free_slab_pool s1, current_ptr := current_ptr s1\<rparr>"
    using take_slab_inv [OF I(1,2)] Some r by simp_all
  have e: "classes s1 = classes s" "base_ptr s1 = base_ptr s" "max_slab_count s1 = max_slab_count s" "metadata s1 = metadata s"
    "next_of s1 = next_of s" "bytes_in_use s1 = bytes_in_use s" "total_capacity s1 = total_capacity s" by (subst s1, simp)+
  let ?slab = "slab_at s i" and ?b = "blk c"
  let ?xs = "slab_blocks ?slab ?b" and ?num = "HUGE_PAGE_SIZE div ?b"
  have bc: "class_block_size (classes s c) = ?b" using lists_invD(1) [OF I(5) assms(2)] .
  define s' where "s' = s1\<lparr>
     metadata := (metadata s)(i := (metadata s i)\<lparr>meta_block_size := ?b, total_blocks := ?num, live_count := 0\<rparr>),
     next_of := chain_blocks ?slab ?b ?num (next_of s),
     classes := (classes s)(c := (classes s c)\<lparr>slab_count := fetch_add (slab_count (classes s c)) 1,
       free_list := ?slab, free_list_tail := ?slab + (?num - 1) * ?b\<rparr>)\<rparr>"
  have run: "allocate_slab_for_class c s = Inr (True, s')"
    using Some r T(1) bc e by (simp add: allocate_slab_for_class_def Let_def s'_def slab_at_def)
  have v: "base_ptr s' = base_ptr s" "max_slab_count s' = max_slab_count s" "owned_size s' = (owned_size s)(i := ?b)"
    "slab_index s' = slab_index s" "live_in s' = live_in s"
    by (simp_all add: s'_def e owned_size_def slab_index_def live_in_def fun_eq_iff)
  note cb = carved_blocks [OF v(1,2) T(1,2) v(3)]
  have "?b \<le> HUGE_PAGE_SIZE" using blk_bounds [OF assms(2)] by (simp add: HUGE_PAGE_SIZE_def)
  moreover have "0 < ?slab" using I(1) by (simp add: slab_at_def region_inv_def)
  ultimately have chain: "linked (next_of s') ?slab (?slab + (?num - 1) * ?b) ?xs" "distinct ?xs" "\<And>a. a \<notin> set ?xs \<Longrightarrow> next_of s' a = next_of s a"
    using chain_blocks_spec [of ?slab ?b] by (simp_all add: s'_def)
  have live_owned: "owned_size s (slab_index s p) \<noteq> 0" if live: "p \<in> L" for p
  proof -
    obtain d where "p \<in> class_blocks s d" using I(6) live unfolding live_inv_def by blast
    then show ?thesis using class_block_place(2) [of p s d] by simp
  qed
  have "lists_inv s' (fl(c := ?xs)) L" unfolding lists_inv_def
  proof (intro allI impI)
    fix d assume d: "d < NUM_CLASSES"
    note D = lists_invD [OF I(5) d]
    show "class_block_size (classes s' d) = blk d \<and> linked (next_of s') (free_list (classes s' d)) (free_list_tail (classes s' d)) ((fl(c := ?xs)) d)
      \<and> distinct ((fl(c := ?xs)) d) \<and> set ((fl(c := ?xs)) d) = class_blocks s' d - L"
    proof (cases "d = c")
      case True
      have "class_blocks s c \<subseteq> L" using D(4) assms(3) True by auto
      moreover have "set ?xs \<inter> L = {}" using live_owned block_place(1) [of _ s i ?b] T(2) by force
      ultimately have "class_blocks s' c - L = set ?xs" using cb(1) [of c] by auto
      then show ?thesis using True chain(1,2) bc by (simp add: s'_def)
    next
      case False
      have "linked (next_of s') p t (fl d) = linked (next_of s) p t (fl d)" for p t
        using D(4) cb(2) [of d] chain(3) by (intro linked_frame) blast
      then show ?thesis using False D cb(1) [of d] by (simp add: s'_def)
    qed
  qed
  moreover have "?xs \<noteq> []" using linked_empty(1) [OF chain(1)] \<open>0 < ?slab\<close> by simp
  moreover have "region_inv s'" using T(3) by (simp add: s'_def region_inv_def carved_def slab_at_def)
  moreover have "owner_inv s'"
  proof -
    have "carved s' = carved s1" "free_slab_pool s' = free_slab_pool s1" by (simp_all add: s'_def carved_def)
    moreover have "j < carved s1" "\<exists>d<NUM_CLASSES. owned_size s j = blk d" if "j < max_slab_count s" "owned_size s j \<noteq> 0" for j
      using I(2) that T(5) by (auto simp: owner_inv_def intro: order_less_le_trans)
    ultimately show ?thesis using T(4,6,7) assms(2) blk_pos [of c] by (auto simp: owner_inv_def v)
  qed
  moreover have "target_inv s'"
  proof -
    have "drain_target_idx (classes s d) \<noteq> i" if "d < NUM_CLASSES" "drain_target_idx (classes s d) \<noteq> SIZE_MAX" for d
      using I(3) that T(2) blk_pos [of d] by (auto simp: target_inv_def)
    moreover have "drain_target_idx (classes s' d) = drain_target_idx (classes s d)" "is_drain_target (metadata s' j) = is_drain_target (metadata s j)" for d j
      by (simp_all add: s'_def)
    ultimately show ?thesis using I(3) unfolding target_inv_def v by simp
  qed
  moreover have "count_inv s' L"
  proof -
    have "live_in s L i = {}" using live_owned T(2) by (force simp: live_in_def)
    moreover have "(\<Sum>p\<in>L. owned_size s' (slab_index s p)) = (\<Sum>p\<in>L. owned_size s (slab_index s p))"
      by (rule sum.cong) (use live_owned T(2) in \<open>force simp: v\<close>)+
    ultimately show ?thesis using I(4) by (simp add: count_inv_def v) (simp add: s'_def e)
  qed
  moreover have "live_inv s' L" using I(6) cb(1) by (auto simp: live_inv_def)
  moreover have "grown s s'" using T(2) by (simp add: grown_def v) (simp add: s'_def e)
  ultimately show ?thesis using Some run by (auto simp: slab_inv_def)
qed

end
