(* ===== verification/SlabRelease.thy ===== *)
theory SlabRelease
  imports SlabInvariant
begin

text \<open>
  Freeing a block of the slab allocator: the counters, the choice of the slab to drain, the two ends of
  the free list and the return of an empty slab to the pool keep the invariant.
\<close>

section \<open>The free list takes a block\<close>

lemma lists_cong:
  assumes "same_slabs s s'" "next_of s' = next_of s"
    "\<And>d. class_block_size (classes s' d) = class_block_size (classes s d)" "\<And>d. free_list (classes s' d) = free_list (classes s d)"
    "\<And>d. free_list_tail (classes s' d) = free_list_tail (classes s d)"
  shows "lists_inv s' fl L = lists_inv s fl L"
  unfolding lists_inv_def same_slabs_views(3) [OF assms(1)] assms(2-5) ..

lemma count_cong:
  assumes "same_slabs s s'" "\<And>i. live_count (metadata s' i) = live_count (metadata s i)" "bytes_in_use s' = bytes_in_use s"
  shows "count_inv s' L = count_inv s L"
  unfolding count_inv_def same_slabs_views(5-8) [OF assms(1)] assms(2,3) ..

lemma select_drain_target_inv:
  assumes "target_inv s" "i < max_slab_count s" "owned_size s i = blk c" "max_slab_count s < SIZE_MAX" "c < NUM_CLASSES"
  obtains sink s' where "select_drain_target c i live s = Inr (sink, s')" "same_slabs s s'" "target_inv s'"
    "\<forall>fl L. lists_inv s' fl L = lists_inv s fl L" "\<forall>L. count_inv s' L = count_inv s L" "sink \<longrightarrow> drain_target_idx (classes s' c) = i"
    "\<forall>j. live_count (metadata s' j) = live_count (metadata s j)"
proof -
  let ?t = "drain_target_idx (classes s c)"
  define become where "become = (?t = SIZE_MAX \<or> ?t \<noteq> i \<and> live < live_count (metadata s ?t))"
  define m where "m = (if become \<and> ?t \<noteq> SIZE_MAX \<and> ?t \<noteq> i
    then (metadata s)(?t := (metadata s ?t)\<lparr>is_drain_target := False\<rparr>) else metadata s)"
  define s' where "s' = (if become then s\<lparr>metadata := m(i := (m i)\<lparr>is_drain_target := True\<rparr>),
      classes := (classes s)(c := (classes s c)\<lparr>drain_target_idx := i\<rparr>),
      drain_target_switch_total := fetch_add (drain_target_switch_total s) 1\<rparr> else s)"
  have t: "?t \<noteq> SIZE_MAX \<Longrightarrow> ?t < max_slab_count s \<and> owned_size s ?t = blk c" using assms(1,5) by (simp add: target_inv_def)
  have run: "select_drain_target c i live s = Inr (drain_target_idx (classes s' c) = i, s')"
    using t unfolding select_drain_target_def Let_def become_def [symmetric] m_def [symmetric] s'_def [symmetric] by auto
  have same: "same_slabs s s'" by (simp add: same_slabs_def s'_def owned_size_def m_def)
  note v = same_slabs_views [OF same]
  have live: "live_count (metadata s' j) = live_count (metadata s j)" for j by (simp add: s'_def m_def)
  have "target_inv s'"
  proof (cases become)
    case True
    have dt: "drain_target_idx (classes s' d) = (if d = c then i else drain_target_idx (classes s d))" for d
      using True by (simp add: s'_def)
    have other: "drain_target_idx (classes s d) \<noteq> i" "drain_target_idx (classes s d) \<noteq> ?t"
      if "d < NUM_CLASSES" "d \<noteq> c" "drain_target_idx (classes s d) \<noteq> SIZE_MAX" for d
      using assms(1,3) that t unfolding target_inv_def by (metis blk_inj)+
    have fl: "is_drain_target (metadata s' j) = (j = i \<or> is_drain_target (metadata s j) \<and> (j = ?t \<longrightarrow> ?t = SIZE_MAX \<or> ?t = i))" for j
      using True by (auto simp: s'_def m_def)
    show ?thesis unfolding target_inv_def v
    proof (intro conjI allI impI)
      fix d assume d: "d < NUM_CLASSES" "drain_target_idx (classes s' d) \<noteq> SIZE_MAX"
      then have "d = c \<or> drain_target_idx (classes s d) < max_slab_count s \<and> owned_size s (drain_target_idx (classes s d)) = blk d
        \<and> is_drain_target (metadata s (drain_target_idx (classes s d)))" using assms(1) by (auto simp: dt target_inv_def)
      with d show "drain_target_idx (classes s' d) < max_slab_count s" "owned_size s (drain_target_idx (classes s' d)) = blk d"
        "is_drain_target (metadata s' (drain_target_idx (classes s' d)))"
        using assms(2,3) other [of d] by (auto simp: dt fl)
    next
      fix j assume j: "j < max_slab_count s" "is_drain_target (metadata s' j)"
      show "\<exists>d<NUM_CLASSES. drain_target_idx (classes s' d) = j"
      proof (cases "j = i")
        case False
        then have "is_drain_target (metadata s j)" "j = ?t \<longrightarrow> ?t = SIZE_MAX \<or> ?t = i" using j(2) by (simp_all add: fl)
        moreover from this obtain d where "d < NUM_CLASSES" "drain_target_idx (classes s d) = j" using assms(1) j(1) by (auto simp: target_inv_def)
        ultimately show ?thesis using False j(1) assms(4) by (intro exI [of _ d]) (auto simp: dt)
      qed (use assms(5) in \<open>auto simp: dt\<close>)
    qed
  qed (use assms(1) in \<open>simp add: s'_def\<close>)
  moreover have "lists_inv s' fl L = lists_inv s fl L" for fl L by (rule lists_cong [OF same]) (simp_all add: s'_def)
  moreover have "count_inv s' L = count_inv s L" for L by (rule count_cong [OF same live]) (simp add: s'_def)
  ultimately show ?thesis using that [OF run same] live by blast
qed

text \<open>A block that is neither live nor free becomes free, at either end.\<close>

lemma push_inv:
  assumes "lists_inv s fl L" "c < NUM_CLASSES" "p \<in> class_blocks s c" "p \<in> L" "p \<noteq> 0"
  shows "\<exists>fl'. lists_inv (push_head c p s) fl' (L - {p})" "\<exists>fl'. lists_inv (push_tail c p s) fl' (L - {p})"
    "same_slabs s (push_head c p s)" "same_slabs s (push_tail c p s)"
proof -
  note C = lists_invD [OF assms(1,2)]
  have new: "p \<notin> set (fl c)" using C(4) assms(4) by simp
  show same: "same_slabs s (push_head c p s)" "same_slabs s (push_tail c p s)"
    by (simp_all add: same_slabs_def push_head_def push_tail_def owned_size_def Let_def)
  have frame: "lists_inv s' (fl(c := xs)) (L - {p})"
    if "same_slabs s s'" "\<And>d. d \<noteq> c \<Longrightarrow> classes s' d = classes s d" "class_block_size (classes s' c) = class_block_size (classes s c)"
      "linked (next_of s') (free_list (classes s' c)) (free_list_tail (classes s' c)) xs" "distinct xs" "set xs = insert p (set (fl c))"
      "\<And>a. a \<notin> insert p (set (fl c)) \<Longrightarrow> next_of s' a = next_of s a" for s' xs
    unfolding lists_inv_def
  proof (intro allI impI)
    fix d assume d: "d < NUM_CLASSES"
    note D = lists_invD [OF assms(1) d]
    show "class_block_size (classes s' d) = blk d \<and> linked (next_of s') (free_list (classes s' d)) (free_list_tail (classes s' d)) ((fl(c := xs)) d)
      \<and> distinct ((fl(c := xs)) d) \<and> set ((fl(c := xs)) d) = class_blocks s' d - (L - {p})"
    proof (cases "d = c")
      case True
      then show ?thesis using that C assms(3,4) same_slabs_views(3) [OF that(1)] by auto
    next
      case False
      have "set (fl d) \<inter> insert p (set (fl c)) = {}"
        using D(4) C(4) assms(3) False class_blocks_disjoint [of _ s c d] by auto
      then have "linked (next_of s') a b (fl d) = linked (next_of s) a b (fl d)" for a b using that(7) by (intro linked_frame) blast
      then show ?thesis using False D that(2) same_slabs_views(3) [OF that(1)] lists_other(3) [OF assms(1,2) d False assms(3)] by simp
    qed
  qed
  show "\<exists>fl'. lists_inv (push_head c p s) fl' (L - {p})"
    using frame [OF same(1), of "p # fl c"] linked_push [OF C(2) new assms(5)] C(3) new by (auto simp: push_head_def)
  have tail: "free_list_tail (classes s c) = 0 \<or> free_list_tail (classes s c) \<in> set (fl c)"
    using C(2) by (auto simp: linked_def final_def)
  have "lists_inv (push_tail c p s) (fl(c := fl c @ [p])) (L - {p})"
    by (rule frame [OF same(2)]) (use linked_sink [OF C(2,3) new assms(5)] C(3) new tail in \<open>auto simp: push_tail_def Let_def split: if_splits\<close>)
  then show "\<exists>fl'. lists_inv (push_tail c p s) fl' (L - {p})" by blast
qed

section \<open>An empty slab goes back to the pool\<close>

lemma walk_linked:
  assumes "linked m p t xs" "distinct xs"
  obtains m' where "reclaim_walk lo hi m 0 0 p = Some (m', first (filter (\<lambda>x. \<not> (lo \<le> x \<and> x < hi)) xs), final (filter (\<lambda>x. \<not> (lo \<le> x \<and> x < hi)) xs))"
    "linked (if final (filter (\<lambda>x. \<not> (lo \<le> x \<and> x < hi)) xs) = 0 then m' else m'(final (filter (\<lambda>x. \<not> (lo \<le> x \<and> x < hi)) xs) := 0))
       (first (filter (\<lambda>x. \<not> (lo \<le> x \<and> x < hi)) xs)) (final (filter (\<lambda>x. \<not> (lo \<le> x \<and> x < hi)) xs)) (filter (\<lambda>x. \<not> (lo \<le> x \<and> x < hi)) xs)"
    "\<forall>a. a \<notin> set xs \<longrightarrow> m' a = m a" "final (filter (\<lambda>x. \<not> (lo \<le> x \<and> x < hi)) xs) = 0 \<or> final (filter (\<lambda>x. \<not> (lo \<le> x \<and> x < hi)) xs) \<in> set xs"
proof -
  let ?ys = "filter (\<lambda>x. \<not> (lo \<le> x \<and> x < hi)) xs"
  have p: "p = first xs" "0 \<notin> set xs" "chained m xs" "xs \<noteq> [] \<Longrightarrow> m (last xs) = 0" using assms(1) by (simp_all add: linked_def)
  obtain m' where m': "reclaim_walk lo hi m 0 0 p = Some (m', first ?ys, final ?ys)" "chained m' ?ys" "\<forall>a. a \<notin> set xs \<longrightarrow> m' a = m a"
    using reclaim_walk_spec [of "[]" xs m lo hi] p assms(2) by auto
  have last: "last ?ys \<in> set ?ys" if "?ys \<noteq> []" using that by (rule last_in_set)
  have "linked (if final ?ys = 0 then m' else m'(final ?ys := 0)) (first ?ys) (final ?ys) ?ys"
  proof (cases "?ys = []")
    case False
    have "last ?ys \<noteq> 0" using subsetD [OF filter_is_subset last [OF False]] p(2) by metis
    moreover have "chained (m'(last ?ys := 0)) ?ys" using m'(2) chained_last [of ?ys m' 0] assms(2) by simp
    ultimately show ?thesis using False p(2) by (simp add: linked_def final_def)
  qed (simp add: linked_def)
  moreover have "final ?ys = 0 \<or> final ?ys \<in> set xs" using last by (auto simp: final_def)
  ultimately show ?thesis using that [OF m'(1)] m'(3) by blast
qed

lemma slab_range:
  assumes "p \<in> class_blocks s c"
  shows "slab_at s i \<le> p \<and> p < slab_at s i + HUGE_PAGE_SIZE \<longleftrightarrow> slab_index s p = i"
proof
  assume r: "slab_at s i \<le> p \<and> p < slab_at s i + HUGE_PAGE_SIZE"
  then obtain d where "p = slab_at s i + d" "d < HUGE_PAGE_SIZE" by (metis le_Suc_ex nat_add_left_cancel_less)
  then show "slab_index s p = i" by (simp add: slab_index_def slab_at_def)
next
  assume "slab_index s p = i"
  then have "p \<in> set (slab_blocks (slab_at s i) (blk c))" using assms by (simp add: class_blocks_iff)
  note place = block_place(2,3) [OF this blk_pos]
  have "slab_at s (Suc i) = slab_at s i + HUGE_PAGE_SIZE" by (simp add: slab_at_def)
  moreover have "p < p + blk c" by simp
  ultimately show "slab_at s i \<le> p \<and> p < slab_at s i + HUGE_PAGE_SIZE" using place by linarith
qed

lemma tryReclaimSlab_inv:
  assumes "slab_inv s fl L" "i < max_slab_count s" "owned_size s i = blk c" "c < NUM_CLASSES" "live_in s L i = {}"
  obtains s' fl' where "tryReclaimSlab i c s = Inr s'" "slab_inv s' fl' L" "i \<in> set (free_slab_pool s')" "owned_size s' = (owned_size s)(i := 0)"
    "base_ptr s' = base_ptr s" "max_slab_count s' = max_slab_count s"
proof -
  have I: "region_inv s" "owner_inv s" "target_inv s" "count_inv s L" "lists_inv s fl L" "live_inv s L"
    using assms(1) by (simp_all add: slab_inv_def)
  note C = lists_invD [OF I(5) assms(4)]
  let ?lo = "slab_at s i"
  let ?ys = "filter (\<lambda>x. \<not> (?lo \<le> x \<and> x < ?lo + HUGE_PAGE_SIZE)) (fl c)"
  obtain m' where m': "reclaim_walk ?lo (?lo + HUGE_PAGE_SIZE) (next_of s) 0 0 (free_list (classes s c)) = Some (m', first ?ys, final ?ys)"
    "linked (if final ?ys = 0 then m' else m'(final ?ys := 0)) (first ?ys) (final ?ys) ?ys"
    "\<forall>a. a \<notin> set (fl c) \<longrightarrow> m' a = next_of s a" "final ?ys = 0 \<or> final ?ys \<in> set (fl c)"
    by (rule walk_linked [OF C(2,3)])
  define s' where "s' = s\<lparr>next_of := (if final ?ys = 0 then m' else m'(final ?ys := 0)),
     metadata := (metadata s)(i := (metadata s i)\<lparr>meta_block_size := 0, total_blocks := 0, is_drain_target := False\<rparr>),
     classes := (classes s)(c := (classes s c)\<lparr>free_list := first ?ys, free_list_tail := final ?ys,
       drain_target_idx := (if drain_target_idx (classes s c) = i then SIZE_MAX else drain_target_idx (classes s c)),
       slab_count := fetch_sub (slab_count (classes s c)) 1\<rparr>),
     free_slab_pool := free_slab_pool s @ [i], reclaimed_slab_total := fetch_add (reclaimed_slab_total s) 1\<rparr>"
  have run: "tryReclaimSlab i c s = Inr s'" using m'(1) by (simp add: tryReclaimSlab_def Let_def s'_def slab_at_def)
  have v: "base_ptr s' = base_ptr s" "max_slab_count s' = max_slab_count s" "owned_size s' = (owned_size s)(i := 0)"
    "slab_index s' = slab_index s" "live_in s' = live_in s" "slab_at s' = slab_at s" "carved s' = carved s"
    by (simp_all add: s'_def owned_size_def slab_index_def live_in_def slab_at_def carved_def fun_eq_iff)
  have cb: "p \<in> class_blocks s' d \<longleftrightarrow> p \<in> class_blocks s d \<and> slab_index s p \<noteq> i" for p d
    by (auto simp: class_blocks_iff v)
  have range: "?lo \<le> p \<and> p < ?lo + HUGE_PAGE_SIZE \<longleftrightarrow> slab_index s p = i" if "p \<in> class_blocks s c" for p
    using that by (rule slab_range)
  have dead: "slab_index s p \<noteq> i" if "p \<in> L" for p using assms(5) that by (auto simp: live_in_def)
  have lists: "lists_inv s' (fl(c := ?ys)) L" unfolding lists_inv_def
  proof (intro allI impI)
    fix d assume d: "d < NUM_CLASSES"
    note D = lists_invD [OF I(5) d]
    show "class_block_size (classes s' d) = blk d \<and> linked (next_of s') (free_list (classes s' d)) (free_list_tail (classes s' d)) ((fl(c := ?ys)) d)
      \<and> distinct ((fl(c := ?ys)) d) \<and> set ((fl(c := ?ys)) d) = class_blocks s' d - L"
    proof (cases "d = c")
      case True
      have "set ?ys = {x \<in> class_blocks s c - L. slab_index s x \<noteq> i}"
        unfolding set_filter C(4) by (rule Collect_cong) (use range in blast)
      also have "\<dots> = class_blocks s' c - L" by (auto simp: cb)
      finally have "set ?ys = class_blocks s' c - L" .
      then show ?thesis using True m'(2) C(1,3) by (simp add: s'_def)
    next
      case False
      have "set (fl d) \<inter> set (fl c) = {}" using D(4) C(4) False class_blocks_disjoint [of _ s c d] by auto
      then have "linked (next_of s') a b (fl d) = linked (next_of s) a b (fl d)" for a b
        using m'(3,4) by (intro linked_frame) (auto simp: s'_def)
      moreover have "class_blocks s' d - L = class_blocks s d - L" using False assms(3) by (auto simp: class_blocks_iff v split: if_splits)
      ultimately show ?thesis using False D by (simp add: s'_def)
    qed
  qed
  have "region_inv s'" using I(1) by (simp add: region_inv_def v) (simp add: s'_def)
  moreover have "owner_inv s'"
  proof -
    have "i < carved s" "i \<notin> set (free_slab_pool s)" using I(2) assms(2,3) by (auto simp: owner_inv_def)
    moreover have "free_slab_pool s' = free_slab_pool s @ [i]" by (simp add: s'_def)
    ultimately show ?thesis using I(2) by (auto simp: owner_inv_def v)
  qed
  moreover have "target_inv s'"
  proof -
    have dt: "drain_target_idx (classes s' d) = (if d = c \<and> drain_target_idx (classes s c) = i then SIZE_MAX else drain_target_idx (classes s d))" for d
      by (simp add: s'_def)
    have fl: "is_drain_target (metadata s' j) = (j \<noteq> i \<and> is_drain_target (metadata s j))" for j by (simp add: s'_def)
    have other: "drain_target_idx (classes s d) \<noteq> i" if "d < NUM_CLASSES" "d \<noteq> c" "drain_target_idx (classes s d) \<noteq> SIZE_MAX" for d
      using I(3) that assms(3) by (auto simp: target_inv_def)
    have keeps: "\<exists>d<NUM_CLASSES. drain_target_idx (classes s' d) = j" if "j < max_slab_count s" "j \<noteq> i" "is_drain_target (metadata s j)" for j
      using I(3) that unfolding target_inv_def dt by metis
    show ?thesis using I(3) other keeps unfolding target_inv_def v by (auto simp: dt fl)
  qed
  moreover have "count_inv s' L"
  proof -
    have "live_count (metadata s' j) = live_count (metadata s j)" for j by (simp add: s'_def)
    moreover have "(\<Sum>p\<in>L. owned_size s' (slab_index s p)) = (\<Sum>p\<in>L. owned_size s (slab_index s p))"
      by (rule sum.cong) (use dead in \<open>simp_all add: v\<close>)
    ultimately show ?thesis using I(4) unfolding count_inv_def v by (simp add: v) (simp add: s'_def)
  qed
  moreover have "live_inv s' L" using I(6) dead unfolding live_inv_def by (fastforce simp: cb)
  ultimately have "slab_inv s' (fl(c := ?ys)) L" using lists by (simp add: slab_inv_def)
  moreover have "i \<in> set (free_slab_pool s')" by (simp add: s'_def)
  ultimately show ?thesis using that [OF run] v(1-3) by blast
qed

section \<open>Deallocation\<close>

lemma usage_ratio_defined: "\<exists>d. getUsageRatio s = Inr d"
proof (cases "total_capacity s = 0")
  case False
  then have "double_of_nat 1 \<le> double_of_nat (total_capacity s)" by (intro double_of_nat_mono) simp
  moreover have "double_of_nat 1 = 1" by (simp add: double_of_nat_def)
  ultimately show ?thesis using False by (simp add: getUsageRatio_def ddiv_def)
qed (simp add: getUsageRatio_def)

lemma same_slabs_trans: "same_slabs s s1 \<Longrightarrow> same_slabs s1 s2 \<Longrightarrow> same_slabs s s2"
  by (simp add: same_slabs_def)

text \<open>The end of the list is chosen, with or without a change of the slab that is being drained.\<close>

lemma choose_end:
  assumes "target_inv s" "i < max_slab_count s" "owned_size s i = blk c" "max_slab_count s < SIZE_MAX" "c < NUM_CLASSES"
  obtains sink s' where "(if 0 < live then bindR (getUsageRatio s) (\<lambda>global_util.
      if 1 / 2 \<le> global_util then select_drain_target c i live s else Inr (False, s)) else Inr (False, s)) = Inr (sink, s')"
    "same_slabs s s'" "target_inv s'" "\<forall>fl L. lists_inv s' fl L = lists_inv s fl L" "\<forall>L. count_inv s' L = count_inv s L"
proof -
  obtain d where d: "getUsageRatio s = Inr d" using usage_ratio_defined by blast
  obtain sink s' where sel: "select_drain_target c i live s = Inr (sink, s')" "same_slabs s s'" "target_inv s'"
    "\<forall>fl L. lists_inv s' fl L = lists_inv s fl L" "\<forall>L. count_inv s' L = count_inv s L" "sink \<longrightarrow> drain_target_idx (classes s' c) = i"
    "\<forall>j. live_count (metadata s' j) = live_count (metadata s j)"
    by (rule select_drain_target_inv [OF assms, of live])
  have "same_slabs s s" by (simp add: same_slabs_def)
  then show ?thesis using that [of False s] that [of sink s'] d sel assms(1) by (cases "0 < live \<and> 1 / 2 \<le> d") auto
qed

text \<open>Counting a block as freed and putting it on the list, in a state whose drain target may have changed.\<close>

lemma freed_inv:
  assumes "region_inv s" "owner_inv s" "target_inv s" "count_inv s (L - {p})" "lists_inv s fl L" "live_inv s L"
    "p \<in> L" "p \<in> class_blocks s c" "c < NUM_CLASSES" "p \<noteq> 0"
  obtains fl' where "slab_inv (if sink then push_tail c p s else push_head c p s) fl' (L - {p})"
    "same_slabs s (if sink then push_tail c p s else push_head c p s)"
proof -
  note P = push_inv [OF assms(5,9,8,7,10)]
  let ?s = "if sink then push_tail c p s else push_head c p s"
  have same: "same_slabs s ?s" using P(3,4) by simp
  have "target_inv ?s" using assms(3) by (subst target_cong [OF same]) (simp_all add: push_tail_def push_head_def Let_def)
  moreover have "count_inv ?s (L - {p})" using assms(4) by (subst count_cong [OF same]) (simp_all add: push_tail_def push_head_def Let_def)
  moreover obtain fl' where "lists_inv ?s fl' (L - {p})" using P(1,2) by (cases sink) auto
  moreover have "live_inv ?s (L - {p})" using assms(6) same_slabs_views(4) [OF same] by (auto simp: live_inv_def)
  ultimately have "slab_inv ?s fl' (L - {p})" using assms(1,2) same_slabs_views(1,2) [OF same] by (simp add: slab_inv_def)
  then show ?thesis using same by (rule that)
qed

lemma do_deallocate_inv:
  assumes "slab_inv s fl L" "p \<in> L" "p \<in> class_blocks s c" "c < NUM_CLASSES" "GetClassIndex bytes = Inr c" "unat bytes \<le> MAX_BLOCK_SIZE"
  obtains s' fl' where "do_deallocate p bytes s = Inr s'" "slab_inv s' fl' (L - {p})"
    "live_in s L (slab_index s p) = {p} \<longrightarrow> slab_index s p \<in> set (free_slab_pool s') \<and> owned_size s' (slab_index s p) = 0"
    "live_in s L (slab_index s p) \<noteq> {p} \<longrightarrow> same_slabs s s'" "\<forall>q d. q \<in> L - {p} \<longrightarrow> q \<in> class_blocks s d \<longrightarrow> q \<in> class_blocks s' d"
proof -
  have I: "region_inv s" "owner_inv s" "target_inv s" "count_inv s L" "lists_inv s fl L" "live_inv s L"
    using assms(1) by (simp_all add: slab_inv_def)
  let ?i = "slab_index s p" and ?L = "L - {p}"
  note place = class_block_place [OF assms(3)]
  have p0: "p \<noteq> 0" using place(3) I(1) by (auto simp: region_inv_def)
  have bc: "class_block_size (classes s c) = blk c" using lists_invD(1) [OF I(5) assms(4)] .
  define s1 where "s1 = s\<lparr>bytes_in_use := fetch_sub (bytes_in_use s) (blk c),
    metadata := (metadata s)(?i := (metadata s ?i)\<lparr>live_count := fetch_sub (live_count (metadata s ?i)) 1\<rparr>)\<rparr>"
  have same1: "same_slabs s s1" by (simp add: same_slabs_def s1_def owned_size_def)
  note v1 = same_slabs_views [OF same1]
  have c1: "count_inv s1 ?L" by (rule count_remove [OF I(4,6) assms(2) place(1) same1]) (simp_all add: s1_def place(2))
  have l1: "lists_inv s1 fl L" using I(5) by (subst lists_cong [OF same1]) (simp_all add: s1_def)
  have t1: "target_inv s1" using I(3) by (subst target_cong [OF same1]) (simp_all add: s1_def)
  have prev: "live_count (metadata s ?i) = card (live_in s L ?i)" using I(4) place(1) by (simp add: count_inv_def)
  have max: "max_slab_count s < SIZE_MAX" using I(1) by (simp add: region_inv_def)
  obtain sink s2 where s2: "(if 0 < live_count (metadata s ?i) - 1 then bindR (getUsageRatio s1) (\<lambda>global_util.
      if 1 / 2 \<le> global_util then select_drain_target c ?i (live_count (metadata s ?i) - 1) s1 else Inr (False, s1)) else Inr (False, s1)) = Inr (sink, s2)"
    "same_slabs s1 s2" "target_inv s2" "\<forall>fl L. lists_inv s2 fl L = lists_inv s1 fl L" "\<forall>L. count_inv s2 L = count_inv s1 L"
    by (rule choose_end [OF t1, of ?i c "live_count (metadata s ?i) - 1"]) (use place max assms(4) in \<open>simp_all add: v1\<close>)
  let ?s3 = "if sink then push_tail c p s2 else push_head c p s2"
  note same2 = same_slabs_trans [OF same1 s2(2)]
  note v2 = same_slabs_views [OF same2]
  obtain fl3 where s3: "slab_inv ?s3 fl3 ?L" "same_slabs s2 ?s3"
    by (rule freed_inv [of s2 L p fl c sink]) (use I s2 c1 l1 assms p0 in \<open>simp_all add: v2\<close>)
  note same3 = same_slabs_trans [OF same2 s3(2)]
  note v3 = same_slabs_views [OF same3]
  have run: "do_deallocate p bytes s = (if live_count (metadata s ?i) = 1 then tryReclaimSlab ?i c ?s3 else Inr ?s3)"
  proof -
    have "(p = 0) = False" "(MAX_BLOCK_SIZE < unat bytes) = False" "(p < base_ptr s \<or> max_slab_count s \<le> ?i) = False"
      using p0 assms(6) place by simp_all
    then show ?thesis by (simp only: do_deallocate_def Let_def if_False assms(5) bindR_Inr bc s1_def [symmetric] s2(1) prod.case)
  qed
  have fin: "finite (live_in s L ?i)" "p \<in> live_in s L ?i" using finite_live [OF I(6)] assms(2) by (simp_all add: live_in_def)
  have one: "live_count (metadata s ?i) = 1 \<longleftrightarrow> live_in s L ?i = {p}"
    using fin prev by (metis card_1_singletonE card_insert_disjoint card.empty finite.emptyI insert_absorb insert_not_empty One_nat_def singletonD)
  show ?thesis
  proof (cases "live_in s L ?i = {p}")
    case True
    have "live_in ?s3 ?L ?i = {}" unfolding v3 using True by (simp add: live_in_remove)
    then obtain s' fl' where s': "tryReclaimSlab ?i c ?s3 = Inr s'" "slab_inv s' fl' ?L" "?i \<in> set (free_slab_pool s')"
      "owned_size s' = (owned_size s)(?i := 0)" "base_ptr s' = base_ptr s" "max_slab_count s' = max_slab_count s"
      using tryReclaimSlab_inv [OF s3(1) _ _ assms(4), of ?i] place by (metis v3(7-9))
    have "q \<in> class_blocks s' d" if "q \<in> ?L" "q \<in> class_blocks s d" for q d
    proof -
      have "slab_index s q \<noteq> ?i" using True that(1) by (auto simp: live_in_def)
      then show ?thesis using that(2) s'(4-6) slab_index_cong [OF s'(5)] by (simp add: class_blocks_iff slab_at_def)
    qed
    then show ?thesis using that [of s' fl'] s' run one True by simp
  next
    case False
    then show ?thesis using that [of ?s3 fl3] run one s3(1) same3 by (simp add: v3(3))
  qed
qed

end
