(* ===== verification/SlabMemory.thy ===== *)
theory SlabMemory
  imports SlabRelease
begin

text \<open>
  What the slab allocator promises its clients: blocks that are large enough, apart from all other live
  blocks, until they are freed; failure only when the memory is exhausted; and honest accounting.
\<close>

section \<open>Allocation\<close>

text \<open>Counters other than those of the invariant are free to change.\<close>

lemma slab_inv_cong:
  assumes "same_slabs s s'" "classes s' = classes s" "metadata s' = metadata s" "next_of s' = next_of s" "bytes_in_use s' = bytes_in_use s"
  shows "slab_inv s' fl L = slab_inv s fl L"
proof -
  have "target_inv s' = target_inv s" by (rule target_cong [OF assms(1)]) (simp_all add: assms)
  moreover have "count_inv s' L = count_inv s L" by (rule count_cong [OF assms(1)]) (simp_all add: assms)
  moreover have "lists_inv s' fl L = lists_inv s fl L" by (rule lists_cong [OF assms(1)]) (simp_all add: assms)
  ultimately show ?thesis by (simp add: slab_inv_def same_slabs_views(1,2,4) [OF assms(1)])
qed

lemma rescue_counters:
  "slab_inv (s\<lparr>rescue_attempted_total := a\<rparr>) fl L = slab_inv s fl L"
  "slab_inv (s\<lparr>rescue_succeeded_total := a\<rparr>) fl L = slab_inv s fl L"
  by (rule slab_inv_cong; simp add: same_slabs_def owned_size_def)+

text \<open>A state with a free block serves the request from the head of the list.\<close>

lemma serve_block:
  assumes "slab_inv s fl L" "c < NUM_CLASSES" "fl c \<noteq> []"
  obtains p s' fl' where "pop_block c s = Inr (Block p, s')" "slab_inv s' fl' (insert p L)" "p \<notin> L" "p \<in> class_blocks s' c" "same_slabs s s'"
proof -
  obtain x xs where x: "fl c = x # xs" using assms(3) by (cases "fl c") auto
  show ?thesis using pop_block_inv [OF assms(1,2) x] that same_slabs_views(3) by metis
qed

lemma free_list_empty: "slab_inv s fl L \<Longrightarrow> c < NUM_CLASSES \<Longrightarrow> free_list (classes s c) = 0 \<longleftrightarrow> fl c = []"
  unfolding slab_inv_def by (elim conjE) (rule linked_empty(1) [OF lists_invD(2)])

definition rescue_ok :: "rescue_callback option \<Rightarrow> bool" where
  "rescue_ok rescue \<longleftrightarrow> (\<forall>callback s fl L. rescue = Some callback \<longrightarrow> slab_inv s fl L \<longrightarrow>
     (\<exists>rescued s' fl' L'. callback s = Inr (rescued, s') \<and> slab_inv s' fl' L' \<and> L' \<subseteq> L))"

lemma call_rescue_inv:
  assumes "rescue_ok rescue" "slab_inv s fl L"
  obtains s' fl' L' where "call_rescue rescue s = Inr s'" "slab_inv s' fl' L'" "L' \<subseteq> L" "rescue = None \<longrightarrow> s' = s \<and> L' = L \<and> fl' = fl"
proof (cases rescue)
  case None
  then show ?thesis using that [of s fl L] assms(2) by (simp add: call_rescue_def)
next
  case (Some callback)
  have "slab_inv (s\<lparr>rescue_attempted_total := fetch_add (rescue_attempted_total s) 1\<rparr>) fl L"
    using assms(2) by (simp only: rescue_counters)
  then obtain rescued s' fl' L' where "callback (s\<lparr>rescue_attempted_total := fetch_add (rescue_attempted_total s) 1\<rparr>) = Inr (rescued, s')"
    "slab_inv s' fl' L'" "L' \<subseteq> L"
    using assms(1) Some unfolding rescue_ok_def by metis
  then show ?thesis using that [of "if rescued then s'\<lparr>rescue_succeeded_total := fetch_add (rescue_succeeded_total s') 1\<rparr> else s'" fl' L'] Some
    by (simp add: call_rescue_def rescue_counters)
qed

text \<open>A slab is fetched when the list is empty; otherwise, or afterwards, there is a block.\<close>

lemma refill:
  assumes "slab_inv s fl L" "c < NUM_CLASSES" "fl c = []"
  shows "allocate_slab_for_class c s = Inr (False, s) \<and> free_slab_pool s = [] \<and> end_ptr s < current_ptr s + HUGE_PAGE_SIZE
    \<or> (\<exists>s' fl'. allocate_slab_for_class c s = Inr (True, s') \<and> slab_inv s' fl' L \<and> fl' c \<noteq> [] \<and> grown s s')"
proof (cases "take_slab s")
  case None
  then show ?thesis using carve_inv [OF assms] by simp
next
  case (Some r)
  then obtain s' xs where s': "allocate_slab_for_class c s = Inr (True, s')" "xs \<noteq> []" "slab_inv s' (fl(c := xs)) L" "grown s s'"
    using carve_inv [OF assms] by auto
  have "(fl(c := xs)) c \<noteq> []" using s'(2) by simp
  then show ?thesis using s'(1,3,4) by blast
qed

lemma do_allocate_cases:
  assumes "slab_inv s fl L" "unat bytes \<le> MAX_BLOCK_SIZE" "al \<le> 8" "GetClassIndex bytes = Inr c" "c < NUM_CLASSES" "rescue_ok rescue"
  shows "do_allocate rescue bytes al s = Inl BadAlloc \<and> fl c = [] \<and> free_slab_pool s = [] \<and> end_ptr s < current_ptr s + HUGE_PAGE_SIZE
    \<or> (\<exists>s1 fl1 L1. do_allocate rescue bytes al s = pop_block c s1 \<and> slab_inv s1 fl1 L1 \<and> fl1 c \<noteq> [] \<and> L1 \<subseteq> L
         \<and> (rescue = None \<longrightarrow> L1 = L \<and> grown s s1))"
proof -
  have unfold: "do_allocate rescue bytes al s = bindR (if free_list (classes s c) \<noteq> 0 then Inr s
      else bindR (allocate_slab_for_class c s) (\<lambda>(ok, s). if ok then Inr s
        else bindR (call_rescue rescue s) (\<lambda>s. if free_list (classes s c) \<noteq> 0 then Inr s
          else bindR (allocate_slab_for_class c s) (\<lambda>(ok, s). if ok then Inr s else Inl BadAlloc)))) (pop_block c)"
    using assms(2-4) by (simp add: do_allocate_def)
  note empty = free_list_empty [OF _ assms(5)]
  have same: "grown s s" by (simp add: grown_def)
  consider (nonempty) "fl c \<noteq> []"
    | (carved) s' fl' where "fl c = []" "allocate_slab_for_class c s = Inr (True, s')" "slab_inv s' fl' L" "fl' c \<noteq> []" "grown s s'"
    | (exhausted) "fl c = []" "allocate_slab_for_class c s = Inr (False, s)" "free_slab_pool s = []" "end_ptr s < current_ptr s + HUGE_PAGE_SIZE"
    using refill [OF assms(1,5)] by blast
  then show ?thesis
  proof cases
    case nonempty
    then show ?thesis using unfold empty [OF assms(1)] assms(1) same by auto
  next
    case (carved s' fl')
    then show ?thesis using unfold empty [OF assms(1)] by auto
  next
    case exhausted
    obtain s2 fl2 L2 where s2: "call_rescue rescue s = Inr s2" "slab_inv s2 fl2 L2" "L2 \<subseteq> L" "rescue = None \<longrightarrow> s2 = s \<and> L2 = L \<and> fl2 = fl"
      by (rule call_rescue_inv [OF assms(6,1)])
    show ?thesis
    proof (cases "fl2 c = []")
      case True
      from refill [OF s2(2) assms(5) True] show ?thesis
      proof (elim disjE exE conjE)
        fix s' fl' assume "allocate_slab_for_class c s2 = Inr (True, s')" "slab_inv s' fl' L2" "fl' c \<noteq> []" "grown s2 s'"
        moreover from this have "do_allocate rescue bytes al s = pop_block c s'"
          using unfold empty [OF assms(1)] empty [OF s2(2)] exhausted s2(1) True by simp
        ultimately show ?thesis using s2(3,4) by blast
      qed (use unfold empty [OF assms(1)] empty [OF s2(2)] exhausted s2(1) True in simp)
    next
      case False
      then show ?thesis using unfold empty [OF assms(1)] empty [OF s2(2)] exhausted s2 by auto
    qed
  qed
qed

section \<open>The contract\<close>

text \<open>
  A pool of memory blocks, seen by a client that knows which blocks it holds: a request is served with a
  fresh block, blocks keep apart and keep their size while they are held, and a held block can be
  given back.
\<close>

locale memory_pool =
  fixes ok :: "'s \<Rightarrow> nat set \<Rightarrow> bool"
    and serves :: "'s \<Rightarrow> nat \<Rightarrow> 'r \<Rightarrow> bool"
    and extent :: "'s \<Rightarrow> nat \<Rightarrow> nat"
    and alloc :: "'r \<Rightarrow> 's \<Rightarrow> (nat \<times> 's) result"
    and release :: "nat \<Rightarrow> 'r \<Rightarrow> 's \<Rightarrow> 's result"
  assumes apart: "ok s L \<Longrightarrow> p \<in> L \<Longrightarrow> q \<in> L \<Longrightarrow> p < q \<Longrightarrow> p + extent s p \<le> q"
    and alloc_law: "ok s L \<Longrightarrow> alloc r s = Inr (p, s') \<Longrightarrow> p \<notin> L \<and> ok s' (insert p L) \<and> serves s' p r"
    and alloc_keeps: "ok s L \<Longrightarrow> alloc r s = Inr (p, s') \<Longrightarrow> q \<in> L \<Longrightarrow> serves s q r' \<Longrightarrow> serves s' q r' \<and> extent s' q = extent s q"
    and release_law: "ok s L \<Longrightarrow> p \<in> L \<Longrightarrow> serves s p r \<Longrightarrow> \<exists>s'. release p r s = Inr s' \<and> ok s' (L - {p})"
    and release_keeps: "ok s L \<Longrightarrow> p \<in> L \<Longrightarrow> serves s p r \<Longrightarrow> release p r s = Inr s' \<Longrightarrow> q \<in> L - {p} \<Longrightarrow> serves s q r'
      \<Longrightarrow> serves s' q r' \<and> extent s' q = extent s q"
begin

text \<open>A new block overlaps none of the blocks held before.\<close>

lemma alloc_apart:
  assumes "ok s L" "alloc r s = Inr (p, s')" "q \<in> L"
  shows "p + extent s' p \<le> q \<or> q + extent s' q \<le> p"
proof -
  have new: "p \<notin> L" "ok s' (insert p L)" using alloc_law [OF assms(1,2)] by simp_all
  then have "p < q \<or> q < p" using assms(3) by (metis linorder_neqE_nat)
  then show ?thesis using apart [OF new(2), of p q] apart [OF new(2), of q p] assms(3) by blast
qed

lemma alloc_release:
  assumes "ok s L" "alloc r s = Inr (p, s')"
  shows "\<exists>s''. release p r s' = Inr s'' \<and> ok s'' L"
  using release_law [of s' "insert p L" p r] alloc_law [OF assms] by simp

text \<open>Blocks may be given back in any order.\<close>

lemma release_release:
  assumes "ok s L" "p \<in> L" "q \<in> L" "p \<noteq> q" "serves s p r" "serves s q r'"
  shows "\<exists>s' s''. release p r s = Inr s' \<and> release q r' s' = Inr s'' \<and> ok s'' (L - {p, q})"
proof -
  obtain s' where s': "release p r s = Inr s'" "ok s' (L - {p})" using release_law [OF assms(1,2,5)] by blast
  have "serves s' q r'" using release_keeps [OF assms(1,2,5) s'(1) _ assms(6)] assms(3,4) by simp
  then obtain s'' where "release q r' s' = Inr s''" "ok s'' (L - {p} - {q})" using release_law [OF s'(2)] assms(3,4) by blast
  moreover have "L - {p} - {q} = L - {p, q}" by auto
  ultimately show ?thesis using s'(1) by metis
qed

end

text \<open>The slab allocator without rescue as such a pool; requests are sizes of at most 16 KB.\<close>

definition slab_ok :: "slab_allocator \<Rightarrow> nat set \<Rightarrow> bool" where
  "slab_ok s L \<longleftrightarrow> (\<exists>fl. slab_inv s fl L)"

definition block_extent :: "slab_allocator \<Rightarrow> nat \<Rightarrow> nat" where
  "block_extent s p = owned_size s (slab_index s p)"

definition serves_bytes :: "slab_allocator \<Rightarrow> nat \<Rightarrow> u64 \<Rightarrow> bool" where
  "serves_bytes s p bytes \<longleftrightarrow> unat bytes \<le> MAX_BLOCK_SIZE \<and> (\<exists>c. GetClassIndex bytes = Inr c \<and> p \<in> class_blocks s c)"

definition slab_alloc :: "u64 \<Rightarrow> slab_allocator \<Rightarrow> (nat \<times> slab_allocator) result" where
  "slab_alloc bytes s =
     bindR (do_allocate None bytes 8 s) (\<lambda>(a, s'). case a of Block p \<Rightarrow> Inr (p, s') | NewDelete \<Rightarrow> Inl InvalidArgument)"

lemma live_block:
  assumes "slab_ok s L" "p \<in> L"
  obtains c where "c < NUM_CLASSES" "p \<in> class_blocks s c"
proof -
  have "L \<subseteq> (\<Union>c < NUM_CLASSES. class_blocks s c)" using assms(1) by (auto simp: slab_ok_def slab_inv_def live_inv_def)
  then show ?thesis using assms(2) that by blast
qed

lemma extent_block: "p \<in> class_blocks s c \<Longrightarrow> block_extent s p = blk c"
  by (simp add: block_extent_def class_block_place(2))

lemma no_rescue: "rescue_ok None"
  by (simp add: rescue_ok_def)

lemma do_allocate_fresh:
  assumes "slab_ok s L" "unat bytes \<le> MAX_BLOCK_SIZE" "al \<le> 8" "rescue_ok rescue" "do_allocate rescue bytes al s \<noteq> Inl BadAlloc"
  obtains p s' L' where "do_allocate rescue bytes al s = Inr (Block p, s')" "L' \<subseteq> L" "p \<notin> L'" "slab_ok s' (insert p L')"
    "serves_bytes s' p bytes" "unat bytes \<le> block_extent s' p" "rescue = None \<longrightarrow> L' = L \<and> grown s s'"
proof -
  obtain fl where inv: "slab_inv s fl L" using assms(1) by (auto simp: slab_ok_def)
  obtain c where c: "GetClassIndex bytes = Inr c" "c < NUM_CLASSES" "unat bytes \<le> blk c" by (rule GetClassIndex_value [OF assms(2)])
  obtain s1 fl1 L1 where s1: "do_allocate rescue bytes al s = pop_block c s1" "slab_inv s1 fl1 L1" "fl1 c \<noteq> []" "L1 \<subseteq> L"
    "rescue = None \<longrightarrow> L1 = L \<and> grown s s1"
    using do_allocate_cases [OF inv assms(2,3) c(1,2) assms(4)] assms(5) by blast
  obtain p s' fl' where p: "pop_block c s1 = Inr (Block p, s')" "slab_inv s' fl' (insert p L1)" "p \<notin> L1" "p \<in> class_blocks s' c" "same_slabs s1 s'"
    by (rule serve_block [OF s1(2) c(2) s1(3)])
  have "serves_bytes s' p bytes" using p(4) c(1) assms(2) by (auto simp: serves_bytes_def)
  moreover have "unat bytes \<le> block_extent s' p" using c(3) extent_block [OF p(4)] by simp
  moreover have "slab_ok s' (insert p L1)" using p(2) by (auto simp: slab_ok_def)
  ultimately show ?thesis using that [of p s' L1] s1 p(1,3) same_grown [OF p(5)] grown_trans by metis
qed

interpretation slab_pool: memory_pool slab_ok serves_bytes block_extent slab_alloc do_deallocate
proof
  show "p + block_extent s p \<le> q" if h: "slab_ok s L" "p \<in> L" "q \<in> L" "p < q" for s L p q
  proof -
    obtain c where c: "p \<in> class_blocks s c" by (rule live_block [OF h(1,2)])
    obtain d where d: "q \<in> class_blocks s d" by (rule live_block [OF h(1,3)])
    show ?thesis using class_blocks_apart [OF c d h(4)] extent_block [OF c] by simp
  qed
  have fresh: "p \<notin> L \<and> slab_ok s' (insert p L) \<and> serves_bytes s' p r \<and> grown s s'" if h: "slab_ok s L" "slab_alloc r s = Inr (p, s')" for s L r p s'
  proof -
    have run: "do_allocate None r 8 s = Inr (Block p, s')" 
      using h(2) unfolding slab_alloc_def bindR_eq_Inr by (elim exE conjE) (case_tac x; case_tac a; simp)
    then have "unat r \<le> MAX_BLOCK_SIZE" by (auto simp: do_allocate_def split: if_splits)
    then obtain p' s'' L' where "do_allocate None r 8 s = Inr (Block p', s'')" "p' \<notin> L'" "slab_ok s'' (insert p' L')" "serves_bytes s'' p' r"
      "L' = L" "grown s s''"
      using do_allocate_fresh [OF h(1) _ _ no_rescue, of r 8] run by (metis Inr_not_Inl order_refl)
    then show ?thesis using run by simp
  qed
  then show "p \<notin> L \<and> slab_ok s' (insert p L) \<and> serves_bytes s' p r" if "slab_ok s L" "slab_alloc r s = Inr (p, s')" for s L r p s'
    using that by blast
  show "serves_bytes s' q r' \<and> block_extent s' q = block_extent s q"
    if "slab_ok s L" "slab_alloc r s = Inr (p, s')" "q \<in> L" "serves_bytes s q r'" for s L r p s' q r'
    using fresh [OF that(1,2)] that(4) grown_blocks extent_block unfolding serves_bytes_def by metis
  have freed: "\<exists>s'. do_deallocate p r s = Inr s' \<and> slab_ok s' (L - {p}) \<and> (\<forall>q d. q \<in> L - {p} \<longrightarrow> q \<in> class_blocks s d \<longrightarrow> q \<in> class_blocks s' d)"
    if h: "slab_ok s L" "p \<in> L" "serves_bytes s p r" for s L p r
  proof -
    obtain fl c where inv: "slab_inv s fl L" and c: "GetClassIndex r = Inr c" "p \<in> class_blocks s c" "unat r \<le> MAX_BLOCK_SIZE"
      using h(1,3) by (auto simp: slab_ok_def serves_bytes_def)
    have "c < NUM_CLASSES" using GetClassIndex_value [OF c(3)] c(1) by (metis sum.inject(2))
    then show ?thesis using do_deallocate_inv [OF inv h(2) c(2) _ c(1,3)] unfolding slab_ok_def by metis
  qed
  then show "\<exists>s'. do_deallocate p r s = Inr s' \<and> slab_ok s' (L - {p})" if "slab_ok s L" "p \<in> L" "serves_bytes s p r" for s L p r
    using that by blast
  show "serves_bytes s' q r' \<and> block_extent s' q = block_extent s q"
    if "slab_ok s L" "p \<in> L" "serves_bytes s p r" "do_deallocate p r s = Inr s'" "q \<in> L - {p}" "serves_bytes s q r'" for s L p r s' q r'
    using freed [OF that(1-3)] that(4-6) extent_block unfolding serves_bytes_def by (metis sum.inject(2))
qed

section \<open>Properties\<close>

lemma new_slab_ok:
  assumes "base \<noteq> 0" "HUGE_PAGE_SIZE \<le> total_size" "total_size < 2 ^ 64"
  obtains s where "newRecordCacheSlabAllocator base total_size memory = Inr s" "slab_ok s {}" "free_slab_pool s = []" "carved s = 0"
    "total_capacity s = total_size"
proof -
  obtain s where s: "newRecordCacheSlabAllocator base total_size memory = Inr s"
    using assms by (simp add: newRecordCacheSlabAllocator_def)
  have "total_size div HUGE_PAGE_SIZE < SIZE_MAX" using assms(3) by (simp add: HUGE_PAGE_SIZE_def SIZE_MAX_def)
  then have "slab_inv s (\<lambda>_. []) {}" using s assms(1)
    by (auto simp: newRecordCacheSlabAllocator_def slab_inv_def inv_defs slab_at_def carved_def owned_size_def live_in_def class_blocks_def linked_def
        blk_def MIN_BLOCK_SIZE_def BLOCK_STEP_def split: if_splits)
  moreover have "free_slab_pool s = []" "carved s = 0" "total_capacity s = total_size"
    using s by (auto simp: newRecordCacheSlabAllocator_def carved_def split: if_splits)
  ultimately show ?thesis using that [OF s] by (auto simp: slab_ok_def)
qed

text \<open>The bytes of the live blocks of one slab.\<close>

lemma slab_share:
  assumes "slab_ok s L"
  shows "(\<Sum>p\<in>live_in s L i. block_extent s p) \<le> HUGE_PAGE_SIZE"
proof (cases "live_in s L i = {}")
  case False
  then obtain q where q: "q \<in> L" "slab_index s q = i" by (auto simp: live_in_def)
  obtain c where c: "q \<in> class_blocks s c" by (rule live_block [OF assms q(1)])
  have size: "owned_size s i = blk c" using class_block_place(2) [OF c] q(2) by simp
  have sub: "live_in s L i \<subseteq> set (slab_blocks (slab_at s i) (blk c))"
  proof
    fix p assume p: "p \<in> live_in s L i"
    then obtain d where d: "p \<in> class_blocks s d" using live_block [OF assms] by (auto simp: live_in_def)
    then have "blk d = blk c" using class_block_place(2) [OF d] p size by (simp add: live_in_def)
    then show "p \<in> set (slab_blocks (slab_at s i) (blk c))" using d p by (simp add: class_blocks_iff live_in_def)
  qed
  have "(\<Sum>p\<in>live_in s L i. block_extent s p) = card (live_in s L i) * blk c"
    using size by (simp add: block_extent_def live_in_def)
  also have "card (live_in s L i) \<le> length (slab_blocks (slab_at s i) (blk c))"
    using card_mono [OF _ sub] card_length [of "slab_blocks (slab_at s i) (blk c)"] by simp
  then have "card (live_in s L i) * blk c \<le> HUGE_PAGE_SIZE div blk c * blk c" by (intro mult_right_mono) (simp_all add: slab_blocks_def)
  also have "\<dots> \<le> HUGE_PAGE_SIZE" by (rule div_times_less_eq_dividend)
  finally show ?thesis .
qed simp

text \<open>
  C8. A request of at most 16 KB that the slab allocator does not refuse gets a block that is large enough
  and overlaps no live block; every other live block stays live, except those that the rescue callback
  freed, and the invariant of the allocator holds again.\<close>

theorem slab_allocates_fresh:
  assumes "slab_ok s L" "unat bytes \<le> MAX_BLOCK_SIZE" "al \<le> 8" "rescue_ok rescue"
  shows "do_allocate rescue bytes al s = Inl BadAlloc \<or>
    (\<exists>p s' L'. do_allocate rescue bytes al s = Inr (Block p, s') \<and> L' \<subseteq> L \<and> (rescue = None \<longrightarrow> L' = L) \<and> slab_ok s' (insert p L')
       \<and> unat bytes \<le> block_extent s' p \<and> (\<forall>q\<in>L'. p + block_extent s' p \<le> q \<or> q + block_extent s' q \<le> p))"
proof (cases "do_allocate rescue bytes al s = Inl BadAlloc")
  case False
  then obtain p s' L' where p: "do_allocate rescue bytes al s = Inr (Block p, s')" "L' \<subseteq> L" "p \<notin> L'" "slab_ok s' (insert p L')"
    "serves_bytes s' p bytes" "unat bytes \<le> block_extent s' p" "rescue = None \<longrightarrow> L' = L \<and> grown s s'"
    by (rule do_allocate_fresh [OF assms])
  have "p + block_extent s' p \<le> q \<or> q + block_extent s' q \<le> p" if "q \<in> L'" for q
  proof -
    have "p < q \<or> q < p" using p(3) that by (metis linorder_neqE_nat)
    then show ?thesis using slab_pool.apart [OF p(4), of p q] slab_pool.apart [OF p(4), of q p] that by blast
  qed
  then show ?thesis using p by blast
qed simp

text \<open>A region of one slab.\<close>

lemma sample_region:
  obtains s where "newRecordCacheSlabAllocator 4096 HUGE_PAGE_SIZE (\<lambda>_. 0) = Inr s" "slab_ok s {}" "free_slab_pool s = []"
    "end_ptr s = current_ptr s + HUGE_PAGE_SIZE" "total_capacity s = HUGE_PAGE_SIZE"
proof -
  obtain s where s: "newRecordCacheSlabAllocator 4096 HUGE_PAGE_SIZE (\<lambda>_. 0) = Inr s" "slab_ok s {}" "free_slab_pool s = []"
    "carved s = 0" "total_capacity s = HUGE_PAGE_SIZE"
    by (rule new_slab_ok [of 4096 HUGE_PAGE_SIZE]) (simp_all add: HUGE_PAGE_SIZE_def)
  have "end_ptr s = current_ptr s + HUGE_PAGE_SIZE" using s(1) by (auto simp: newRecordCacheSlabAllocator_def split: if_splits)
  with s show ?thesis by (intro that)
qed

lemma sample_class: "GetClassIndex 100 = Inr 10" "unat (100 :: u64) \<le> MAX_BLOCK_SIZE"
  by (simp_all add: GetClassIndex_def align_up_def MAX_BLOCK_SIZE_def)

lemma sample_served:
  obtains s where "newRecordCacheSlabAllocator 4096 HUGE_PAGE_SIZE (\<lambda>_. 0) = Inr s" "slab_ok s {}" "do_allocate None 100 8 s \<noteq> Inl BadAlloc"
proof -
  obtain s where s: "newRecordCacheSlabAllocator 4096 HUGE_PAGE_SIZE (\<lambda>_. 0) = Inr s" "slab_ok s {}" "free_slab_pool s = []"
    "end_ptr s = current_ptr s + HUGE_PAGE_SIZE" by (rule sample_region)
  obtain fl where inv: "slab_inv s fl {}" using s(2) by (auto simp: slab_ok_def)
  have "(10 :: nat) < NUM_CLASSES" by (simp add: NUM_CLASSES_def MAX_BLOCK_SIZE_def MIN_BLOCK_SIZE_def BLOCK_STEP_def)
  then have "do_allocate None 100 8 s \<noteq> Inl BadAlloc"
    using do_allocate_cases [OF inv sample_class(2) _ sample_class(1) _ no_rescue, of 8] s(4) serve_block by (metis Inr_not_Inl less_irrefl order_refl)
  with s show ?thesis by (intro that)
qed

theorem slab_allocates_fresh_witness:
  "\<exists>s p s'. newRecordCacheSlabAllocator 4096 HUGE_PAGE_SIZE (\<lambda>_. 0) = Inr s \<and> do_allocate None 100 8 s = Inr (Block p, s')
     \<and> slab_ok s' {p} \<and> 100 \<le> block_extent s' p"
proof -
  obtain s where s: "newRecordCacheSlabAllocator 4096 HUGE_PAGE_SIZE (\<lambda>_. 0) = Inr s" "slab_ok s {}" "do_allocate None 100 8 s \<noteq> Inl BadAlloc"
    by (rule sample_served)
  then show ?thesis using slab_allocates_fresh [OF s(2) sample_class(2) order_refl no_rescue] by auto
qed

text \<open>
  C16. Freeing a live block with the size it was requested with always succeeds and leaves every other block
  live; when it was the last live block of its slab, the slab goes back to the pool that all size
  classes share, with none of its blocks left on a free list.\<close>

theorem slab_frees:
  assumes "slab_ok s L" "p \<in> L" "serves_bytes s p bytes"
  shows "\<exists>s'. do_deallocate p bytes s = Inr s' \<and> slab_ok s' (L - {p})
    \<and> (live_in s L (slab_index s p) = {p} \<longrightarrow> slab_index s p \<in> set (free_slab_pool s') \<and> owned_size s' (slab_index s p) = 0)"
proof -
  obtain fl c where inv: "slab_inv s fl L" and c: "GetClassIndex bytes = Inr c" "p \<in> class_blocks s c" "unat bytes \<le> MAX_BLOCK_SIZE"
    using assms(1,3) by (auto simp: slab_ok_def serves_bytes_def)
  have "c < NUM_CLASSES" using GetClassIndex_value [OF c(3)] c(1) by (metis sum.inject(2))
  then show ?thesis using do_deallocate_inv [OF inv assms(2) c(2) _ c(1,3)] unfolding slab_ok_def by metis
qed

text \<open>One block live in the sample region.\<close>

lemma sample_block:
  obtains s p where "slab_ok s {p}" "serves_bytes s p 100" "total_capacity s = HUGE_PAGE_SIZE"
proof -
  obtain s where s: "newRecordCacheSlabAllocator 4096 HUGE_PAGE_SIZE (\<lambda>_. 0) = Inr s" "slab_ok s {}" "do_allocate None 100 8 s \<noteq> Inl BadAlloc"
    by (rule sample_served)
  obtain p s' L' where p: "do_allocate None 100 8 s = Inr (Block p, s')" "L' \<subseteq> {}" "p \<notin> L'" "slab_ok s' (insert p L')"
    "serves_bytes s' p 100" "grown s s'"
    by (rule do_allocate_fresh [OF s(2) sample_class(2) order_refl no_rescue s(3)]) simp
  have "total_capacity s' = HUGE_PAGE_SIZE"
    using p(6) s(1) by (auto simp: grown_def newRecordCacheSlabAllocator_def split: if_splits)
  then show ?thesis using that p by simp
qed

theorem slab_frees_witness:
  "\<exists>s p s'. slab_ok s {p} \<and> do_deallocate p 100 s = Inr s' \<and> slab_ok s' {} \<and> free_slab_pool s' \<noteq> []"
proof -
  obtain s p where s: "slab_ok s {p}" "serves_bytes s p 100" by (rule sample_block)
  have "live_in s {p} (slab_index s p) = {p}" by (auto simp: live_in_def)
  then show ?thesis using slab_frees [OF s(1) singletonI s(2)] s(1) by fastforce
qed

text \<open>
  C17. Without a rescue callback the allocator refuses a request exactly when every block of its size class
  is live, no empty slab is pooled and the rest of the region is smaller than a slab.\<close>

theorem slab_exhaustion:
  assumes "slab_ok s L" "unat bytes \<le> MAX_BLOCK_SIZE" "al \<le> 8" "GetClassIndex bytes = Inr c"
  shows "do_allocate None bytes al s = Inl BadAlloc \<longleftrightarrow>
    class_blocks s c \<subseteq> L \<and> free_slab_pool s = [] \<and> end_ptr s < current_ptr s + HUGE_PAGE_SIZE"
proof -
  obtain fl where inv: "slab_inv s fl L" using assms(1) by (auto simp: slab_ok_def)
  have c: "c < NUM_CLASSES" using GetClassIndex_value [OF assms(2)] assms(4) by (metis sum.inject(2))
  have "set (fl c) = class_blocks s c - L" using inv c by (auto simp: slab_inv_def lists_inv_def)
  then have empty: "class_blocks s c \<subseteq> L \<longleftrightarrow> fl c = []" using set_empty [of "fl c"] by auto
  show ?thesis
  proof
    assume "do_allocate None bytes al s = Inl BadAlloc"
    moreover have False if "do_allocate None bytes al s = pop_block c s1" "slab_inv s1 fl1 L1" "fl1 c \<noteq> []" for s1 fl1 L1
      using serve_block [OF that(2) c that(3)] that(1) calculation by (metis Inr_not_Inl)
    ultimately show "class_blocks s c \<subseteq> L \<and> free_slab_pool s = [] \<and> end_ptr s < current_ptr s + HUGE_PAGE_SIZE"
      using do_allocate_cases [OF inv assms(2-4) c no_rescue] empty by blast
  next
    assume h: "class_blocks s c \<subseteq> L \<and> free_slab_pool s = [] \<and> end_ptr s < current_ptr s + HUGE_PAGE_SIZE"
    then have "allocate_slab_for_class c s = Inr (False, s)" by (simp add: allocate_slab_for_class_def take_slab_def)
    moreover have "free_list (classes s c) = 0" using free_list_empty [OF inv c] empty h by simp
    ultimately show "do_allocate None bytes al s = Inl BadAlloc" using assms(2-4) by (simp add: do_allocate_def call_rescue_def)
  qed
qed

theorem slab_exhaustion_witness:
  "\<exists>s. newRecordCacheSlabAllocator 4096 HUGE_PAGE_SIZE (\<lambda>_. 0) = Inr s \<and> do_allocate None 100 8 s \<noteq> Inl BadAlloc"
proof -
  obtain s where s: "newRecordCacheSlabAllocator 4096 HUGE_PAGE_SIZE (\<lambda>_. 0) = Inr s" "slab_ok s {}" "free_slab_pool s = []"
    "end_ptr s = current_ptr s + HUGE_PAGE_SIZE" by (rule sample_region)
  then show ?thesis using slab_exhaustion [OF s(2) sample_class(2) order_refl sample_class(1)] by auto
qed



end
