(* ===== verification/RecordCacheEntry.thy ===== *)
theory RecordCacheEntry
  imports NodeKeys SlabAllocator
begin

text \<open>
  \<open>RecordCacheEntry.hpp\<close>: an entry of the record cache with its state machine, and the memory of entries.
  An entry lives at an address; 0 is the null pointer; memory that holds no entry, because it was never
  constructed or has been freed, is \<open>None\<close>, so that every access through a dangling pointer is the error
  \<open>UseAfterFree\<close>. Lengths keep their 16 bits; the payload holds the key and then the value.
\<close>

section \<open>Entries\<close>

datatype RecordCacheType =
    ReadOnlyMode
  | WriteThroughMode
  | WriteBackMode
  | LogicallyDeletedButStillInHashTable
  | RemovedFromHashTableButWaitForPhysicalMemoryDeallocation
  | PromoteThreadHoldingThePosition

abbreviation Deleted :: RecordCacheType where "Deleted \<equiv> LogicallyDeletedButStillInHashTable"
abbreviation Removed :: RecordCacheType where "Removed \<equiv> RemovedFromHashTableButWaitForPhysicalMemoryDeallocation"
abbreviation Placeholder :: RecordCacheType where "Placeholder \<equiv> PromoteThreadHoldingThePosition"

record cache_entry =
  tx_ts :: u64
  last_modified_worker_id :: u16
  key_length :: u16
  value_length :: u16
  entry_type :: RecordCacheType
  visited :: bool
  update_during_promote :: bool
  next_entry :: nat
  payload :: bytes

text \<open>8 + 2 + 2 + 2 + 1 + 1 + 1 bytes, padding to the alignment of the pointer, and the pointer.\<close>

definition sizeof_RecordCacheEntry :: nat where "sizeof_RecordCacheEntry = 32"

definition getKeySpan :: "cache_entry \<Rightarrow> bytes" where
  "getKeySpan e = take (unat (key_length e)) (payload e)"

definition getValueSpan :: "cache_entry \<Rightarrow> bytes" where
  "getValueSpan e = take (unat (value_length e)) (drop (unat (key_length e)) (payload e))"

definition totalSizeForRecordCacheEntry :: "cache_entry \<Rightarrow> u64" where
  "totalSizeForRecordCacheEntry e = of_nat (sizeof_RecordCacheEntry + unat (key_length e) + unat (value_length e))"

definition isExpectedType :: "RecordCacheType \<Rightarrow> cache_entry \<Rightarrow> bool" where
  "isExpectedType expected_type e \<longleftrightarrow> entry_type e = expected_type"

definition setType :: "RecordCacheType \<Rightarrow> cache_entry \<Rightarrow> cache_entry" where
  "setType new_type e = e\<lparr>entry_type := new_type\<rparr>"

definition casType :: "RecordCacheType \<Rightarrow> RecordCacheType \<Rightarrow> cache_entry \<Rightarrow> bool \<times> cache_entry" where
  "casType expected_type new_type e =
     (if entry_type e = expected_type then (True, e\<lparr>entry_type := new_type\<rparr>) else (False, e))"

section \<open>Memory\<close>

type_synonym entry_mem = "nat \<Rightarrow> cache_entry option"

definition deref :: "entry_mem \<Rightarrow> nat \<Rightarrow> cache_entry result" where
  "deref m p = (case m p of None \<Rightarrow> Inl UseAfterFree | Some e \<Rightarrow> Inr e)"

definition update_entry :: "nat \<Rightarrow> (cache_entry \<Rightarrow> cache_entry) \<Rightarrow> entry_mem \<Rightarrow> entry_mem result" where
  "update_entry p f m = bindR (deref m p) (\<lambda>e. Inr (m(p \<mapsto> f e)))"

end
