(* ===== verification/EpochManager.thy ===== *)
theory EpochManager
  imports RecordCacheEntry
begin

text \<open>
  \<open>EpochManager.hpp\<close> and \<open>InvalidationQueue.hpp\<close>: the epochs that protect readers of the record cache from
  reclamation, and the queue of the entries that wait for it. Epochs are 64-bit counters; the array of
  worker epochs has one element per worker, and an access beyond it is the error \<open>OutOfRange\<close>.
\<close>

section \<open>Epochs\<close>

record thread_local_epoch =
  current_epoch :: nat
  active :: bool

record epoch_manager =
  global_epoch :: nat
  worker_threads_epochs :: "thread_local_epoch list"
  total_workers_number :: nat

definition newEpochManager :: "nat \<Rightarrow> epoch_manager" where
  "newEpochManager workers_number = \<lparr>global_epoch = 0,
     worker_threads_epochs = replicate workers_number \<lparr>current_epoch = 0, active = False\<rparr>,
     total_workers_number = workers_number\<rparr>"

definition periodically_advance_global_epoch :: "epoch_manager \<Rightarrow> epoch_manager" where
  "periodically_advance_global_epoch em = em\<lparr>global_epoch := fetch_add (global_epoch em) 1\<rparr>"

text \<open>The three steps of a worker that enters, each of them one atomic access.\<close>

definition update_worker :: "nat \<Rightarrow> (thread_local_epoch \<Rightarrow> thread_local_epoch) \<Rightarrow> epoch_manager \<Rightarrow> epoch_manager" where
  "update_worker w f em = em\<lparr>worker_threads_epochs := (worker_threads_epochs em)[w := f (worker_threads_epochs em ! w)]\<rparr>"

definition tag_active :: "nat \<Rightarrow> epoch_manager \<Rightarrow> epoch_manager" where
  "tag_active w = update_worker w (\<lambda>t. t\<lparr>active := True\<rparr>)"

definition mark_snapshot :: "nat \<Rightarrow> nat \<Rightarrow> epoch_manager \<Rightarrow> epoch_manager" where
  "mark_snapshot w current_global_epoch = update_worker w (\<lambda>t. t\<lparr>current_epoch := current_global_epoch\<rparr>)"

definition worker_thread_enter_epoch :: "nat \<Rightarrow> epoch_manager \<Rightarrow> epoch_manager result" where
  "worker_thread_enter_epoch w em =
     (if length (worker_threads_epochs em) \<le> w then Inl OutOfRange
      else
        let em = tag_active w em;
            current_global_epoch = global_epoch em
        in Inr (mark_snapshot w current_global_epoch em))"

definition worker_thread_leave_epoch :: "nat \<Rightarrow> epoch_manager \<Rightarrow> epoch_manager result" where
  "worker_thread_leave_epoch w em =
     (if length (worker_threads_epochs em) \<le> w then Inl OutOfRange
      else Inr (update_worker w (\<lambda>t. t\<lparr>active := False\<rparr>) em))"

definition get_global_epoch :: "epoch_manager \<Rightarrow> nat" where
  "get_global_epoch em = global_epoch em"

text \<open>What the loop asks of one worker, and the loop over all of them.\<close>

definition worker_blocks :: "nat \<Rightarrow> thread_local_epoch \<Rightarrow> bool" where
  "worker_blocks target_epoch t \<longleftrightarrow> active t \<and> current_epoch t \<le> target_epoch"

fun safe_from :: "nat \<Rightarrow> nat \<Rightarrow> epoch_manager \<Rightarrow> nat \<Rightarrow> bool" where
  "safe_from target_epoch i em 0 = True"
| "safe_from target_epoch i em (Suc n) =
     (if worker_blocks target_epoch (worker_threads_epochs em ! i) then False
      else safe_from target_epoch (i + 1) em n)"

definition is_safe_to_invalidate :: "nat \<Rightarrow> epoch_manager \<Rightarrow> bool" where
  "is_safe_to_invalidate target_epoch em = safe_from target_epoch 0 em (total_workers_number em)"

section \<open>Invalidation queue\<close>

record invalidation_entry =
  entry_pointer :: nat
  update_epoch :: nat

type_synonym invalidation_queue = "invalidation_entry list"

definition push :: "nat \<Rightarrow> nat \<Rightarrow> invalidation_queue \<Rightarrow> invalidation_queue" where
  "push entry epoch q = q @ [\<lparr>entry_pointer = entry, update_epoch = epoch\<rparr>]"

definition pop_all :: "invalidation_queue \<Rightarrow> invalidation_queue \<times> invalidation_queue" where
  "pop_all q = (q, [])"

definition approximate_size :: "invalidation_queue \<Rightarrow> nat" where
  "approximate_size q = length q"

definition empty_queue :: "invalidation_queue \<Rightarrow> bool" where
  "empty_queue q \<longleftrightarrow> q = []"

end
