(* ===== verification/SieveFIFO.thy ===== *)
theory SieveFIFO
  imports RecordCacheEntry
begin

text \<open>
  \<open>SieveFIFO.hpp\<close>: the queue of the SIEVE eviction with its hand. The queue holds pointers, 0 where a
  rescue has cleared a slot; the visited bits are those of the entries in memory. The callbacks of an
  eviction are optional, as in the code.
\<close>

record sieve_fifo =
  sieve_fifo_queue :: "nat list"
  hand_pointer :: nat

definition newSieveFIFOQueue :: sieve_fifo where
  "newSieveFIFOQueue = \<lparr>sieve_fifo_queue = [], hand_pointer = 0\<rparr>"

definition InsertIntoSieveFIFO :: "nat \<Rightarrow> sieve_fifo \<Rightarrow> entry_mem \<Rightarrow> (sieve_fifo \<times> entry_mem) result" where
  "InsertIntoSieveFIFO entry q m =
     (if entry = 0 then Inr (q, m)
      else bindR (update_entry entry (\<lambda>e. e\<lparr>visited := False\<rparr>) m) (\<lambda>m.
        Inr (q\<lparr>sieve_fifo_queue := sieve_fifo_queue q @ [entry]\<rparr>, m)))"

definition ReInsertIntoSieveFIFO :: "nat \<Rightarrow> sieve_fifo \<Rightarrow> sieve_fifo" where
  "ReInsertIntoSieveFIFO entry q =
     (if entry = 0 then q else q\<lparr>sieve_fifo_queue := sieve_fifo_queue q @ [entry]\<rparr>)"

definition OnSieveFIFOAccess :: "nat \<Rightarrow> entry_mem \<Rightarrow> entry_mem result" where
  "OnSieveFIFOAccess entry m =
     (if entry = 0 then Inr m else update_entry entry (\<lambda>e. e\<lparr>visited := True\<rparr>) m)"

section \<open>The hand\<close>

definition eraseElementAtHandPosition :: "sieve_fifo \<Rightarrow> sieve_fifo" where
  "eraseElementAtHandPosition q =
     (if sieve_fifo_queue q = [] then q\<lparr>hand_pointer := 0\<rparr>
      else
        let h = hand_pointer q;
            rest = take h (sieve_fifo_queue q) @ drop (h + 1) (sieve_fifo_queue q)
        in if rest = [] then \<lparr>sieve_fifo_queue = rest, hand_pointer = 0\<rparr>
           else if length rest \<le> h then \<lparr>sieve_fifo_queue = rest, hand_pointer = 0\<rparr>
           else \<lparr>sieve_fifo_queue = rest, hand_pointer = h\<rparr>)"

definition advanceHandPointer :: "sieve_fifo \<Rightarrow> sieve_fifo" where
  "advanceHandPointer q =
     (if sieve_fifo_queue q = [] then q\<lparr>hand_pointer := 0\<rparr>
      else q\<lparr>hand_pointer := (hand_pointer q + 1) mod length (sieve_fifo_queue q)\<rparr>)"

section \<open>Eviction\<close>

record sieve_callbacks =
  tryMarkEvictable :: "(cache_entry \<Rightarrow> bool) option"
  onVictimChosen :: "(nat \<Rightarrow> entry_mem \<Rightarrow> entry_mem) option"
  shouldForceEvict :: "(nat \<Rightarrow> bool) option"

fun evict_scan :: "nat \<Rightarrow> sieve_callbacks \<Rightarrow> sieve_fifo \<Rightarrow> entry_mem \<Rightarrow> (nat \<times> sieve_fifo \<times> entry_mem) result" where
  "evict_scan 0 cb q m = Inr (0, q, m)"
| "evict_scan (Suc scans) cb q m =
     (if sieve_fifo_queue q = [] then Inr (0, q, m)
      else
        let q = (if length (sieve_fifo_queue q) \<le> hand_pointer q then q\<lparr>hand_pointer := 0\<rparr> else q);
            current_entry = sieve_fifo_queue q ! hand_pointer q
        in if current_entry = 0 then evict_scan scans cb (eraseElementAtHandPosition q) m
           else bindR (deref m current_entry) (\<lambda>e.
             let force_evict = (case shouldForceEvict cb of None \<Rightarrow> False | Some f \<Rightarrow> f current_entry);
                 was_visited = visited e;
                 e = e\<lparr>visited := False\<rparr>;
                 m = m(current_entry \<mapsto> e)
             in if was_visited \<and> \<not> force_evict then evict_scan scans cb (advanceHandPointer q) m
                else if (case tryMarkEvictable cb of None \<Rightarrow> False | Some f \<Rightarrow> \<not> f e)
                then evict_scan scans cb (ReInsertIntoSieveFIFO current_entry (eraseElementAtHandPosition q)) m
                else Inr (current_entry, eraseElementAtHandPosition q,
                       case onVictimChosen cb of None \<Rightarrow> m | Some f \<Rightarrow> f current_entry m)))"

definition evictOneFromSieveFIFO :: "sieve_callbacks \<Rightarrow> sieve_fifo \<Rightarrow> entry_mem \<Rightarrow> (nat \<times> sieve_fifo \<times> entry_mem) result" where
  "evictOneFromSieveFIFO cb q m =
     (if sieve_fifo_queue q = [] then Inr (0, q, m)
      else evict_scan (length (sieve_fifo_queue q) * 2) cb q m)"

section \<open>Draining and clearing\<close>

fun drain_loop :: "nat \<Rightarrow> entry_mem \<Rightarrow> nat list \<Rightarrow> nat list \<Rightarrow> nat list \<Rightarrow> (nat list \<times> nat list) result" where
  "drain_loop limit m victims kept [] = Inr (victims, kept)"
| "drain_loop limit m victims kept (entry # es) =
     (if entry = 0 then drain_loop limit m victims kept es
      else if length victims < limit
      then bindR (deref m entry) (\<lambda>e.
             if entry_type e = Removed then drain_loop limit m (victims @ [entry]) kept es
             else drain_loop limit m victims (kept @ [entry]) es)
      else drain_loop limit m victims (kept @ [entry]) es)"

definition drainStateRemovedOnly :: "nat \<Rightarrow> sieve_fifo \<Rightarrow> entry_mem \<Rightarrow> (nat list \<times> sieve_fifo) result" where
  "drainStateRemovedOnly limit q m =
     (if sieve_fifo_queue q = [] then Inr ([], q)
      else bindR (drain_loop limit m [] [] (sieve_fifo_queue q)) (\<lambda>(victims, kept).
        Inr (victims, \<lparr>sieve_fifo_queue = kept,
               hand_pointer = (if length kept \<le> hand_pointer q then 0 else hand_pointer q)\<rparr>)))"

definition in_slab :: "nat \<Rightarrow> nat \<Rightarrow> nat \<Rightarrow> bool" where
  "in_slab slab_base slab_end p \<longleftrightarrow> slab_base \<le> p \<and> p < slab_end"

definition markSlabEntriesAsNull :: "nat \<Rightarrow> nat \<Rightarrow> sieve_fifo \<Rightarrow> nat \<times> sieve_fifo" where
  "markSlabEntriesAsNull slab_base slab_end q =
     (length (filter (\<lambda>p. p \<noteq> 0 \<and> in_slab slab_base slab_end p) (sieve_fifo_queue q)),
      q\<lparr>sieve_fifo_queue := map (\<lambda>p. if p \<noteq> 0 \<and> in_slab slab_base slab_end p then 0 else p) (sieve_fifo_queue q)\<rparr>)"

end
