(* ===== verification/RecordCache.thy ===== *)
theory RecordCache
  imports EpochManager SieveFIFO
begin

text \<open>
  \<open>RecordCache.hpp\<close> and \<open>RecordCache.cpp\<close>: the sharded hash table of the record cache and the operations of
  the worker threads. A shard maps a key to the head of a chain of entries linked by \<open>next\<close>; it is an
  association list whose order stands for the unspecified iteration order of \<open>std::unordered_map\<close>. A walk
  along a chain that has a cycle does not return; every walk is a \<open>partial_function\<close> for that reason, and
  the error \<open>Diverges\<close> is that outcome. Locks and atomics are sequential updates within one operation.
  Requests of more than 16 KB come from \<open>new_delete_resource\<close>, a heap above the slabs that does not reuse
  addresses. The answer of \<open>isVisibleForMe\<close> of the concurrency control is a parameter.
\<close>

section \<open>State\<close>

record promote_request =
  req_key :: bytes
  req_bf :: nat
  req_pid :: u64
  req_slot_id :: u16
  req_key_length :: u16
  req_value_length :: u16
  req_is_urgent :: bool
  req_is_direct_update :: bool

record cache_counters =
  promote_rejected_high_water :: nat
  promote_alloc_failed :: nat
  promote_head_still_live :: nat
  promote_cxl_read_failed :: nat
  promote_success :: nat
  update_cancelled_placeholder :: nat
  promote_cancelled_before_publish :: nat
  update_skip_placeholder :: nat
  update_found_readonly_next :: nat
  update_no_updatable_readonly :: nat
  promote_enqueue_skipped_inflight :: nat
  promote_enqueue_skipped_queue_full :: nat
  direct_update_enqueued :: nat
  direct_update_skipped_inflight :: nat
  direct_update_skipped_queue_full :: nat
  direct_update_promote_success :: nat
  direct_update_head_still_live :: nat

type_synonym shard = "(bytes \<times> nat) list"

record record_cache =
  mem :: entry_mem
  hash_shards :: "nat \<Rightarrow> shard"
  num_of_shards :: nat
  allocator :: slab_allocator
  heap_top :: nat
  record_cache_total_size :: nat
  active_entry_count :: nat
  logical_capacity :: nat
  epochs :: epoch_manager
  inval_queue :: invalidation_queue
  sieve_eviction_entries :: nat
  pending_state_invalidated_from_hash :: nat
  counters :: cache_counters
  promote_request_message_queue :: "promote_request list"
  inflight_promote_keys :: "bytes set"
  sieve_fifo_of :: sieve_fifo

definition zero_counters :: cache_counters where
  "zero_counters = \<lparr>promote_rejected_high_water = 0, promote_alloc_failed = 0, promote_head_still_live = 0,
     promote_cxl_read_failed = 0, promote_success = 0, update_cancelled_placeholder = 0,
     promote_cancelled_before_publish = 0, update_skip_placeholder = 0, update_found_readonly_next = 0,
     update_no_updatable_readonly = 0, promote_enqueue_skipped_inflight = 0, promote_enqueue_skipped_queue_full = 0,
     direct_update_enqueued = 0, direct_update_skipped_inflight = 0, direct_update_skipped_queue_full = 0,
     direct_update_promote_success = 0, direct_update_head_still_live = 0\<rparr>"

definition kPromoteQueueDepthSoftLimit :: nat where "kPromoteQueueDepthSoftLimit = 65536"

definition newRecordCache :: "slab_allocator \<Rightarrow> nat \<Rightarrow> nat \<Rightarrow> record_cache" where
  "newRecordCache alloc shards_number workers_number = \<lparr>mem = (\<lambda>_. None), hash_shards = (\<lambda>_. []),
     num_of_shards = (if shards_number = 0 then 1 else shards_number), allocator = alloc, heap_top = end_ptr alloc,
     record_cache_total_size = 0, active_entry_count = 0, logical_capacity = 0,
     epochs = newEpochManager workers_number, inval_queue = [], sieve_eviction_entries = 0,
     pending_state_invalidated_from_hash = 0, counters = zero_counters, promote_request_message_queue = [],
     inflight_promote_keys = {}, sieve_fifo_of = newSieveFIFOQueue\<rparr>"

text \<open>An atomic increment of a diagnostic counter.\<close>

definition count_event :: "((nat \<Rightarrow> nat) \<Rightarrow> cache_counters \<Rightarrow> cache_counters) \<Rightarrow> record_cache \<Rightarrow> record_cache" where
  "count_event upd st = st\<lparr>counters := upd (\<lambda>n. fetch_add n 1) (counters st)\<rparr>"

definition ResetPromoteDiagCounters :: "record_cache \<Rightarrow> record_cache" where
  "ResetPromoteDiagCounters st = st\<lparr>counters := zero_counters\<rparr>"

definition IncrementPendingStateInvalidatedFromHash :: "record_cache \<Rightarrow> record_cache" where
  "IncrementPendingStateInvalidatedFromHash st =
     st\<lparr>pending_state_invalidated_from_hash := fetch_add (pending_state_invalidated_from_hash st) 1\<rparr>"

definition DecrementPendingStateInvalidatedFromHash :: "record_cache \<Rightarrow> record_cache" where
  "DecrementPendingStateInvalidatedFromHash st =
     st\<lparr>pending_state_invalidated_from_hash := fetch_sub (pending_state_invalidated_from_hash st) 1\<rparr>"

section \<open>Keys and shards\<close>

definition HashBytes :: "bytes \<Rightarrow> u64" where
  "HashBytes key = fold (\<lambda>b hash. (hash XOR ucast b) * 1099511628211) key 14695981039346656037"

text \<open>The two bytes of the table identifier in memory order.\<close>

definition dt_id_bytes :: "u16 \<Rightarrow> bytes" where
  "dt_id_bytes dt_id = [ucast dt_id, ucast (drop_bit 8 dt_id)]"

definition BuildPrefixedKey :: "bool \<Rightarrow> u16 \<Rightarrow> bytes \<Rightarrow> bytes" where
  "BuildPrefixedKey skip_dt_id_prefix dt_id key = (if skip_dt_id_prefix then key else dt_id_bytes dt_id @ key)"

definition BuildPrefixedKeyOwning :: "bool \<Rightarrow> u16 \<Rightarrow> bytes \<Rightarrow> bytes" where
  "BuildPrefixedKeyOwning skip_dt_id_prefix dt_id key = (if skip_dt_id_prefix then key else dt_id_bytes dt_id @ key)"

definition GetShardIndexFromHash :: "record_cache \<Rightarrow> u64 \<Rightarrow> nat" where
  "GetShardIndexFromHash st hash = unat hash mod num_of_shards st"

definition shard_of :: "record_cache \<Rightarrow> bytes \<Rightarrow> nat" where
  "shard_of st key = GetShardIndexFromHash st (HashBytes key)"

text \<open>\<open>find\<close>, \<open>emplace\<close> or assignment through an iterator, and \<open>erase\<close> of \<open>std::unordered_map\<close>.\<close>

definition find_head :: "record_cache \<Rightarrow> bytes \<Rightarrow> nat option" where
  "find_head st key = map_of (hash_shards st (shard_of st key)) key"

fun assign_key :: "bytes \<Rightarrow> nat \<Rightarrow> shard \<Rightarrow> shard" where
  "assign_key key p [] = [(key, p)]"
| "assign_key key p ((k, q) # al) = (if k = key then (k, p) # al else (k, q) # assign_key key p al)"

definition erase_key :: "bytes \<Rightarrow> shard \<Rightarrow> shard" where
  "erase_key key al = filter (\<lambda>(k, _). k \<noteq> key) al"

definition put_head :: "bytes \<Rightarrow> nat \<Rightarrow> record_cache \<Rightarrow> record_cache" where
  "put_head key p st =
     (let i = shard_of st key in st\<lparr>hash_shards := (hash_shards st)(i := assign_key key p (hash_shards st i))\<rparr>)"

definition drop_head :: "bytes \<Rightarrow> record_cache \<Rightarrow> record_cache" where
  "drop_head key st =
     (let i = shard_of st key in st\<lparr>hash_shards := (hash_shards st)(i := erase_key key (hash_shards st i))\<rparr>)"

section \<open>Walks along a chain\<close>

definition run_walk :: "'a result option \<Rightarrow> 'a result" where
  "run_walk r = (case r of None \<Rightarrow> Inl Diverges | Some x \<Rightarrow> x)"

partial_function (option) count_walk :: "entry_mem \<Rightarrow> nat \<Rightarrow> nat \<Rightarrow> nat result option" where
  "count_walk m counted cur =
     (if cur = 0 then Some (Inr counted)
      else case m cur of None \<Rightarrow> Some (Inl UseAfterFree)
         | Some e \<Rightarrow> count_walk m (counted + 1) (next_entry e))"

partial_function (option) lookup_walk :: "(u16 \<Rightarrow> u64 \<Rightarrow> bool) \<Rightarrow> entry_mem \<Rightarrow> nat \<Rightarrow> nat result option" where
  "lookup_walk visible m entry =
     (if entry = 0 then Some (Inr 0)
      else case m entry of None \<Rightarrow> Some (Inl UseAfterFree)
         | Some e \<Rightarrow>
             if entry_type e = ReadOnlyMode \<and> visible (last_modified_worker_id e) (tx_ts e) then Some (Inr entry)
             else lookup_walk visible m (next_entry e))"

text \<open>The unlinking of one entry from its chain: found or not, the memory and the head afterwards.\<close>

partial_function (option) unlink_walk :: "nat \<Rightarrow> entry_mem \<Rightarrow> nat \<Rightarrow> nat \<Rightarrow> nat \<Rightarrow> (bool \<times> entry_mem \<times> nat) result option" where
  "unlink_walk target m first prev cur =
     (if cur = 0 then Some (Inr (False, m, first))
      else case m cur of None \<Rightarrow> Some (Inl UseAfterFree)
         | Some e \<Rightarrow>
             if cur = target then
               Some (bindR (if prev = 0 then Inr (m, next_entry e)
                            else bindR (update_entry prev (\<lambda>e'. e'\<lparr>next_entry := next_entry e\<rparr>) m) (\<lambda>m. Inr (m, first)))
                 (\<lambda>(m, first). bindR (update_entry cur (\<lambda>e. e\<lparr>next_entry := 0\<rparr>) m) (\<lambda>m. Inr (True, m, first))))
             else unlink_walk target m first cur (next_entry e))"

definition unlink_entry :: "nat \<Rightarrow> bytes \<Rightarrow> record_cache \<Rightarrow> (bool \<times> record_cache) result" where
  "unlink_entry target key st =
     (case find_head st key of
        None \<Rightarrow> Inr (False, st)
      | Some first \<Rightarrow>
          bindR (run_walk (unlink_walk target (mem st) first 0 first)) (\<lambda>(removed, m, first).
            let st = st\<lparr>mem := m\<rparr>
            in Inr (removed, if \<not> removed then st else if first = 0 then drop_head key st else put_head key first st)))"

section \<open>Operations of the hash table\<close>

definition GetFromRecordCache :: "bytes \<Rightarrow> record_cache \<Rightarrow> nat" where
  "GetFromRecordCache key st = (case find_head st key of None \<Rightarrow> 0 | Some p \<Rightarrow> p)"

definition InsertOrAssignInRecordCache :: "bytes \<Rightarrow> nat \<Rightarrow> record_cache \<Rightarrow> (bool \<times> record_cache) result" where
  "InsertOrAssignInRecordCache key entry st =
     (case find_head st key of
        Some _ \<Rightarrow> Inr (False, st)
      | None \<Rightarrow>
          bindR (update_entry entry (\<lambda>e. e\<lparr>next_entry := 0\<rparr>) (mem st)) (\<lambda>m.
            let st = put_head key entry (st\<lparr>mem := m\<rparr>);
                st = st\<lparr>active_entry_count := fetch_add (active_entry_count st) 1\<rparr>
            in bindR (InsertIntoSieveFIFO entry (sieve_fifo_of st) (mem st)) (\<lambda>(q, m).
                 Inr (True, st\<lparr>sieve_fifo_of := q, mem := m\<rparr>))))"

definition EraseFromRecordCache :: "bytes \<Rightarrow> record_cache \<Rightarrow> bool \<times> record_cache" where
  "EraseFromRecordCache key st =
     (case find_head st key of None \<Rightarrow> (False, st) | Some _ \<Rightarrow> (True, drop_head key st))"

definition debugHashTableEntries :: "record_cache \<Rightarrow> nat result" where
  "debugHashTableEntries st =
     foldR (\<lambda>i total. foldR (\<lambda>(_, first) total. run_walk (count_walk (mem st) total first)) (hash_shards st i) total)
       [0..<num_of_shards st] 0"

definition SetRecordCacheSize :: "record_cache \<Rightarrow> record_cache result" where
  "SetRecordCacheSize st =
     bindR (foldR (\<lambda>i total. foldR (\<lambda>(_, first) total. run_walk (count_walk (mem st) total first)) (hash_shards st i) total)
       [0..<num_of_shards st] 0) (\<lambda>total. Inr (st\<lparr>record_cache_total_size := total\<rparr>))"

definition enterEpoch :: "nat \<Rightarrow> record_cache \<Rightarrow> record_cache result" where
  "enterEpoch worker_id st = bindR (worker_thread_enter_epoch worker_id (epochs st)) (\<lambda>em. Inr (st\<lparr>epochs := em\<rparr>))"

definition leaveEpoch :: "nat \<Rightarrow> record_cache \<Rightarrow> record_cache result" where
  "leaveEpoch worker_id st = bindR (worker_thread_leave_epoch worker_id (epochs st)) (\<lambda>em. Inr (st\<lparr>epochs := em\<rparr>))"

definition getCurrentEpoch :: "record_cache \<Rightarrow> nat" where
  "getCurrentEpoch st = get_global_epoch (epochs st)"

definition addToInvalidationQueue :: "nat \<Rightarrow> nat \<Rightarrow> record_cache \<Rightarrow> record_cache" where
  "addToInvalidationQueue entry epoch st = st\<lparr>inval_queue := push entry epoch (inval_queue st)\<rparr>"

definition GetRecordCacheFillRatio :: "record_cache \<Rightarrow> double result" where
  "GetRecordCacheFillRatio st =
     (if logical_capacity st = 0 then getUsageRatio (allocator st)
      else ddiv (double_of_nat (active_entry_count st)) (double_of_nat (logical_capacity st)))"

definition setLogicalCapacity :: "nat \<Rightarrow> record_cache \<Rightarrow> record_cache" where
  "setLogicalCapacity cap st = st\<lparr>logical_capacity := cap\<rparr>"

text \<open>An aligned size of 0 would be a division by zero.\<close>

definition setLogicalCapacityFromEntrySize :: "u64 \<Rightarrow> record_cache \<Rightarrow> record_cache result" where
  "setLogicalCapacityFromEntrySize avg_entry_bytes st =
     (if 0 < avg_entry_bytes then
        let aligned = getAlignedBlockSize avg_entry_bytes
        in if aligned = 0 then Inl Terminated
           else Inr (st\<lparr>logical_capacity := total_capacity (allocator st) div unat aligned\<rparr>)
      else Inr st)"

section \<open>Promotion requests\<close>

definition signalPromoteThread ::
    "bool \<Rightarrow> u16 \<Rightarrow> bytes \<Rightarrow> nat \<Rightarrow> u64 \<Rightarrow> u16 \<Rightarrow> u16 \<Rightarrow> bool \<Rightarrow> record_cache \<Rightarrow> bool \<times> record_cache" where
  "signalPromoteThread skip dt_id key bf pid slot_id val_length urgent st =
     (let prefixed_key = BuildPrefixedKeyOwning skip dt_id key
      in if kPromoteQueueDepthSoftLimit \<le> length (promote_request_message_queue st)
         then (False, count_event promote_enqueue_skipped_queue_full_update st)
         else if prefixed_key \<in> inflight_promote_keys st
         then (False, count_event promote_enqueue_skipped_inflight_update st)
         else (True, st\<lparr>inflight_promote_keys := insert prefixed_key (inflight_promote_keys st),
           promote_request_message_queue := promote_request_message_queue st @
             [\<lparr>req_key = prefixed_key, req_bf = bf, req_pid = pid, req_slot_id = slot_id,
               req_key_length = of_nat (length prefixed_key), req_value_length = val_length,
               req_is_urgent = urgent, req_is_direct_update = False\<rparr>]\<rparr>))"

definition signalDirectUpdatePromote ::
    "bool \<Rightarrow> u16 \<Rightarrow> bytes \<Rightarrow> nat \<Rightarrow> u64 \<Rightarrow> u16 \<Rightarrow> u16 \<Rightarrow> record_cache \<Rightarrow> bool \<times> record_cache" where
  "signalDirectUpdatePromote skip dt_id key bf pid slot_id val_length st =
     (let prefixed_key = BuildPrefixedKeyOwning skip dt_id key
      in if kPromoteQueueDepthSoftLimit \<le> length (promote_request_message_queue st)
         then (False, count_event direct_update_skipped_queue_full_update
                (count_event promote_enqueue_skipped_queue_full_update st))
         else if prefixed_key \<in> inflight_promote_keys st
         then (False, count_event direct_update_skipped_inflight_update
                (count_event promote_enqueue_skipped_inflight_update st))
         else (True, count_event direct_update_enqueued_update
           (st\<lparr>inflight_promote_keys := insert prefixed_key (inflight_promote_keys st),
             promote_request_message_queue := promote_request_message_queue st @
               [\<lparr>req_key = prefixed_key, req_bf = bf, req_pid = pid, req_slot_id = slot_id,
                 req_key_length = of_nat (length prefixed_key), req_value_length = val_length,
                 req_is_urgent = True, req_is_direct_update = True\<rparr>]\<rparr>)))"

section \<open>Lookup and update interceptors\<close>

text \<open>The value handed to the payload callback, if any.\<close>

definition tryLookupInRecordCache ::
    "bool \<Rightarrow> (u16 \<Rightarrow> u64 \<Rightarrow> bool) \<Rightarrow> u16 \<Rightarrow> bytes \<Rightarrow> nat \<Rightarrow> record_cache \<Rightarrow> (bytes option \<times> record_cache) result" where
  "tryLookupInRecordCache skip isVisibleForMe dt_id key worker_id st =
     bindR (enterEpoch worker_id st) (\<lambda>st.
     bindR (assertR (2 + length key \<le> 128)) (\<lambda>_.
     let prefixed_key = BuildPrefixedKey skip dt_id key
     in bindR (case find_head st prefixed_key of None \<Rightarrow> Inr 0
               | Some first \<Rightarrow> run_walk (lookup_walk isVisibleForMe (mem st) first)) (\<lambda>entry.
          if entry = 0 then bindR (leaveEpoch worker_id st) (\<lambda>st. Inr (None, st))
          else
            bindR (deref (mem st) entry) (\<lambda>e.
            bindR (OnSieveFIFOAccess entry (mem st)) (\<lambda>m.
            bindR (leaveEpoch worker_id (st\<lparr>mem := m\<rparr>)) (\<lambda>st. Inr (Some (getValueSpan e), st)))))))"

record updatable_lookup_result =
  target :: nat
  skipped_placeholder :: bool
  found_readonly_next :: bool

definition FindFirstUpdatableEntry :: "nat \<Rightarrow> entry_mem \<Rightarrow> (updatable_lookup_result \<times> entry_mem) result" where
  "FindFirstUpdatableEntry first m =
     (if first = 0 then Inr (\<lparr>target = 0, skipped_placeholder = False, found_readonly_next = False\<rparr>, m)
      else bindR (deref m first) (\<lambda>e.
        if entry_type e = ReadOnlyMode
        then Inr (\<lparr>target = first, skipped_placeholder = False, found_readonly_next = False\<rparr>, m)
        else
          let placeholder = (entry_type e = Placeholder);
              m = (if placeholder then m(first \<mapsto> e\<lparr>update_during_promote := True\<rparr>) else m);
              second = next_entry e
          in if second = 0 then Inr (\<lparr>target = 0, skipped_placeholder = placeholder, found_readonly_next = False\<rparr>, m)
             else bindR (deref m second) (\<lambda>e'.
               if entry_type e' = ReadOnlyMode
               then Inr (\<lparr>target = second, skipped_placeholder = placeholder, found_readonly_next = True\<rparr>, m)
               else Inr (\<lparr>target = 0, skipped_placeholder = placeholder, found_readonly_next = False\<rparr>, m))))"

definition tryUpdateAndInvalidateRecordCache ::
    "bool \<Rightarrow> u16 \<Rightarrow> bytes \<Rightarrow> nat \<Rightarrow> record_cache \<Rightarrow> (bool \<times> record_cache) result" where
  "tryUpdateAndInvalidateRecordCache skip dt_id key worker_id st =
     bindR (enterEpoch worker_id st) (\<lambda>st.
     bindR (assertR (2 + length key \<le> 128)) (\<lambda>_.
     let prefixed_key = BuildPrefixedKey skip dt_id key
     in bindR (case find_head st prefixed_key of
                 None \<Rightarrow> Inr (\<lparr>target = 0, skipped_placeholder = False, found_readonly_next = False\<rparr>, mem st)
               | Some first \<Rightarrow> FindFirstUpdatableEntry first (mem st)) (\<lambda>(res, m).
          let st = st\<lparr>mem := m\<rparr>;
              st = (if skipped_placeholder res then count_event update_skip_placeholder_update st else st);
              st = (if found_readonly_next res then count_event update_found_readonly_next_update st else st)
          in if target res = 0 then
               bindR (leaveEpoch worker_id (count_event update_no_updatable_readonly_update st)) (\<lambda>st. Inr (False, st))
             else
               bindR (deref (mem st) (target res)) (\<lambda>e.
               let (swapped, e) = casType ReadOnlyMode Deleted e
               in if swapped then
                    let st = st\<lparr>mem := (mem st)(target res \<mapsto> e)\<rparr>;
                        st = addToInvalidationQueue (target res) (getCurrentEpoch st) st
                    in bindR (leaveEpoch worker_id st) (\<lambda>st. Inr (True, st))
                  else bindR (leaveEpoch worker_id st) (\<lambda>st. Inr (False, st))))))"

end
