(* ===== verification/RecordCacheChains.thy ===== *)
theory RecordCacheChains
  imports RecordCache
begin

text \<open>
  Chains of entries as lists of addresses: the walks of the record cache along a chain that has no cycle
  return, and what they compute; the hash table as a map from keys to heads.
\<close>

section \<open>The table\<close>

lemma map_of_assign_key [simp]: "map_of (assign_key key p al) = (map_of al)(key \<mapsto> p)"
  by (induction key p al rule: assign_key.induct) auto

lemma map_of_erase_key [simp]: "map_of (erase_key key al) = (map_of al)(key := None)"
  by (induction al) (auto simp: erase_key_def)

lemma find_head_put [simp]: "find_head (put_head key p st) k = (if k = key then Some p else find_head st k)"
  by (auto simp: find_head_def put_head_def Let_def shard_of_def GetShardIndexFromHash_def)

lemma find_head_drop [simp]: "find_head (drop_head key st) k = (if k = key then None else find_head st k)"
  by (auto simp: find_head_def drop_head_def Let_def shard_of_def GetShardIndexFromHash_def)

lemma find_head_cong: "hash_shards st' = hash_shards st \<Longrightarrow> num_of_shards st' = num_of_shards st \<Longrightarrow> find_head st' = find_head st"
  by (simp add: find_head_def shard_of_def GetShardIndexFromHash_def fun_eq_iff)

lemma find_head_fields [simp]:
  "find_head (st\<lparr>mem := m\<rparr>) = find_head st"
  "find_head (st\<lparr>allocator := a\<rparr>) = find_head st"
  "find_head (st\<lparr>heap_top := h\<rparr>) = find_head st"
  "find_head (st\<lparr>active_entry_count := n\<rparr>) = find_head st"
  "find_head (st\<lparr>epochs := em\<rparr>) = find_head st"
  "find_head (st\<lparr>inval_queue := iq\<rparr>) = find_head st"
  "find_head (st\<lparr>sieve_eviction_entries := n\<rparr>) = find_head st"
  "find_head (st\<lparr>pending_state_invalidated_from_hash := n\<rparr>) = find_head st"
  "find_head (st\<lparr>counters := cs\<rparr>) = find_head st"
  "find_head (st\<lparr>sieve_fifo_of := q\<rparr>) = find_head st"
  by (simp_all add: find_head_def shard_of_def GetShardIndexFromHash_def fun_eq_iff)

lemma put_head_fields:
  "\<exists>h. put_head key p st = st\<lparr>hash_shards := h\<rparr>" "\<exists>h. drop_head key st = st\<lparr>hash_shards := h\<rparr>"
  by (auto simp: put_head_def drop_head_def Let_def)

lemma mem_put_head [simp]: "mem (put_head key p st) = mem st" "mem (drop_head key st) = mem st"
  by (simp_all add: put_head_def drop_head_def Let_def)

section \<open>Linked chains\<close>

fun links :: "entry_mem \<Rightarrow> nat \<Rightarrow> nat list \<Rightarrow> bool" where
  "links m p [] \<longleftrightarrow> p = 0"
| "links m p (q # qs) \<longleftrightarrow> p = q \<and> q \<noteq> 0 \<and> (\<exists>e. m q = Some e \<and> links m (next_entry e) qs)"

definition chain_head :: "nat list \<Rightarrow> nat" where
  "chain_head qs = (case qs of [] \<Rightarrow> 0 | q # _ \<Rightarrow> q)"

lemma chain_head_simps [simp]: "chain_head [] = 0" "chain_head (q # qs) = q"
  by (simp_all add: chain_head_def)

lemma chain_head_append: "chain_head (xs @ ys) = (if xs = [] then chain_head ys else chain_head xs)"
  by (cases xs) simp_all

lemma links_head: "links m p qs \<Longrightarrow> p = chain_head qs"
  by (cases qs) simp_all

lemma links_nonnull: "links m p qs \<Longrightarrow> 0 \<notin> set qs"
  by (induction qs arbitrary: p) auto

lemma links_mem: "links m p qs \<Longrightarrow> q \<in> set qs \<Longrightarrow> \<exists>e. m q = Some e"
  by (induction qs arbitrary: p) auto

lemma links_cong:
  "(\<And>q. q \<in> set qs \<Longrightarrow> map_option next_entry (m' q) = map_option next_entry (m q)) \<Longrightarrow> links m' p qs = links m p qs"
proof (induction qs arbitrary: p)
  case (Cons q qs)
  have "map_option next_entry (m' q) = map_option next_entry (m q)" using Cons.prems by simp
  then show ?case using Cons by (cases "m q"; cases "m' q") auto
qed simp

lemma links_append:
  "links m p (xs @ ys) \<longleftrightarrow> (if xs = [] then links m p ys
     else p = hd xs \<and> 0 \<notin> set xs \<and> (\<forall>i. Suc i < length xs \<longrightarrow> map_option next_entry (m (xs ! i)) = Some (xs ! Suc i))
       \<and> (\<exists>e. m (last xs) = Some e \<and> links m (next_entry e) ys))"
proof (induction xs arbitrary: p)
  case (Cons x xs)
  show ?case
  proof (cases "xs = []")
    case False
    then obtain y zs where xs: "xs = y # zs" by (cases xs) auto
    have "(\<forall>i. Suc i < length (x # xs) \<longrightarrow> map_option next_entry (m ((x # xs) ! i)) = Some ((x # xs) ! Suc i)) \<longleftrightarrow>
      map_option next_entry (m x) = Some y \<and> (\<forall>i. Suc i < length xs \<longrightarrow> map_option next_entry (m (xs ! i)) = Some (xs ! Suc i))"
      unfolding xs by (auto simp: nth_Cons split: nat.splits)
    moreover have "(\<exists>e. m x = Some e \<and> links m (next_entry e) (xs @ ys)) \<longleftrightarrow>
      map_option next_entry (m x) = Some y \<and> links m y (xs @ ys)"
      by (auto simp: xs)
    ultimately show ?thesis using Cons [of y] False by (auto simp: xs)
  qed auto
qed simp

section \<open>Walks\<close>

lemma lookup_walk_links:
  "links m p qs \<Longrightarrow>
    lookup_walk visible m p = Some (Inr (case find (\<lambda>q. \<exists>e. m q = Some e \<and> entry_type e = ReadOnlyMode
       \<and> visible (last_modified_worker_id e) (tx_ts e)) qs of None \<Rightarrow> 0 | Some q \<Rightarrow> q))"
  by (induction qs arbitrary: p) (auto simp: lookup_walk.simps)

lemma count_walk_links: "links m p qs \<Longrightarrow> count_walk m n p = Some (Inr (n + length qs))"
  by (induction qs arbitrary: p n) (auto simp: count_walk.simps)

text \<open>What is left of an entry when its link is forgotten.\<close>

definition content :: "entry_mem \<Rightarrow> entry_mem" where
  "content m p = map_option (\<lambda>e. e\<lparr>next_entry := 0\<rparr>) (m p)"

lemma content_eqD: "content m' p = content m p \<Longrightarrow> m p = Some e \<Longrightarrow> \<exists>n. m' p = Some (e\<lparr>next_entry := n\<rparr>)"
proof -
  assume a: "content m' p = content m p" "m p = Some e"
  then obtain e' where e': "m' p = Some e'" "e'\<lparr>next_entry := 0\<rparr> = e\<lparr>next_entry := 0\<rparr>" by (auto simp: content_def)
  then have "e' = (e\<lparr>next_entry := 0\<rparr>)\<lparr>next_entry := next_entry e'\<rparr>" by (metis cache_entry.surjective cache_entry.update_convs(8))
  then show ?thesis using e'(1) by auto
qed

lemma unlink_walk_skip:
  "links m cur (xs @ ys) \<Longrightarrow> t \<notin> set xs \<Longrightarrow>
    unlink_walk t m first prev cur = unlink_walk t m first (if xs = [] then prev else last xs) (chain_head ys)"
proof (induction xs arbitrary: cur prev)
  case Nil
  then show ?case using links_head by fastforce
next
  case (Cons x xs)
  then obtain e where e: "cur = x" "x \<noteq> 0" "m x = Some e" "links m (next_entry e) (xs @ ys)" "x \<noteq> t" by auto
  then have "unlink_walk t m first prev cur = unlink_walk t m first x (next_entry e)" by (subst unlink_walk.simps) simp
  also have "\<dots> = unlink_walk t m first (if xs = [] then x else last xs) (chain_head ys)" using Cons e by simp
  finally show ?case by simp
qed

lemma links_relink:
  assumes "links m p (pre @ t # post)" "distinct (pre @ t # post)" "pre \<noteq> []" "m (last pre) = Some d" "m t = Some e"
  shows "links (m(last pre \<mapsto> d\<lparr>next_entry := next_entry e\<rparr>, t \<mapsto> e\<lparr>next_entry := 0\<rparr>)) p (pre @ post)"
    (is "links ?m p (pre @ post)")
proof -
  have p: "p = hd pre" "0 \<notin> set pre" "\<forall>i. Suc i < length pre \<longrightarrow> map_option next_entry (m (pre ! i)) = Some (pre ! Suc i)"
    and post: "links m (next_entry e) post"
    using assms(1,3,5) unfolding links_append by auto
  have "last pre \<notin> set post" "t \<notin> set post" "last pre \<noteq> t" using assms(2,3) last_in_set by fastforce+
  moreover from this have "links ?m (next_entry e) post = links m (next_entry e) post" by (intro links_cong) auto
  ultimately have "links ?m (next_entry e) post" "?m (last pre) = Some (d\<lparr>next_entry := next_entry e\<rparr>)"
    using post by auto
  moreover have "map_option next_entry (?m (pre ! i)) = Some (pre ! Suc i)" if "Suc i < length pre" for i
  proof -
    have "pre ! i \<noteq> last pre" "pre ! i \<noteq> t"
      using assms(2,3) that by (auto simp: last_conv_nth nth_eq_iff_index_eq dest!: nth_mem [OF Suc_lessD])
    then show ?thesis using p(3) that by simp
  qed
  ultimately show ?thesis unfolding links_append using p(1,2) assms(3) by auto
qed

lemma unlink_walk_found:
  assumes l: "links m p (pre @ t # post)" and d: "distinct (pre @ t # post)" and e: "m t = Some e"
  shows "\<exists>m'. unlink_walk t m p 0 p = Some (Inr (True, m', chain_head (pre @ post)))
    \<and> links m' (chain_head (pre @ post)) (pre @ post) \<and> m' t = Some (e\<lparr>next_entry := 0\<rparr>)
    \<and> (\<forall>q. q \<noteq> t \<longrightarrow> content m' q = content m q) \<and> (\<forall>q. q \<notin> set (pre @ t # post) \<longrightarrow> m' q = m q)"
proof (cases "pre = []")
  case True
  then have t: "p = t" "t \<noteq> 0" "links m (next_entry e) post" using l e by auto
  have "unlink_walk t m p 0 p = Some (Inr (True, m(t \<mapsto> e\<lparr>next_entry := 0\<rparr>), next_entry e))"
    using t e by (subst unlink_walk.simps) (simp add: update_entry_def deref_def)
  moreover have "links (m(t \<mapsto> e\<lparr>next_entry := 0\<rparr>)) (next_entry e) post" using t(3) d by (subst links_cong) auto
  ultimately show ?thesis using True links_head [OF t(3)] e by (auto simp: content_def)
next
  case False
  then obtain c where c: "m (last pre) = Some c" using l links_mem [of m p _ "last pre"] by fastforce
  have "x \<noteq> 0 \<and> x \<noteq> t" if "x \<in> set pre" for x using that d links_nonnull [OF l] by auto
  from this [OF last_in_set [OF False]] have nz: "last pre \<noteq> 0" "last pre \<noteq> t" "t \<noteq> 0"
    using links_nonnull [OF l] by auto
  have "unlink_walk t m p 0 p = unlink_walk t m p (last pre) t"
    using unlink_walk_skip [OF l, of t] d False by simp
  also have "\<dots> = Some (Inr (True, m(last pre \<mapsto> c\<lparr>next_entry := next_entry e\<rparr>, t \<mapsto> e\<lparr>next_entry := 0\<rparr>), p))"
    using nz c e by (subst unlink_walk.simps) (simp add: update_entry_def deref_def)
  finally show ?thesis
    using links_relink [OF l d False c e] links_head [of _ p "pre @ post"] c e False
    by (auto simp: content_def chain_head_append)
qed

lemma unlink_walk_absent: "links m p qs \<Longrightarrow> t \<notin> set qs \<Longrightarrow> unlink_walk t m p 0 p = Some (Inr (False, m, p))"
  using unlink_walk_skip [of m p qs "[]" t p 0] by (simp add: unlink_walk.simps)

section \<open>The table and its chains\<close>

definition key_at :: "entry_mem \<Rightarrow> nat \<Rightarrow> bytes option" where
  "key_at m p = map_option getKeySpan (m p)"

definition type_at :: "entry_mem \<Rightarrow> nat \<Rightarrow> RecordCacheType option" where
  "type_at m p = map_option entry_type (m p)"

text \<open>\<open>C\<close> gives the chain of every key; entries of a chain have its key.\<close>

definition chains_of :: "record_cache \<Rightarrow> (bytes \<Rightarrow> nat list) \<Rightarrow> bool" where
  "chains_of st C \<longleftrightarrow> (\<forall>k. find_head st k = (if C k = [] then None else Some (chain_head (C k)))
     \<and> links (mem st) (chain_head (C k)) (C k) \<and> distinct (C k) \<and> (\<forall>p\<in>set (C k). key_at (mem st) p = Some k))"

lemma chainsD:
  assumes "chains_of st C"
  shows "find_head st k = (if C k = [] then None else Some (chain_head (C k)))"
    "links (mem st) (chain_head (C k)) (C k)" "distinct (C k)" "p \<in> set (C k) \<Longrightarrow> key_at (mem st) p = Some k"
    "p \<in> set (C k) \<Longrightarrow> p \<noteq> 0" "p \<in> set (C k) \<Longrightarrow> \<exists>e. mem st p = Some e \<and> getKeySpan e = k"
  using assms links_nonnull [of "mem st" "chain_head (C k)" "C k"] by (auto simp: chains_of_def key_at_def intro: gr0I)

lemma chains_key: "chains_of st C \<Longrightarrow> p \<in> set (C k) \<Longrightarrow> p \<in> set (C k') \<Longrightarrow> k' = k"
  using chainsD(4) by (metis option.inject)

lemma content_views:
  assumes "content m' p = content m p"
  shows "key_at m' p = key_at m p" "type_at m' p = type_at m p" "m' p = None \<longleftrightarrow> m p = None"
proof -
  have *: "key_at m p = key_at (content m) p" "type_at m p = type_at (content m) p" for m
    by (cases "m p"; simp add: key_at_def type_at_def content_def getKeySpan_def)+
  show "key_at m' p = key_at m p" "type_at m' p = type_at m p" 
    using assms * [of m] * [of m'] by (metis key_at_def type_at_def)+
  show "m' p = None \<longleftrightarrow> m p = None" using assms by (auto simp: content_def)
qed

lemma chains_cong:
  assumes "chains_of st C" "find_head st' = find_head st"
    "\<And>k p. p \<in> set (C k) \<Longrightarrow> map_option next_entry (mem st' p) = map_option next_entry (mem st p) \<and> key_at (mem st') p = key_at (mem st) p"
  shows "chains_of st' C"
  using assms links_cong [of "C k" "mem st'" "mem st" for k] by (auto simp: chains_of_def)

text \<open>The state after one chain was replaced; the other chains keep their links.\<close>

lemma chains_update:
  assumes c: "chains_of st C" and h: "\<And>k'. find_head st' k' = (if k' = k then (if qs = [] then None else Some (chain_head qs)) else find_head st k')"
    and q: "links (mem st') (chain_head qs) qs" "distinct qs" "\<And>p. p \<in> set qs \<Longrightarrow> key_at (mem st') p = Some k"
    and other: "\<And>k' p. k' \<noteq> k \<Longrightarrow> p \<in> set (C k') \<Longrightarrow>
      map_option next_entry (mem st' p) = map_option next_entry (mem st p) \<and> key_at (mem st') p = key_at (mem st) p"
  shows "chains_of st' (C(k := qs))"
proof -
  have "links (mem st') (chain_head (C k')) (C k') = links (mem st) (chain_head (C k')) (C k')" if "k' \<noteq> k" for k'
    using other [OF that] by (intro links_cong) auto
  then show ?thesis using c h q other by (auto simp: chains_of_def)
qed

lemma unlink_entry_found:
  assumes c: "chains_of st C" and p: "p \<in> set (C k)" and e: "mem st p = Some e"
  shows "\<exists>m h. unlink_entry p k st = Inr (True, st\<lparr>mem := m, hash_shards := h\<rparr>)
    \<and> chains_of (st\<lparr>mem := m, hash_shards := h\<rparr>) (C(k := remove1 p (C k))) \<and> m p = Some (e\<lparr>next_entry := 0\<rparr>)
    \<and> (\<forall>q. q \<noteq> p \<longrightarrow> content m q = content (mem st) q)"
proof -
  obtain pre post where s: "C k = pre @ p # post" using p by (meson split_list)
  then have d: "distinct (pre @ p # post)" using chainsD(3) [OF c, of k] by simp
  let ?qs = "pre @ post"
  have r: "remove1 p (C k) = ?qs" using d s by (simp add: remove1_append)
  have l: "links (mem st) (chain_head (C k)) (pre @ p # post)" using chainsD(2) [OF c, of k] s by simp
  obtain m where w: "unlink_walk p (mem st) (chain_head (C k)) 0 (chain_head (C k)) = Some (Inr (True, m, chain_head ?qs))"
    and m: "links m (chain_head ?qs) ?qs" "m p = Some (e\<lparr>next_entry := 0\<rparr>)" "\<forall>q. q \<noteq> p \<longrightarrow> content m q = content (mem st) q"
      "\<forall>q. q \<notin> set (C k) \<longrightarrow> m q = mem st q"
    using unlink_walk_found [OF l d e] s by metis
  let ?st = "st\<lparr>mem := m\<rparr>"
  let ?st' = "if chain_head ?qs = 0 then drop_head k ?st else put_head k (chain_head ?qs) ?st"
  have u: "unlink_entry p k st = Inr (True, ?st')"
    using chainsD(1) [OF c, of k] s w by (simp add: unlink_entry_def run_walk_def Let_def)
  obtain h where st': "?st' = st\<lparr>mem := m, hash_shards := h\<rparr>" 
    using put_head_fields(1) [of k "chain_head ?qs" ?st] put_head_fields(2) [of k ?st] by metis
  have mst: "mem ?st' = m" by simp
  have empty: "chain_head ?qs = 0 \<longleftrightarrow> ?qs = []" using links_nonnull [OF m(1)] by (cases ?qs) (auto simp: chain_head_def)
  have "chains_of ?st' (C(k := remove1 p (C k)))" unfolding r
  proof (rule chains_update [OF c])
    show "find_head ?st' k' = (if k' = k then (if ?qs = [] then None else Some (chain_head ?qs)) else find_head st k')" for k'
      unfolding empty by simp
    show "links (mem ?st') (chain_head ?qs) ?qs" unfolding mst by (rule m(1))
    show "distinct ?qs" using d by simp
    show "key_at (mem ?st') q = Some k" if "q \<in> set ?qs" for q
    proof -
      have "q \<noteq> p" "q \<in> set (C k)" using that d s by auto
      then show ?thesis using m(3) content_views(1) [of m q "mem st"] chainsD(4) [OF c] by simp
    qed
    show "map_option next_entry (mem ?st' q) = map_option next_entry (mem st q) \<and> key_at (mem ?st') q = key_at (mem st) q"
      if "k' \<noteq> k" "q \<in> set (C k')" for k' q
    proof -
      have "q \<notin> set (C k)" using chains_key [OF c] that by blast
      then show ?thesis unfolding mst using m(4) by (simp add: key_at_def)
    qed
  qed
  then have "chains_of (st\<lparr>mem := m, hash_shards := h\<rparr>) (C(k := remove1 p (C k)))" unfolding st' .
  then show ?thesis using u [unfolded st'] m(2,3) by blast
qed

lemma unlink_entry_absent:
  assumes "chains_of st C" "p \<notin> set (C k)"
  shows "unlink_entry p k st = Inr (False, st)"
  using chainsD(1,2) [OF assms(1), of k] unlink_walk_absent [OF _ assms(2)] by (simp add: unlink_entry_def run_walk_def)

end
