(* ===== verification/SieveScan.thy ===== *)
theory SieveScan
  imports SieveFIFO "HOL-Library.Multiset"
begin

text \<open>
  The eviction scan of \<open>SieveFIFO\<close>: it never fails on a queue of allocated entries, keeps every entry that is
  not its victim, and picks victims in second-chance order. Memories that differ in visited bits only
  are equal under \<open>unvisited\<close>.
\<close>

definition unvisited :: "entry_mem \<Rightarrow> entry_mem" where
  "unvisited m p = map_option (\<lambda>e. e\<lparr>visited := False\<rparr>) (m p)"

lemma unvisited_upd:
  "m p = Some e \<Longrightarrow> unvisited (m(p \<mapsto> e\<lparr>visited := b\<rparr>)) = unvisited m"
  by (auto simp: unvisited_def fun_eq_iff)

lemma unvisited_dom: "unvisited m' = unvisited m \<Longrightarrow> m' p = None \<longleftrightarrow> m p = None"
  by (metis map_option_is_None unvisited_def)

lemma unvisited_eqD:
  assumes "unvisited m' = unvisited m" "m p = Some e"
  shows "\<exists>b. m' p = Some (e\<lparr>visited := b\<rparr>)"
proof -
  have "unvisited m' p = unvisited m p" using assms(1) by simp
  then obtain e' where e': "m' p = Some e'" "e'\<lparr>visited := False\<rparr> = e\<lparr>visited := False\<rparr>"
    using assms(2) by (auto simp: unvisited_def)
  have "e' = e\<lparr>visited := visited e'\<rparr>" using e'(2) by (cases e; cases e') simp
  then have "m' p = Some (e\<lparr>visited := visited e'\<rparr>)" using e'(1) by simp
  then show ?thesis ..
qed

section \<open>The hand\<close>

definition hand_ok :: "sieve_fifo \<Rightarrow> bool" where
  "hand_ok q \<longleftrightarrow> hand_pointer q = 0 \<or> hand_pointer q < length (sieve_fifo_queue q)"

lemma erase_queue:
  assumes "hand_pointer q < length (sieve_fifo_queue q)"
  shows "sieve_fifo_queue (eraseElementAtHandPosition q) =
      take (hand_pointer q) (sieve_fifo_queue q) @ drop (Suc (hand_pointer q)) (sieve_fifo_queue q)"
  using assms by (auto simp: eraseElementAtHandPosition_def Let_def)

lemma erase_mset:
  assumes "hand_pointer q < length (sieve_fifo_queue q)"
  shows "mset (sieve_fifo_queue q) = add_mset (sieve_fifo_queue q ! hand_pointer q) (mset (sieve_fifo_queue (eraseElementAtHandPosition q)))"
  unfolding erase_queue [OF assms] by (subst (1) id_take_nth_drop [OF assms]) simp

lemma erase_hand_ok [simp]: "hand_ok (eraseElementAtHandPosition q)"
  by (auto simp: eraseElementAtHandPosition_def hand_ok_def Let_def)

lemma advance_hand_ok [simp]: "hand_ok (advanceHandPointer q)"
  by (auto simp: advanceHandPointer_def hand_ok_def)

lemma reinsert_hand_ok [simp]: "hand_ok q \<Longrightarrow> hand_ok (ReInsertIntoSieveFIFO p q)"
  by (auto simp: ReInsertIntoSieveFIFO_def hand_ok_def)

lemma advance_queue [simp]: "sieve_fifo_queue (advanceHandPointer q) = sieve_fifo_queue q"
  by (simp add: advanceHandPointer_def)

lemma reinsert_mset: "p \<noteq> 0 \<Longrightarrow> mset (sieve_fifo_queue (ReInsertIntoSieveFIFO p q)) = add_mset p (mset (sieve_fifo_queue q))"
  by (simp add: ReInsertIntoSieveFIFO_def)

text \<open>The hand brought back into the queue at the start of a step.\<close>

definition clamp_hand :: "sieve_fifo \<Rightarrow> sieve_fifo" where
  "clamp_hand q = (if length (sieve_fifo_queue q) \<le> hand_pointer q then q\<lparr>hand_pointer := 0\<rparr> else q)"

lemma clamp_hand_queue [simp]: "sieve_fifo_queue (clamp_hand q) = sieve_fifo_queue q"
  by (simp add: clamp_hand_def)

lemma clamp_hand_less: "sieve_fifo_queue q \<noteq> [] \<Longrightarrow> hand_pointer (clamp_hand q) < length (sieve_fifo_queue q)"
  by (simp add: clamp_hand_def)

section \<open>One step\<close>

definition forced :: "sieve_callbacks \<Rightarrow> nat \<Rightarrow> bool" where
  "forced cb p = (case shouldForceEvict cb of None \<Rightarrow> False | Some f \<Rightarrow> f p)"

definition evictable :: "sieve_callbacks \<Rightarrow> cache_entry \<Rightarrow> bool" where
  "evictable cb e = (case tryMarkEvictable cb of None \<Rightarrow> True | Some f \<Rightarrow> f (e\<lparr>visited := False\<rparr>))"

lemma not_evictable:
  "(case tryMarkEvictable cb of None \<Rightarrow> False | Some f \<Rightarrow> \<not> f (e\<lparr>visited := False\<rparr>)) \<longleftrightarrow> \<not> evictable cb e"
  by (simp add: evictable_def split: option.splits)

lemma evict_scan_unfold:
  "sieve_fifo_queue q \<noteq> [] \<Longrightarrow> evict_scan (Suc n) cb q m =
    (let p = sieve_fifo_queue (clamp_hand q) ! hand_pointer (clamp_hand q)
     in if p = 0 then evict_scan n cb (eraseElementAtHandPosition (clamp_hand q)) m
        else bindR (deref m p) (\<lambda>e.
          if visited e \<and> \<not> forced cb p then evict_scan n cb (advanceHandPointer (clamp_hand q)) (m(p \<mapsto> e\<lparr>visited := False\<rparr>))
          else if \<not> evictable cb e
          then evict_scan n cb (ReInsertIntoSieveFIFO p (eraseElementAtHandPosition (clamp_hand q))) (m(p \<mapsto> e\<lparr>visited := False\<rparr>))
          else Inr (p, eraseElementAtHandPosition (clamp_hand q),
                 case onVictimChosen cb of None \<Rightarrow> m(p \<mapsto> e\<lparr>visited := False\<rparr>) | Some f \<Rightarrow> f p (m(p \<mapsto> e\<lparr>visited := False\<rparr>)))))"
  unfolding evict_scan.simps(2) clamp_hand_def [symmetric] Let_def forced_def not_evictable by (simp only: if_False)

lemma evict_scan_step:
  assumes "sieve_fifo_queue q \<noteq> []" "sieve_fifo_queue q ! hand_pointer (clamp_hand q) = p"
  shows "p = 0 \<Longrightarrow> evict_scan (Suc n) cb q m = evict_scan n cb (eraseElementAtHandPosition (clamp_hand q)) m"
    and "p \<noteq> 0 \<Longrightarrow> m p = Some e \<Longrightarrow> evict_scan (Suc n) cb q m =
      (if visited e \<and> \<not> forced cb p then evict_scan n cb (advanceHandPointer (clamp_hand q)) (m(p \<mapsto> e\<lparr>visited := False\<rparr>))
       else if \<not> evictable cb e
       then evict_scan n cb (ReInsertIntoSieveFIFO p (eraseElementAtHandPosition (clamp_hand q))) (m(p \<mapsto> e\<lparr>visited := False\<rparr>))
       else Inr (p, eraseElementAtHandPosition (clamp_hand q),
              case onVictimChosen cb of None \<Rightarrow> m(p \<mapsto> e\<lparr>visited := False\<rparr>) | Some f \<Rightarrow> f p (m(p \<mapsto> e\<lparr>visited := False\<rparr>))))"
  unfolding evict_scan_unfold [OF assms(1)] clamp_hand_queue assms(2) Let_def by (simp_all add: deref_def)

declare evict_scan.simps(2) [simp del]

section \<open>What a scan keeps\<close>

definition allocated_queue :: "sieve_fifo \<Rightarrow> entry_mem \<Rightarrow> bool" where
  "allocated_queue q m \<longleftrightarrow> (\<forall>p\<in>set (sieve_fifo_queue q). p \<noteq> 0 \<longrightarrow> m p \<noteq> None)"

definition entries_of :: "sieve_fifo \<Rightarrow> nat multiset" where
  "entries_of q = filter_mset (\<lambda>p. p \<noteq> 0) (mset (sieve_fifo_queue q))"

definition scan_result :: "sieve_callbacks \<Rightarrow> sieve_fifo \<Rightarrow> entry_mem \<Rightarrow> nat \<times> sieve_fifo \<times> entry_mem \<Rightarrow> bool" where
  "scan_result cb q m = (\<lambda>(v, q', m'). unvisited m' = unvisited m \<and> hand_ok q' \<and> set (sieve_fifo_queue q') \<subseteq> set (sieve_fifo_queue q)
     \<and> entries_of q = entries_of q' + (if v = 0 then {#} else {#v#})
     \<and> (v \<noteq> 0 \<longrightarrow> (\<exists>e. m v = Some e \<and> evictable cb e)))"

lemma scan_result_trans:
  assumes "scan_result cb q1 m1 r" "entries_of q1 = entries_of q" "unvisited m1 = unvisited m"
    "set (sieve_fifo_queue q1) \<subseteq> set (sieve_fifo_queue q)"
  shows "scan_result cb q m r"
proof -
  have "\<exists>e. m v = Some e \<and> evictable cb e" if h: "m1 v = Some e" "evictable cb e" for v e
  proof -
    obtain b where "m v = Some (e\<lparr>visited := b\<rparr>)" using unvisited_eqD [OF assms(3) [symmetric] h(1)] by auto
    then show ?thesis using h(2) by (auto simp: evictable_def split: option.splits)
  qed
  then show ?thesis using assms by (fastforce simp: scan_result_def)
qed

lemma allocated_queue_mset:
  "entries_of q' = entries_of q \<Longrightarrow> unvisited m' = unvisited m \<Longrightarrow> allocated_queue q m \<Longrightarrow> allocated_queue q' m'"
proof -
  assume a: "entries_of q' = entries_of q" "unvisited m' = unvisited m" "allocated_queue q m"
  have "{p \<in> set (sieve_fifo_queue q'). p \<noteq> 0} = {p \<in> set (sieve_fifo_queue q). p \<noteq> 0}"
    using arg_cong [OF a(1), of set_mset] by (simp add: entries_of_def)
  then show ?thesis using a(2,3) unvisited_dom [OF a(2)] unfolding allocated_queue_def by blast
qed

lemma evict_scan_result:
  assumes "onVictimChosen cb = None"
  shows "allocated_queue q m \<Longrightarrow> hand_ok q \<Longrightarrow> \<exists>r. evict_scan n cb q m = Inr r \<and> scan_result cb q m r"
proof (induction n arbitrary: q m)
  case 0
  then show ?case by (simp add: scan_result_def)
next
  case (Suc n)
  show ?case
  proof (cases "sieve_fifo_queue q = []")
    case True
    then show ?thesis using Suc.prems by (simp add: scan_result_def evict_scan.simps(2))
  next
    case False
    let ?q = "clamp_hand q" and ?p = "sieve_fifo_queue q ! hand_pointer (clamp_hand q)"
    have less: "hand_pointer ?q < length (sieve_fifo_queue ?q)" using clamp_hand_less [OF False] by simp
    have ms: "mset (sieve_fifo_queue q) = add_mset ?p (mset (sieve_fifo_queue (eraseElementAtHandPosition ?q)))"
      using erase_mset [OF less] by simp
    have p: "?p \<in> set (sieve_fifo_queue q)" using less by simp
    have sub: "set (sieve_fifo_queue (eraseElementAtHandPosition ?q)) \<subseteq> set (sieve_fifo_queue q)"
      using arg_cong [OF ms, of set_mset] by auto
    have continue: "\<exists>r. evict_scan n cb q' m' = Inr r \<and> scan_result cb q m r"
      if "entries_of q' = entries_of q" "unvisited m' = unvisited m" "hand_ok q'" "set (sieve_fifo_queue q') \<subseteq> set (sieve_fifo_queue q)" for q' m'
      using Suc.IH [OF allocated_queue_mset [OF that(1,2) Suc.prems(1)] that(3)] scan_result_trans [OF _ that(1,2,4)] by blast
    show ?thesis
    proof (cases "?p = 0")
      case True
      then show ?thesis unfolding evict_scan_step(1) [OF False refl True] using ms sub by (intro continue) (simp_all add: entries_of_def)
    next
      case nz: False
      obtain e where e: "m ?p = Some e" using Suc.prems(1) p nz by (auto simp: allocated_queue_def)
      let ?m = "m(?p \<mapsto> e\<lparr>visited := False\<rparr>)"
      have "\<exists>r. evict_scan n cb (advanceHandPointer ?q) ?m = Inr r \<and> scan_result cb q m r"
        by (rule continue) (simp_all add: entries_of_def unvisited_upd [of m _ e, OF e])
      moreover have "\<exists>r. evict_scan n cb (ReInsertIntoSieveFIFO ?p (eraseElementAtHandPosition ?q)) ?m = Inr r \<and> scan_result cb q m r"
      proof (rule continue)
        show "set (sieve_fifo_queue (ReInsertIntoSieveFIFO ?p (eraseElementAtHandPosition ?q))) \<subseteq> set (sieve_fifo_queue q)"
          using sub p by (simp add: ReInsertIntoSieveFIFO_def)
      qed (simp_all add: entries_of_def unvisited_upd [of m _ e, OF e] reinsert_mset [OF nz] ms)
      moreover have "scan_result cb q m (?p, eraseElementAtHandPosition ?q, ?m)" if "evictable cb e"
        using that nz e ms sub by (auto simp: scan_result_def entries_of_def unvisited_upd)
      ultimately show ?thesis unfolding evict_scan_step(2) [where m = m, OF False refl nz e] using assms by simp
    qed
  qed
qed

lemma evictOne_result:
  assumes "onVictimChosen cb = None" "allocated_queue q m" "hand_ok q"
  shows "\<exists>r. evictOneFromSieveFIFO cb q m = Inr r \<and> scan_result cb q m r"
  using evict_scan_result [OF assms] assms(3) by (auto simp: evictOneFromSieveFIFO_def scan_result_def)

section \<open>Second-chance order\<close>

text \<open>A scan spares an entry that was visited since the last one, unless its slab is being drained.\<close>

definition spared :: "sieve_callbacks \<Rightarrow> entry_mem \<Rightarrow> nat \<Rightarrow> bool" where
  "spared cb m p \<longleftrightarrow> (\<exists>e. m p = Some e \<and> visited e) \<and> \<not> forced cb p"

definition clear_visited :: "nat set \<Rightarrow> entry_mem \<Rightarrow> entry_mem" where
  "clear_visited S m p = (if p \<in> S then map_option (\<lambda>e. e\<lparr>visited := False\<rparr>) (m p) else m p)"

lemma clear_visited_simps:
  "clear_visited {} m = m"
  "m p = Some e \<Longrightarrow> (clear_visited S m)(p \<mapsto> e\<lparr>visited := False\<rparr>) = clear_visited (insert p S) m"
  "m p = Some e \<Longrightarrow> clear_visited S (m(p \<mapsto> e\<lparr>visited := False\<rparr>)) = clear_visited (insert p S) m"
  by (auto simp: clear_visited_def fun_eq_iff)

text \<open>The first entry that is not spared, from the hand around the queue; the entry at the hand if all are.\<close>

definition second_chance :: "sieve_callbacks \<Rightarrow> entry_mem \<Rightarrow> nat list \<Rightarrow> nat" where
  "second_chance cb m order = (case dropWhile (spared cb m) order of [] \<Rightarrow> hd order | p # _ \<Rightarrow> p)"

lemma remove1_nth: "distinct xs \<Longrightarrow> j < length xs \<Longrightarrow> take j xs @ drop (Suc j) xs = remove1 (xs ! j) xs"
proof -
  assume a: "distinct xs" "j < length xs"
  have "xs ! j \<notin> set (take j xs)" using a by (auto simp: in_set_conv_nth nth_eq_iff_index_eq)
  then have "remove1 (xs ! j) (take j xs @ xs ! j # drop (Suc j) xs) = take j xs @ drop (Suc j) xs" by (simp add: remove1_append)
  then show ?thesis using id_take_nth_drop [OF a(2)] by simp
qed

lemma evict_scan_passes:
  assumes "distinct qs" "0 \<notin> set qs"
  shows "h < length qs \<Longrightarrow> rotate h qs = ys @ zs \<Longrightarrow> \<forall>y\<in>set ys. spared cb m y \<Longrightarrow>
    evict_scan (length ys + k) cb \<lparr>sieve_fifo_queue = qs, hand_pointer = h\<rparr> m =
    evict_scan k cb \<lparr>sieve_fifo_queue = qs, hand_pointer = (h + length ys) mod length qs\<rparr> (clear_visited (set ys) m)"
proof (induction ys arbitrary: h zs m)
  case (Cons y ys)
  let ?q = "\<lparr>sieve_fifo_queue = qs, hand_pointer = h\<rparr>"
  have ne: "sieve_fifo_queue ?q \<noteq> []" and c: "clamp_hand ?q = ?q" using Cons.prems(1) by (auto simp: clamp_hand_def)
  have y: "qs ! h = y" using Cons.prems(1,2) nth_rotate [of 0 qs h] by (cases qs) (simp_all add: hd_rotate_conv_nth)
  have "y \<in> set (rotate h qs)" using Cons.prems(2) by simp
  then have nz: "y \<noteq> 0" using assms(2) by (metis set_rotate)
  obtain e where e: "m y = Some e" "visited e" "\<not> forced cb y" using Cons.prems(3) by (auto simp: spared_def)
  let ?h = "(h + 1) mod length qs" and ?m = "m(y \<mapsto> e\<lparr>visited := False\<rparr>)"
  have step: "evict_scan (Suc (length ys + k)) cb ?q m = evict_scan (length ys + k) cb \<lparr>sieve_fifo_queue = qs, hand_pointer = ?h\<rparr> ?m"
    using evict_scan_step(2) [where q = ?q and p = y and m = m, OF ne _ nz e(1)] c y e ne by (simp add: advanceHandPointer_def)
  have d: "distinct (y # ys @ zs)" using assms(1) Cons.prems(2) by (metis append_Cons distinct_rotate)
  have "rotate ?h qs = rotate1 (rotate h qs)" by (metis Suc_eq_plus1 rotate_Suc rotate_conv_mod)
  then have r: "rotate ?h qs = ys @ (zs @ [y])" using Cons.prems(2) by simp
  have "?h < length qs" using Cons.prems(1) by (intro mod_less_divisor) auto
  moreover have "\<forall>x\<in>set ys. spared cb ?m x" using Cons.prems(3) d by (auto simp: spared_def)
  ultimately have "evict_scan (length ys + k) cb \<lparr>sieve_fifo_queue = qs, hand_pointer = ?h\<rparr> ?m =
    evict_scan k cb \<lparr>sieve_fifo_queue = qs, hand_pointer = (?h + length ys) mod length qs\<rparr> (clear_visited (set ys) ?m)"
    using Cons.IH r by blast
  then show ?case using step e(1) by (simp add: clear_visited_simps mod_add_left_eq)
qed (simp add: clear_visited_simps)

lemma evict_scan_takes:
  assumes "distinct qs" "0 \<notin> set qs" "h < length qs" "m (qs ! h) = Some e" "\<not> spared cb m (qs ! h)" "evictable cb e"
    "onVictimChosen cb = None"
  shows "\<exists>q'. evict_scan (Suc k) cb \<lparr>sieve_fifo_queue = qs, hand_pointer = h\<rparr> m = Inr (qs ! h, q', m(qs ! h \<mapsto> e\<lparr>visited := False\<rparr>))
    \<and> sieve_fifo_queue q' = remove1 (qs ! h) qs \<and> hand_ok q'"
proof -
  let ?q = "\<lparr>sieve_fifo_queue = qs, hand_pointer = h\<rparr>"
  have ne: "sieve_fifo_queue ?q \<noteq> []" and c: "clamp_hand ?q = ?q" using assms(3) by (auto simp: clamp_hand_def)
  have nz: "qs ! h \<noteq> 0" using assms(2,3) by (metis nth_mem)
  have "\<not> (visited e \<and> \<not> forced cb (qs ! h))" using assms(4,5) by (auto simp: spared_def)
  then have "evict_scan (Suc k) cb ?q m = Inr (qs ! h, eraseElementAtHandPosition ?q, m(qs ! h \<mapsto> e\<lparr>visited := False\<rparr>))"
    using evict_scan_step(2) [where q = ?q and p = "qs ! h" and m = m, OF ne _ nz assms(4)] c assms(6,7) by auto
  then show ?thesis using erase_queue [of ?q] assms(3) remove1_nth [OF assms(1,3)] by simp
qed

lemma second_chance_cases:
  assumes "order \<noteq> []"
  obtains (all) "takeWhile (spared cb m) order = order" "second_chance cb m order = hd order"
  | (some) v zs where "order = takeWhile (spared cb m) order @ v # zs" "\<not> spared cb m v" "second_chance cb m order = v"
proof (cases "dropWhile (spared cb m) order")
  case Nil
  have "takeWhile (spared cb m) order = order" using takeWhile_dropWhile_id [of "spared cb m" order] unfolding Nil by (simp only: append_Nil2)
  moreover have "second_chance cb m order = hd order" unfolding second_chance_def Nil by simp
  ultimately show ?thesis by (rule all)
next
  case (Cons v zs)
  then show ?thesis using some [of v zs] takeWhile_dropWhile_id [of "spared cb m" order] hd_dropWhile [of "spared cb m" order]
    by (simp add: second_chance_def)
qed

lemma evict_second_chance:
  assumes qs: "distinct qs" "0 \<notin> set qs" "h < length qs" "\<forall>p\<in>set qs. \<exists>e. m p = Some e \<and> evictable cb e"
    and "onVictimChosen cb = None"
  defines "order \<equiv> rotate h qs"
  defines "v \<equiv> second_chance cb m order"
  shows "\<exists>q'. evictOneFromSieveFIFO cb \<lparr>sieve_fifo_queue = qs, hand_pointer = h\<rparr> m =
      Inr (v, q', clear_visited (insert v (set (takeWhile (spared cb m) order))) m)
    \<and> sieve_fifo_queue q' = remove1 v qs \<and> hand_ok q'"
proof -
  let ?ys = "takeWhile (spared cb m) order" and ?n = "length qs"
  let ?j = "(h + length ?ys) mod ?n" and ?m = "clear_visited (set ?ys) m"
  have ne: "qs \<noteq> []" "order \<noteq> []" using qs(3) by (auto simp: order_def)
  have all: "\<forall>y\<in>set ?ys. spared cb m y" by (auto dest: set_takeWhileD)
  have len: "length ?ys \<le> ?n" by (metis length_rotate length_takeWhile_le order_def)
  obtain k where k: "?n * 2 = length ?ys + Suc k" using len qs(3) that [of "?n * 2 - Suc (length ?ys)"] by linarith
  have pass: "evict_scan (length ?ys + Suc k) cb \<lparr>sieve_fifo_queue = qs, hand_pointer = h\<rparr> m =
    evict_scan (Suc k) cb \<lparr>sieve_fifo_queue = qs, hand_pointer = ?j\<rparr> ?m"
    by (rule evict_scan_passes [OF qs(1,2,3) _ all, of "dropWhile (spared cb m) order"]) (simp add: order_def)
  have j: "?j < ?n" using ne by simp
  have at: "qs ! ?j = v \<and> \<not> spared cb ?m v"
  proof (rule second_chance_cases [OF ne(2), of cb m])
    assume all: "takeWhile (spared cb m) order = order" "second_chance cb m order = hd order"
    have "length ?ys = ?n" unfolding all(1) by (simp add: order_def)
    then have "?j = h" "v = qs ! h" using all(2) qs(3) ne hd_rotate_conv_nth [of qs h] by (simp_all add: v_def order_def)
    moreover have "v \<in> set ?ys" using all(1) calculation(2) qs(3) by (metis nth_mem order_def set_rotate)
    ultimately show ?thesis by (auto simp: spared_def clear_visited_def)
  next
    fix x zs
    assume some: "order = takeWhile (spared cb m) order @ x # zs" "\<not> spared cb m x" "second_chance cb m order = x"
    have at_ys: "order ! length ?ys = x" by (subst some(1)) (simp add: nth_append)
    have "length order = length (?ys @ x # zs)" using some(1) by (rule arg_cong)
    moreover have "length order = ?n" by (simp add: order_def)
    ultimately have "length ?ys < ?n" unfolding length_append list.size(4) by linarith
    then have "order ! length ?ys = qs ! ?j" using nth_rotate [of "length ?ys" qs h] unfolding order_def by blast
    then have "qs ! ?j = x" using at_ys by simp
    moreover have "x \<notin> set ?ys" using some(2) all by auto
    ultimately show ?thesis using some(2,3) by (auto simp: v_def spared_def clear_visited_def)
  qed
  have "v \<in> set qs" using at j by (metis nth_mem)
  then obtain e where e: "m v = Some e" "evictable cb e" using qs(4) by auto
  define e' where "e' = (if v \<in> set ?ys then e\<lparr>visited := False\<rparr> else e)"
  have e': "?m v = Some e'" "evictable cb e'" "e'\<lparr>visited := False\<rparr> = e\<lparr>visited := False\<rparr>"
    using e by (auto simp: e'_def clear_visited_def evictable_def split: option.splits)
  show ?thesis
    using evict_scan_takes [OF qs(1,2) j, of ?m e' cb k] at e' assms(5) pass k ne(1) clear_visited_simps(2) [of m v e "set ?ys", OF e(1)]
    by (simp add: evictOneFromSieveFIFO_def)
qed

section \<open>A trapped hand\<close>

lemma evict_scan_trapped:
  assumes "2 \<le> length rest" "0 \<notin> set rest" "\<forall>p\<in>set rest. \<exists>e. m p = Some e \<and> \<not> visited e \<and> \<not> evictable cb e"
  shows "evict_scan n cb \<lparr>sieve_fifo_queue = pre @ rest, hand_pointer = length pre\<rparr> m =
    Inr (0, \<lparr>sieve_fifo_queue = pre @ rotate n rest, hand_pointer = length pre\<rparr>, m)"
  using assms
proof (induction n arbitrary: rest)
  case (Suc n)
  obtain x y zs where rest: "rest = x # y # zs" using Suc.prems(1) by (cases rest; cases "tl rest") auto
  let ?q = "\<lparr>sieve_fifo_queue = pre @ rest, hand_pointer = length pre\<rparr>"
  obtain e where e: "m x = Some e" "\<not> visited e" "\<not> evictable cb e" using Suc.prems(3) rest by auto
  have nz: "x \<noteq> 0" and ne: "sieve_fifo_queue ?q \<noteq> []" and c: "clamp_hand ?q = ?q"
    using Suc.prems(2) rest by (auto simp: clamp_hand_def)
  have m: "m(x \<mapsto> e\<lparr>visited := False\<rparr>) = m" using e by (cases e) (auto simp: fun_eq_iff)
  have "ReInsertIntoSieveFIFO x (eraseElementAtHandPosition ?q) = \<lparr>sieve_fifo_queue = pre @ rotate1 rest, hand_pointer = length pre\<rparr>"
    using nz rest by (simp add: eraseElementAtHandPosition_def ReInsertIntoSieveFIFO_def Let_def)
  then have "evict_scan (Suc n) cb ?q m = evict_scan n cb \<lparr>sieve_fifo_queue = pre @ rotate1 rest, hand_pointer = length pre\<rparr> m"
    using evict_scan_step(2) [where q = ?q and p = x and m = m, OF ne _ nz e(1)] c e m rest by simp
  also have "\<dots> = Inr (0, \<lparr>sieve_fifo_queue = pre @ rotate n (rotate1 rest), hand_pointer = length pre\<rparr>, m)"
    using Suc.IH [of "rotate1 rest"] Suc.prems by simp
  finally show ?case by (simp add: rotate1_rotate_swap)
qed simp

section \<open>Draining\<close>

definition removed_at :: "entry_mem \<Rightarrow> nat \<Rightarrow> bool" where
  "removed_at m p \<longleftrightarrow> (\<exists>e. m p = Some e \<and> entry_type e = Removed)"

lemma drain_loop_result:
  "\<forall>p\<in>set es. p \<noteq> 0 \<longrightarrow> m p \<noteq> None \<Longrightarrow> \<exists>kept'. drain_loop limit m victims kept es =
     Inr (victims @ take (limit - length victims) (filter (\<lambda>p. p \<noteq> 0 \<and> removed_at m p) es), kept @ kept')
     \<and> mset kept' + mset (take (limit - length victims) (filter (\<lambda>p. p \<noteq> 0 \<and> removed_at m p) es)) = mset (filter (\<lambda>p. p \<noteq> 0) es)
     \<and> filter (\<lambda>p. \<not> removed_at m p) kept' = filter (\<lambda>p. p \<noteq> 0 \<and> \<not> removed_at m p) es"
proof (induction es arbitrary: victims kept)
  case (Cons x es)
  have IH: "\<forall>p\<in>set es. p \<noteq> 0 \<longrightarrow> m p \<noteq> None" using Cons.prems by simp
  show ?case
  proof (cases "x = 0")
    case True
    then show ?thesis using Cons.IH [OF IH, of victims kept] by simp
  next
    case nz: False
    then obtain e where e: "m x = Some e" using Cons.prems by auto
    show ?thesis
    proof (cases "length victims < limit \<and> entry_type e = Removed")
      case True
      then have "removed_at m x" "limit - length victims = Suc (limit - length (victims @ [x]))" using e by (auto simp: removed_at_def)
      then show ?thesis using Cons.IH [OF IH, of "victims @ [x]" kept] nz e True by (auto simp: deref_def)
    next
      case False
      then have full: "removed_at m x \<longrightarrow> limit - length victims = 0" using e by (auto simp: removed_at_def)
      have "drain_loop limit m victims kept (x # es) = drain_loop limit m victims (kept @ [x]) es"
        using nz e False by (simp add: deref_def)
      then show ?thesis using Cons.IH [OF IH, of victims "kept @ [x]"] full nz by fastforce
    qed
  qed
qed simp

section \<open>Properties\<close>


definition sample_entry :: "RecordCacheType \<Rightarrow> bool \<Rightarrow> cache_entry" where
  "sample_entry t v = \<lparr>tx_ts = 0, last_modified_worker_id = 0, key_length = 0, value_length = 0, entry_type = t,
     visited = v, update_during_promote = False, next_entry = 0, payload = []\<rparr>"

definition sample_policy :: sieve_callbacks where
  "sample_policy = \<lparr>tryMarkEvictable = Some (\<lambda>e. entry_type e = ReadOnlyMode), onVictimChosen = None, shouldForceEvict = None\<rparr>"




text \<open>
  Draining takes the first \<open>limit\<close> dead entries of the queue, in order; it loses no entry, keeps the
  order of the entries that are not dead, and leaves the hand inside the queue.\<close>

lemma drain_result:
  assumes "allocated_queue q m"
  shows "\<exists>victims q'. drainStateRemovedOnly limit q m = Inr (victims, q')
    \<and> victims = take limit (filter (\<lambda>p. p \<noteq> 0 \<and> removed_at m p) (sieve_fifo_queue q))
    \<and> mset (sieve_fifo_queue q') + mset victims = entries_of q
    \<and> filter (\<lambda>p. \<not> removed_at m p) (sieve_fifo_queue q') = filter (\<lambda>p. p \<noteq> 0 \<and> \<not> removed_at m p) (sieve_fifo_queue q)
    \<and> (hand_ok q \<longrightarrow> hand_ok q')"
proof (cases "sieve_fifo_queue q = []")
  case True
  then show ?thesis by (simp add: drainStateRemovedOnly_def entries_of_def)
next
  case False
  let ?victims = "take limit (filter (\<lambda>p. p \<noteq> 0 \<and> removed_at m p) (sieve_fifo_queue q))"
  obtain kept where k: "drain_loop limit m [] [] (sieve_fifo_queue q) = Inr (?victims, kept)"
    "mset kept + mset ?victims = entries_of q"
    "filter (\<lambda>p. \<not> removed_at m p) kept = filter (\<lambda>p. p \<noteq> 0 \<and> \<not> removed_at m p) (sieve_fifo_queue q)"
    using drain_loop_result [of "sieve_fifo_queue q" m limit "[]" "[]"] assms by (auto simp: entries_of_def allocated_queue_def)
  let ?q = "\<lparr>sieve_fifo_queue = kept, hand_pointer = (if length kept \<le> hand_pointer q then 0 else hand_pointer q)\<rparr>"
  have "drainStateRemovedOnly limit q m = Inr (?victims, ?q)" using False k(1) by (simp add: drainStateRemovedOnly_def)
  moreover have "hand_ok ?q" by (simp add: hand_ok_def)
  ultimately show ?thesis using k(2,3) by (intro exI [of _ ?victims] exI [of _ ?q]) simp
qed

end
