(* ===== verification/EpochSafety.thy ===== *)
theory EpochSafety
  imports EpochManager
begin

text \<open>
  The grace period of \<open>EpochManager\<close> under interleaving. Entering takes three atomic accesses, a worker may be
  stopped between any two of them, and the loop of \<open>is_safe_to_invalidate\<close> looks at the workers one at a time
  while they go on. A retirement is the moment at which an entry that is logically deleted gets its
  epoch; the workers inside the record cache at that moment may still hold a pointer to it.
\<close>

section \<open>Runs\<close>

datatype worker_phase = Outside | Tagged | Loaded nat | Inside

text \<open>
  \<open>watched\<close> holds the workers that were inside at the retirement and have not left since; \<open>scanned\<close> is
  the next worker the reclaiming thread looks at, with \<open>target\<close> its argument \<open>target_epoch\<close>.
\<close>

record epoch_run =
  manager :: epoch_manager
  phase :: "nat \<Rightarrow> worker_phase"
  target_of :: nat
  watched :: "nat set"
  scanned :: "nat option"

definition start_run :: "nat \<Rightarrow> epoch_run" where
  "start_run n = \<lparr>manager = newEpochManager n, phase = (\<lambda>_. Outside), target_of = 0, watched = {}, scanned = None\<rparr>"

inductive epoch_step :: "epoch_run \<Rightarrow> epoch_run \<Rightarrow> bool" where
  tag: "phase s w = Outside \<Longrightarrow> w < total_workers_number (manager s) \<Longrightarrow>
    epoch_step s (s\<lparr>manager := tag_active w (manager s), phase := (phase s)(w := Tagged)\<rparr>)"
| load: "phase s w = Tagged \<Longrightarrow>
    epoch_step s (s\<lparr>phase := (phase s)(w := Loaded (get_global_epoch (manager s)))\<rparr>)"
| mark: "phase s w = Loaded e \<Longrightarrow>
    epoch_step s (s\<lparr>manager := mark_snapshot w e (manager s), phase := (phase s)(w := Inside)\<rparr>)"
| leave: "phase s w = Inside \<Longrightarrow> worker_thread_leave_epoch w (manager s) = Inr em \<Longrightarrow>
    epoch_step s (s\<lparr>manager := em, phase := (phase s)(w := Outside), watched := watched s - {w}\<rparr>)"
| advance: "global_epoch (manager s) + 1 < 2 ^ 64 \<Longrightarrow>
    epoch_step s (s\<lparr>manager := periodically_advance_global_epoch (manager s)\<rparr>)"
| retire: "epoch_step s (s\<lparr>target_of := get_global_epoch (manager s), watched := {w. phase s w = Inside}, scanned := Some 0\<rparr>)"
| pass: "scanned s = Some i \<Longrightarrow> i < total_workers_number (manager s) \<Longrightarrow>
    \<not> worker_blocks (target_of s) (worker_threads_epochs (manager s) ! i) \<Longrightarrow> epoch_step s (s\<lparr>scanned := Some (i + 1)\<rparr>)"
| blocked: "scanned s = Some i \<Longrightarrow> i < total_workers_number (manager s) \<Longrightarrow>
    worker_blocks (target_of s) (worker_threads_epochs (manager s) ! i) \<Longrightarrow> epoch_step s (s\<lparr>scanned := Some 0\<rparr>)"

section \<open>Invariant\<close>

definition phase_ok :: "nat \<Rightarrow> worker_phase \<Rightarrow> thread_local_epoch \<Rightarrow> bool" where
  "phase_ok epoch p t \<longleftrightarrow>
     (case p of
        Outside \<Rightarrow> \<not> active t
      | Tagged \<Rightarrow> active t
      | Loaded e \<Rightarrow> active t \<and> e \<le> epoch
      | Inside \<Rightarrow> active t \<and> current_epoch t \<le> epoch)"

lemma phase_ok_mono: "phase_ok e p t \<Longrightarrow> e \<le> e' \<Longrightarrow> phase_ok e' p t"
  by (auto simp: phase_ok_def split: worker_phase.splits)

definition run_ok :: "nat \<Rightarrow> epoch_run \<Rightarrow> bool" where
  "run_ok n s \<longleftrightarrow> total_workers_number (manager s) = n \<and> length (worker_threads_epochs (manager s)) = n
     \<and> global_epoch (manager s) < 2 ^ 64 \<and> (\<forall>w<n. phase_ok (global_epoch (manager s)) (phase s w) (worker_threads_epochs (manager s) ! w)) \<and> (\<forall>w\<ge>n. phase s w = Outside)
     \<and> target_of s \<le> global_epoch (manager s)
     \<and> (\<forall>w\<in>watched s. phase s w = Inside \<and> current_epoch (worker_threads_epochs (manager s) ! w) \<le> target_of s)
     \<and> (\<forall>i. scanned s = Some i \<longrightarrow> i \<le> n \<and> (\<forall>w\<in>watched s. i \<le> w))"

lemma run_ok_start: "run_ok n (start_run n)"
  by (auto simp: run_ok_def start_run_def newEpochManager_def phase_ok_def)

lemma update_worker_sel [simp]:
  "global_epoch (update_worker w f em) = global_epoch em"
  "total_workers_number (update_worker w f em) = total_workers_number em"
  "length (worker_threads_epochs (update_worker w f em)) = length (worker_threads_epochs em)"
  "w < length (worker_threads_epochs em) \<Longrightarrow> worker_threads_epochs (update_worker w f em) ! v =
    (if v = w then f (worker_threads_epochs em ! w) else worker_threads_epochs em ! v)"
  by (auto simp: update_worker_def)

lemma run_okD:
  assumes "run_ok n s"
  shows "phase s w \<noteq> Outside \<Longrightarrow> w < n"
    "w < n \<Longrightarrow> phase_ok (global_epoch (manager s)) (phase s w) (worker_threads_epochs (manager s) ! w)"
    "w \<in> watched s \<Longrightarrow> phase s w = Inside"
    "length (worker_threads_epochs (manager s)) = n"
  using assms by (auto simp: run_ok_def) (metis leI)

text \<open>A watched worker blocks, so the scan cannot pass it.\<close>

lemma watched_blocks:
  assumes "run_ok n s" "w \<in> watched s"
  shows "worker_blocks (target_of s) (worker_threads_epochs (manager s) ! w)"
proof -
  have p: "phase s w = Inside" "current_epoch (worker_threads_epochs (manager s) ! w) \<le> target_of s"
    using assms by (auto simp: run_ok_def)
  then have "phase_ok (global_epoch (manager s)) Inside (worker_threads_epochs (manager s) ! w)"
    using run_okD(1,2) [OF assms(1), of w] by simp
  then show ?thesis using p by (simp add: phase_ok_def worker_blocks_def)
qed

lemma run_ok_worker:
  assumes "run_ok n s" "w < n" "phase_ok (global_epoch (manager s)) p (f (worker_threads_epochs (manager s) ! w))"
    "W = watched s - {w}"
  shows "run_ok n (s\<lparr>manager := update_worker w f (manager s), phase := (phase s)(w := p), watched := W\<rparr>)"
proof -
  have len: "w < length (worker_threads_epochs (manager s))" using assms(1,2) by (simp add: run_ok_def)
  show ?thesis using assms(1) [unfolded run_ok_def] assms(2,3,4) by (simp add: run_ok_def len)
qed

lemma run_ok_step: "epoch_step s s' \<Longrightarrow> run_ok n s \<Longrightarrow> run_ok n s'"
proof (induction rule: epoch_step.induct)
  case (tag s w)
  have w: "w < n" "watched s = watched s - {w}" using tag run_okD(3) [OF tag.prems, of w] by (auto simp: run_ok_def)
  then show ?case using run_ok_worker [OF tag.prems w(1), of Tagged "\<lambda>t. t\<lparr>active := True\<rparr>" "watched s"]
    by (simp add: phase_ok_def tag_active_def)
next
  case (load s w)
  have w: "w < n" "w \<notin> watched s" using run_okD(1,3) [OF load.prems, of w] load by auto
  then show ?case using load run_okD(2) [OF load.prems w(1)] by (auto simp: run_ok_def phase_ok_def get_global_epoch_def)
next
  case (mark s w e)
  have w: "w < n" "watched s = watched s - {w}" using run_okD(1,3) [OF mark.prems, of w] mark by auto
  then show ?case using run_ok_worker [OF mark.prems w(1), of Inside "\<lambda>t. t\<lparr>current_epoch := e\<rparr>" "watched s"]
      run_okD(2) [OF mark.prems w(1)] mark by (simp add: phase_ok_def mark_snapshot_def)
next
  case (leave s w em)
  have w: "w < n" using run_okD(1) [OF leave.prems, of w] leave by auto
  then have "em = update_worker w (\<lambda>t. t\<lparr>active := False\<rparr>) (manager s)"
    using leave run_okD(4) [OF leave.prems] by (simp add: worker_thread_leave_epoch_def split: if_splits)
  then show ?case using run_ok_worker [OF leave.prems w, of Outside "\<lambda>t. t\<lparr>active := False\<rparr>"] by (simp add: phase_ok_def)
next
  case (advance s)
  then show ?case using phase_ok_mono [of "global_epoch (manager s)" _ _ "Suc (global_epoch (manager s))"]
    by (auto simp: run_ok_def periodically_advance_global_epoch_def fetch_add_def)
next
  case (retire s)
  have "current_epoch (worker_threads_epochs (manager s) ! w) \<le> global_epoch (manager s)" if "phase s w = Inside" for w
    using run_okD(1,2) [OF retire, of w] that by (simp add: phase_ok_def)
  then show ?case using retire by (auto simp: run_ok_def get_global_epoch_def)
next
  case (pass s i)
  have "i \<noteq> w" if "w \<in> watched s" for w using watched_blocks [OF pass.prems that] pass by auto
  then have "\<forall>w\<in>watched s. i + 1 \<le> w" using pass by (force simp: run_ok_def)
  then show ?case using pass by (auto simp: run_ok_def)
next
  case (blocked s i)
  then show ?case by (auto simp: run_ok_def)
qed

lemma run_ok_steps: "epoch_step\<^sup>*\<^sup>* s s' \<Longrightarrow> run_ok n s \<Longrightarrow> run_ok n s'"
  by (induction rule: rtranclp_induct) (auto intro: run_ok_step)

text \<open>Without interleaving the steps of the scan are the loop of the code.\<close>

lemma safe_from_iff: "safe_from e i em n \<longleftrightarrow> (\<forall>j\<in>{i..<i + n}. \<not> worker_blocks e (worker_threads_epochs em ! j))"
proof (induction n arbitrary: i)
  case (Suc n)
  have "{i..<i + Suc n} = insert i {i + 1..<i + 1 + n}" by auto
  then show ?case using Suc by simp
qed simp

lemma is_safe_iff:
  "is_safe_to_invalidate e em \<longleftrightarrow> (\<forall>j<total_workers_number em. \<not> worker_blocks e (worker_threads_epochs em ! j))"
  by (auto simp: is_safe_to_invalidate_def safe_from_iff)

section \<open>Property\<close>

text \<open>
  C9. The grace period: however the accesses of the workers, the epoch advances and the checks interleave,
  when the scan of \<open>is_safe_to_invalidate\<close> has passed every worker, each worker that was inside the record
  cache when the entry was retired has left it since. The number of epochs stays below \<open>2 ^ 64\<close>.\<close>

theorem epoch_grace_period:
  assumes "epoch_step\<^sup>*\<^sup>* (start_run n) s" "scanned s = Some (total_workers_number (manager s))"
  shows "watched s = {}"
proof -
  have ok: "run_ok n s" using run_ok_steps [OF assms(1) run_ok_start] .
  then have "w < n" "\<not> w < n" if "w \<in> watched s" for w
    using run_okD(1,3) [OF ok, of w] assms(2) that by (auto simp: run_ok_def)
  then show ?thesis by blast
qed

text \<open>A worker is inside at a retirement, blocks the scan, leaves, and lets it pass.\<close>

definition sample_inside :: epoch_run where
  "sample_inside = \<lparr>manager = \<lparr>global_epoch = 0, worker_threads_epochs = [\<lparr>current_epoch = 0, active = True\<rparr>], total_workers_number = 1\<rparr>,
     phase = (\<lambda>_. Outside)(0 := Inside), target_of = 0, watched = {0}, scanned = Some 0\<rparr>"

definition sample_left :: epoch_run where
  "sample_left = \<lparr>manager = \<lparr>global_epoch = 0, worker_threads_epochs = [\<lparr>current_epoch = 0, active = False\<rparr>], total_workers_number = 1\<rparr>,
     phase = (\<lambda>_. Outside), target_of = 0, watched = {}, scanned = Some 1\<rparr>"

lemma sample_inside_reached: "epoch_step\<^sup>*\<^sup>* (start_run 1) sample_inside"
proof -
  let ?s = "start_run 1"
  let ?s1 = "?s\<lparr>manager := tag_active 0 (manager ?s), phase := (phase ?s)(0 := Tagged)\<rparr>"
  let ?s2 = "?s1\<lparr>phase := (phase ?s1)(0 := Loaded (get_global_epoch (manager ?s1)))\<rparr>"
  let ?s3 = "?s2\<lparr>manager := mark_snapshot 0 0 (manager ?s2), phase := (phase ?s2)(0 := Inside)\<rparr>"
  let ?s4 = "?s3\<lparr>target_of := get_global_epoch (manager ?s3), watched := {w. phase ?s3 w = Inside}, scanned := Some 0\<rparr>"
  note defs = start_run_def newEpochManager_def tag_active_def mark_snapshot_def update_worker_def get_global_epoch_def
  have "epoch_step ?s ?s1" by (rule epoch_step.tag) (simp_all add: defs)
  moreover have "epoch_step ?s1 ?s2" by (rule epoch_step.load) simp
  moreover have "epoch_step ?s2 ?s3" by (rule epoch_step.mark) (simp add: defs)
  moreover have "epoch_step ?s3 ?s4" by (rule epoch_step.retire)
  moreover have "?s4 = sample_inside" by (auto simp: sample_inside_def defs)
  ultimately show ?thesis by (metis (no_types, lifting) converse_rtranclp_into_rtranclp rtranclp.rtrancl_refl)
qed

lemma sample_left_reached: "epoch_step\<^sup>*\<^sup>* sample_inside sample_left"
proof -
  let ?s = "sample_inside"
  let ?em = "update_worker 0 (\<lambda>t. t\<lparr>active := False\<rparr>) (manager ?s)"
  let ?s1 = "?s\<lparr>manager := ?em, phase := (phase ?s)(0 := Outside), watched := watched ?s - {0}\<rparr>"
  let ?s2 = "?s1\<lparr>scanned := Some (0 + 1)\<rparr>"
  have "epoch_step ?s ?s1" by (rule epoch_step.leave) (simp_all add: sample_inside_def worker_thread_leave_epoch_def)
  moreover have "epoch_step ?s1 ?s2"
    by (rule epoch_step.pass) (simp_all add: sample_inside_def update_worker_def worker_blocks_def)
  moreover have "?s2 = sample_left" by (auto simp: sample_left_def sample_inside_def update_worker_def)
  ultimately show ?thesis by (metis (no_types, lifting) converse_rtranclp_into_rtranclp rtranclp.rtrancl_refl)
qed

theorem epoch_grace_period_witness:
  "epoch_step\<^sup>*\<^sup>* (start_run 1) sample_inside \<and> watched sample_inside = {0}
    \<and> worker_blocks 0 (worker_threads_epochs (manager sample_inside) ! 0)
    \<and> epoch_step\<^sup>*\<^sup>* (start_run 1) sample_left \<and> watched sample_left = {}"
proof -
  have "epoch_step\<^sup>*\<^sup>* (start_run 1) sample_left" using sample_inside_reached sample_left_reached by (rule rtranclp_trans)
  moreover from this have "watched sample_left = {}" by (rule epoch_grace_period) (simp add: sample_left_def)
  ultimately show ?thesis using sample_inside_reached by (simp add: sample_inside_def worker_blocks_def)
qed

end
