(* ===== verification/RecordCacheEviction.thy ===== *)
theory RecordCacheEviction
  imports RecordCache
begin

text \<open>
  The background threads that take entries out of the record cache: one round of the forward epoch thread
  (\<open>ForwardEpochThread.cpp\<close>), one round of the SIEVE eviction thread (\<open>SIEVEEvictionThread.cpp\<close>), and the
  rescue of a slab (\<open>tryRescueSlabForAllocator\<close> in \<open>RecordCache.cpp\<close>) that the allocator calls when it is
  exhausted. The states of the epoch manager that the polls of a rescue see while the workers go on are
  a parameter \<open>waited\<close>.
\<close>

section \<open>Freeing an entry\<close>

definition deallocate_entry :: "nat \<Rightarrow> record_cache \<Rightarrow> record_cache result" where
  "deallocate_entry p st =
     bindR (deref (mem st) p) (\<lambda>e.
     bindR (do_deallocate p (totalSizeForRecordCacheEntry e) (allocator st)) (\<lambda>alloc.
       Inr (st\<lparr>allocator := alloc, mem := (mem st)(p := None)\<rparr>)))"

section \<open>Forward epoch thread\<close>

definition forward_item :: "invalidation_entry \<Rightarrow> record_cache \<times> invalidation_queue \<Rightarrow> (record_cache \<times> invalidation_queue) result" where
  "forward_item item = (\<lambda>(st, retry).
     if is_safe_to_invalidate (update_epoch item) (epochs st) then
       let p = entry_pointer item
       in bindR (deref (mem st) p) (\<lambda>e.
          bindR (unlink_entry p (getKeySpan e) st) (\<lambda>(removed, st).
            if removed then
              bindR (update_entry p (setType Removed) (mem st)) (\<lambda>m.
                Inr (IncrementPendingStateInvalidatedFromHash (st\<lparr>mem := m\<rparr>), retry))
            else
              bindR (deref (mem st) p) (\<lambda>e.
                Inr (st, if entry_type e \<noteq> Removed then retry @ [item] else retry))))
     else Inr (st, retry @ [item]))"

definition forward_round :: "record_cache \<times> invalidation_queue \<Rightarrow> (record_cache \<times> invalidation_queue) result" where
  "forward_round = (\<lambda>(st, local_queue).
     let st = st\<lparr>epochs := periodically_advance_global_epoch (epochs st)\<rparr>;
         (new_items, rest) = pop_all (inval_queue st);
         st = st\<lparr>inval_queue := rest\<rparr>
     in foldR forward_item (local_queue @ new_items) (st, []))"

section \<open>SIEVE eviction thread\<close>

definition kSieveBatchLimit :: nat where "kSieveBatchLimit = 32"
definition kPendingDeadEntryThreshold :: nat where "kPendingDeadEntryThreshold = 1024"
definition EvictionWaterMark :: double where "EvictionWaterMark = rnd (95 / 100)"

definition evictable_type :: "cache_entry \<Rightarrow> bool" where
  "evictable_type e \<longleftrightarrow> entry_type e = ReadOnlyMode \<or> entry_type e = Removed"

definition sieve_policy :: "slab_allocator \<Rightarrow> sieve_callbacks" where
  "sieve_policy alloc = \<lparr>tryMarkEvictable = Some evictable_type, onVictimChosen = None,
     shouldForceEvict = Some (\<lambda>p. isSlabUnderUtilized p alloc)\<rparr>"

definition handle_state100_victim :: "nat \<Rightarrow> record_cache \<Rightarrow> record_cache result" where
  "handle_state100_victim victim st =
     bindR (deallocate_entry victim st) (\<lambda>st.
       let st = st\<lparr>active_entry_count := fetch_sub (active_entry_count st) 1\<rparr>;
           st = DecrementPendingStateInvalidatedFromHash st
       in Inr (st\<lparr>sieve_eviction_entries := fetch_add (sieve_eviction_entries st) 1\<rparr>))"

definition reinsert_victim :: "nat \<Rightarrow> record_cache \<Rightarrow> record_cache" where
  "reinsert_victim victim st = st\<lparr>sieve_fifo_of := ReInsertIntoSieveFIFO victim (sieve_fifo_of st)\<rparr>"

text \<open>The removal of a live victim from its chain and from memory, if it is the head of the chain.\<close>

definition evict_read_only :: "nat \<Rightarrow> record_cache \<Rightarrow> record_cache result" where
  "evict_read_only victim st =
     bindR (deref (mem st) victim) (\<lambda>e.
       if entry_type e \<noteq> ReadOnlyMode then Inr (reinsert_victim victim st)
       else
         let key = getKeySpan e
         in if find_head st key = Some victim then
              let st = (if next_entry e = 0 then drop_head key st else put_head key (next_entry e) st);
                  st = st\<lparr>mem := (mem st)(victim \<mapsto> setType Removed (e\<lparr>next_entry := 0\<rparr>))\<rparr>
              in bindR (deallocate_entry victim st) (\<lambda>st.
                   Inr (st\<lparr>active_entry_count := fetch_sub (active_entry_count st) 1,
                           sieve_eviction_entries := fetch_add (sieve_eviction_entries st) 1\<rparr>))
            else Inr (reinsert_victim victim st))"

definition handle_victim :: "nat \<Rightarrow> record_cache \<Rightarrow> record_cache result" where
  "handle_victim victim st =
     bindR (deref (mem st) victim) (\<lambda>e.
       if entry_type e = Removed then handle_state100_victim victim st
       else if entry_type e = ReadOnlyMode then evict_read_only victim st
       else Inr (reinsert_victim victim st))"

fun sieve_batch :: "nat \<Rightarrow> record_cache \<Rightarrow> (bool \<times> record_cache) result" where
  "sieve_batch 0 st = Inr (False, st)"
| "sieve_batch (Suc n) st =
     bindR (evictOneFromSieveFIFO (sieve_policy (allocator st)) (sieve_fifo_of st) (mem st)) (\<lambda>(victim, q, m).
       let st = st\<lparr>sieve_fifo_of := q, mem := m\<rparr>
       in if victim = 0 then Inr (True, st)
          else bindR (handle_victim victim st) (sieve_batch n))"

definition sieve_round :: "record_cache \<Rightarrow> record_cache result" where
  "sieve_round st =
     bindR (getUsageRatio (allocator st)) (\<lambda>ratio.
       let slab_pressure = (EvictionWaterMark \<le> ratio);
           dead_pile = (kPendingDeadEntryThreshold \<le> pending_state_invalidated_from_hash st)
       in if \<not> slab_pressure \<and> \<not> dead_pile then Inr st
          else if \<not> slab_pressure then
            bindR (drainStateRemovedOnly kSieveBatchLimit (sieve_fifo_of st) (mem st)) (\<lambda>(dead_victims, q).
              foldR handle_state100_victim dead_victims (st\<lparr>sieve_fifo_of := q\<rparr>))
          else bindR (sieve_batch kSieveBatchLimit st) (\<lambda>(_, st). Inr st))"

section \<open>Slab rescue\<close>

text \<open>The walk along one chain that unlinks the live and the logically deleted entries of a slab.\<close>

partial_function (option) rescue_walk ::
    "nat \<Rightarrow> nat \<Rightarrow> entry_mem \<Rightarrow> nat list \<Rightarrow> nat \<Rightarrow> nat \<Rightarrow> nat \<Rightarrow> (entry_mem \<times> nat list \<times> nat) result option" where
  "rescue_walk slab_base slab_end m collected first prev cur =
     (if cur = 0 then Some (Inr (m, collected, first))
      else case m cur of None \<Rightarrow> Some (Inl UseAfterFree)
         | Some e \<Rightarrow>
             let (swapped, e') = casType ReadOnlyMode Removed e;
                 (swapped, e') = (if swapped then (swapped, e') else casType Deleted Removed e)
             in if in_slab slab_base slab_end cur \<and> swapped then
                  let m = m(cur \<mapsto> e'\<lparr>next_entry := 0\<rparr>)
                  in if prev = 0 then rescue_walk slab_base slab_end m (collected @ [cur]) (next_entry e) prev (next_entry e)
                     else (case update_entry prev (\<lambda>p. p\<lparr>next_entry := next_entry e\<rparr>) m of
                             Inl err \<Rightarrow> Some (Inl err)
                           | Inr m \<Rightarrow> rescue_walk slab_base slab_end m (collected @ [cur]) first prev (next_entry e))
                else rescue_walk slab_base slab_end m collected first cur (next_entry e))"

definition rescue_shard ::
    "nat \<Rightarrow> nat \<Rightarrow> nat \<Rightarrow> record_cache \<times> nat list \<Rightarrow> (record_cache \<times> nat list) result" where
  "rescue_shard slab_base slab_end s = (\<lambda>(st, collected).
     bindR (foldR (\<lambda>(key, first) (m, kept, collected).
              bindR (run_walk (rescue_walk slab_base slab_end m collected first 0 first)) (\<lambda>(m, collected, first).
                Inr (m, if first = 0 then kept else kept @ [(key, first)], collected)))
            (hash_shards st s) (mem st, [], collected)) (\<lambda>(m, kept, collected').
       Inr (st\<lparr>mem := m, hash_shards := (hash_shards st)(s := kept),
               active_entry_count := fetch_sub (active_entry_count st) (length collected' - length collected)\<rparr>,
            collected')))"

definition kMaxCandidates :: nat where "kMaxCandidates = 5"
definition kMaxPoll :: nat where "kMaxPoll = 1000"

definition rescue_candidate ::
    "(epoch_manager \<Rightarrow> epoch_manager list) \<Rightarrow> slab_rescue_candidate \<Rightarrow> record_cache \<Rightarrow> (bool \<times> record_cache) result" where
  "rescue_candidate waited cand st =
     (let slab_base = cand_slab_base cand;
          slab_end = slab_base + cand_slab_bytes cand
      in bindR (foldR (rescue_shard slab_base slab_end) [0..<num_of_shards st] (st, [])) (\<lambda>(st, collected).
           if collected = [] then Inr (False, st)
           else
             let st = st\<lparr>sieve_fifo_of := snd (markSlabEntriesAsNull slab_base slab_end (sieve_fifo_of st))\<rparr>;
                 e_unlink = get_global_epoch (epochs st);
                 st = st\<lparr>epochs := periodically_advance_global_epoch (epochs st)\<rparr>
             in if \<not> list_ex (is_safe_to_invalidate e_unlink) (take kMaxPoll (waited (epochs st)))
                then Inr (False, fold (\<lambda>p. addToInvalidationQueue p e_unlink) collected st)
                else bindR (foldR deallocate_entry collected st) (\<lambda>st.
                  Inr (hasFreeSlab (allocator st), st))))"

fun rescue_loop ::
    "(epoch_manager \<Rightarrow> epoch_manager list) \<Rightarrow> slab_rescue_candidate list \<Rightarrow> record_cache \<Rightarrow> (bool \<times> record_cache) result" where
  "rescue_loop waited [] st = Inr (hasFreeSlab (allocator st), st)"
| "rescue_loop waited (cand # cands) st =
     bindR (rescue_candidate waited cand st) (\<lambda>(success, st).
       if success then Inr (True, st) else rescue_loop waited cands st)"

definition tryRescueSlabForAllocator ::
    "(epoch_manager \<Rightarrow> epoch_manager list) \<Rightarrow> record_cache \<Rightarrow> (bool \<times> record_cache) result" where
  "tryRescueSlabForAllocator waited st =
     (if hasFreeSlab (allocator st) then Inr (True, st)
      else
        let candidates = findRescueCandidates kMaxCandidates (allocator st)
        in if candidates = [] then Inr (False, st) else rescue_loop waited candidates st)"

end
