(* ===== verification/RecordCachePromote.thy ===== *)
theory RecordCachePromote
  imports RecordCacheEviction BTreeNode
begin

text \<open>
  \<open>PromoteThread.cpp\<close>: the promotion of one record into the record cache, in the three phases that other
  threads can run between: a placeholder is installed, the record is read optimistically from its page
  in CXL memory, and the placeholder is published or withdrawn. The page is a node of the B-tree; what
  the optimistic read sees, and whether the latch validates it, is a parameter. Tuples are laid out as
  in \<open>BTreeVI.hpp\<close>.
\<close>

section \<open>Memory for a new entry\<close>

text \<open>
  The allocator calls the rescue of the record cache, which changes the record cache too, so the retry
  of \<open>do_allocate\<close> is written out: a refused request, the rescue with its counters, a second request.
\<close>

definition rescue_and_retry ::
    "(epoch_manager \<Rightarrow> epoch_manager list) \<Rightarrow> u64 \<Rightarrow> record_cache \<Rightarrow> (allocation option \<times> record_cache) result" where
  "rescue_and_retry waited bytes_wanted st =
     (let st = st\<lparr>allocator := (allocator st)\<lparr>rescue_attempted_total := fetch_add (rescue_attempted_total (allocator st)) 1\<rparr>\<rparr>
      in bindR (tryRescueSlabForAllocator waited st) (\<lambda>(rescued, st).
         let alloc = allocator st;
             alloc = (if rescued then alloc\<lparr>rescue_succeeded_total := fetch_add (rescue_succeeded_total alloc) 1\<rparr> else alloc);
             st = st\<lparr>allocator := alloc\<rparr>
         in case do_allocate None bytes_wanted 8 alloc of
              Inr (a, alloc) \<Rightarrow> Inr (Some a, st\<lparr>allocator := alloc\<rparr>)
            | Inl err \<Rightarrow> if err = BadAlloc then Inr (None, st) else Inl err))"

text \<open>\<open>None\<close> is the \<open>bad_alloc\<close> that the caller catches.\<close>

definition allocate_with_rescue ::
    "(epoch_manager \<Rightarrow> epoch_manager list) \<Rightarrow> u64 \<Rightarrow> record_cache \<Rightarrow> (allocation option \<times> record_cache) result" where
  "allocate_with_rescue waited bytes_wanted st =
     (case do_allocate None bytes_wanted 8 (allocator st) of
        Inr (a, alloc) \<Rightarrow> Inr (Some a, st\<lparr>allocator := alloc\<rparr>)
      | Inl err \<Rightarrow> if err = BadAlloc then rescue_and_retry waited bytes_wanted st else Inl err)"

definition entry_address :: "allocation \<Rightarrow> nat \<Rightarrow> record_cache \<Rightarrow> nat \<times> record_cache" where
  "entry_address a bytes_wanted st =
     (case a of Block p \<Rightarrow> (p, st) | NewDelete \<Rightarrow> (heap_top st, st\<lparr>heap_top := heap_top st + bytes_wanted\<rparr>))"

text \<open>
  The lambda \<open>allocate_new_entry\<close>; a null pointer when the allocator throws \<open>bad_alloc\<close>. The rest of the
  payload is whatever the block held; the model fills it with zeros, and nothing reads it before it is
  written.
\<close>

definition new_placeholder :: "bytes \<Rightarrow> u16 \<Rightarrow> cache_entry" where
  "new_placeholder key val_length = \<lparr>tx_ts = 0, last_modified_worker_id = 0, key_length = of_nat (length key),
     value_length = val_length, entry_type = Placeholder, visited = False, update_during_promote = False,
     next_entry = 0, payload = take (unat (of_nat (length key) :: u16)) key @ replicate (unat val_length) 0\<rparr>"

definition allocate_new_entry ::
    "(epoch_manager \<Rightarrow> epoch_manager list) \<Rightarrow> promote_request \<Rightarrow> record_cache \<Rightarrow> (nat \<times> record_cache) result" where
  "allocate_new_entry waited request st =
     (let entry = new_placeholder (req_key request) (req_value_length request);
          total_record_size = totalSizeForRecordCacheEntry entry
      in bindR (allocate_with_rescue waited total_record_size st) (\<lambda>(allocated, st).
           case allocated of
             None \<Rightarrow> Inr (0, st)
           | Some a \<Rightarrow>
               let (p, st) = entry_address a (unat total_record_size) st
               in Inr (p, st\<lparr>mem := (mem st)(p \<mapsto> entry)\<rparr>)))"

section \<open>Phase 1: the placeholder\<close>

definition kPromoteHardWatermark :: double where "kPromoteHardWatermark = rnd (95 / 100)"

text \<open>Under the shard lock: a new chain, or a new head in front of a dead one.\<close>

definition install_placeholder :: "bytes \<Rightarrow> nat \<Rightarrow> record_cache \<Rightarrow> (bool \<times> record_cache) result" where
  "install_placeholder key preallocated st =
     (case find_head st key of
        Some existing_head \<Rightarrow>
          bindR (deref (mem st) existing_head) (\<lambda>e.
            if entry_type e = Deleted \<or> entry_type e = Removed
            then bindR (update_entry preallocated (\<lambda>e. e\<lparr>next_entry := existing_head\<rparr>) (mem st)) (\<lambda>m.
                   Inr (True, put_head key preallocated (st\<lparr>mem := m\<rparr>)))
            else Inr (False, st))
      | None \<Rightarrow>
          bindR (update_entry preallocated (\<lambda>e. e\<lparr>next_entry := 0\<rparr>) (mem st)) (\<lambda>m.
            Inr (True, put_head key preallocated (st\<lparr>mem := m\<rparr>))))"

text \<open>The new entry, or a null pointer when the promotion ends here.\<close>

definition promote_phase1 ::
    "(epoch_manager \<Rightarrow> epoch_manager list) \<Rightarrow> promote_request \<Rightarrow> record_cache \<Rightarrow> (nat \<times> record_cache) result" where
  "promote_phase1 waited request st =
     bindR (getUsageRatio (allocator st)) (\<lambda>ratio.
       if kPromoteHardWatermark < ratio then Inr (0, count_event promote_rejected_high_water_update st)
       else bindR (allocate_new_entry waited request st) (\<lambda>(preallocated, st).
         if preallocated = 0 then Inr (0, count_event promote_alloc_failed_update st)
         else bindR (install_placeholder (req_key request) preallocated st) (\<lambda>(consumed, st).
           if \<not> consumed then
             let st = count_event promote_head_still_live_update st;
                 st = (if req_is_direct_update request then count_event direct_update_head_still_live_update st else st)
             in bindR (deallocate_entry preallocated st) (\<lambda>st. Inr (0, st))
           else
             let st = st\<lparr>active_entry_count := fetch_add (active_entry_count st) 1\<rparr>
             in bindR (InsertIntoSieveFIFO preallocated (sieve_fifo_of st) (mem st)) (\<lambda>(q, m).
                  Inr (preallocated, st\<lparr>sieve_fifo_of := q, mem := m\<rparr>)))))"

section \<open>Phase 2: the optimistic read\<close>

record cxl_frame =
  frame_pid :: u64
  frame_hot :: bool
  frame_node :: btree_node

record cxl_read =
  read_value :: bytes
  read_tx_ts :: u64
  read_worker_id :: u16

definition sizeof_Tuple :: nat where "sizeof_Tuple = 16"
definition sizeof_ChainedTuple :: nat where "sizeof_ChainedTuple = 21"
definition sizeof_FatTuple :: nat where "sizeof_FatTuple = 32"

definition load64 :: "bytes \<Rightarrow> u64" where
  "load64 bs = of_nat (foldr (\<lambda>b n. unat b + 256 * n) (take 8 bs) 0)"

definition value_offset :: "u8 \<Rightarrow> nat" where
  "value_offset tuple_format =
     (if tuple_format = 0 then sizeof_ChainedTuple else if tuple_format = 1 then sizeof_FatTuple else sizeof_Tuple)"

text \<open>The check that the slot still holds the requested key.\<close>

definition slot_holds_key :: "bool \<Rightarrow> promote_request \<Rightarrow> btree_node \<Rightarrow> bool" where
  "slot_holds_key skip request n =
     (let prefix_bytes = (if skip then 0 else 2);
          slot = unat (req_slot_id request);
          page_key_len = getFullKeyLen n slot
      in prefix_bytes \<le> unat (req_key_length request)
         \<and> page_key_len = unat (req_key_length request) - prefix_bytes
         \<and> page_key_len \<le> 256
         \<and> take page_key_len (copyFullKey n slot) = take page_key_len (drop prefix_bytes (req_key request)))"

definition read_tuple :: "btree_node \<Rightarrow> nat \<Rightarrow> nat \<Rightarrow> cxl_read" where
  "read_tuple n slot value_len =
     (let start = slot_offset (slots n slot) + getKeyLen n slot;
          tuple = read_bytes (heap n) start sizeof_Tuple
      in \<lparr>read_value = read_bytes (heap n) (start + value_offset (tuple ! 0)) value_len,
          read_tx_ts = load64 (drop 3 tuple), read_worker_id = load16 (drop 1 tuple)\<rparr>)"

definition promote_phase2 :: "bool \<Rightarrow> promote_request \<Rightarrow> cxl_frame \<Rightarrow> bool \<Rightarrow> cxl_read option" where
  "promote_phase2 skip request frame validated =
     (if frame_pid frame \<noteq> req_pid request \<or> \<not> frame_hot frame then None
      else if node_count (frame_node frame) \<le> unat (req_slot_id request) then None
      else if \<not> slot_holds_key skip request (frame_node frame) then None
      else if \<not> validated then None
      else Some (read_tuple (frame_node frame) (unat (req_slot_id request)) (unat (req_value_length request))))"

section \<open>Phase 3: publication or withdrawal\<close>

definition withdraw :: "bytes \<Rightarrow> nat \<Rightarrow> record_cache \<Rightarrow> record_cache result" where
  "withdraw key new_entry st =
     bindR (unlink_entry new_entry key st) (\<lambda>(_, st).
     bindR (update_entry new_entry (setType Removed) (mem st)) (\<lambda>m.
       Inr (IncrementPendingStateInvalidatedFromHash (st\<lparr>mem := m\<rparr>))))"

definition publish :: "promote_request \<Rightarrow> nat \<Rightarrow> cxl_read \<Rightarrow> record_cache \<Rightarrow> record_cache result" where
  "publish request new_entry r st =
     bindR (update_entry new_entry (\<lambda>e. e\<lparr>payload := take (unat (key_length e)) (payload e) @ read_value r,
         tx_ts := read_tx_ts r, last_modified_worker_id := read_worker_id r, entry_type := ReadOnlyMode\<rparr>) (mem st)) (\<lambda>m.
       let st = count_event promote_success_update (st\<lparr>mem := m\<rparr>)
       in Inr (if req_is_direct_update request then count_event direct_update_promote_success_update st else st))"

definition promote_phase3 :: "promote_request \<Rightarrow> nat \<Rightarrow> cxl_read \<Rightarrow> record_cache \<Rightarrow> record_cache result" where
  "promote_phase3 request new_entry r st =
     bindR (deref (mem st) new_entry) (\<lambda>e.
       if entry_type e = Placeholder then
         if update_during_promote e
         then withdraw (req_key request) new_entry (count_event promote_cancelled_before_publish_update st)
         else publish request new_entry r st
       else if entry_type e = Deleted
       then withdraw (req_key request) new_entry (count_event promote_cancelled_before_publish_update st)
       else if entry_type e = Removed then Inr st
       else Inl AssertFailed)"

definition promote_finish :: "promote_request \<Rightarrow> nat \<Rightarrow> cxl_read option \<Rightarrow> record_cache \<Rightarrow> record_cache result" where
  "promote_finish request new_entry read st =
     (case read of
        None \<Rightarrow> withdraw (req_key request) new_entry (count_event promote_cxl_read_failed_update st)
      | Some r \<Rightarrow> promote_phase3 request new_entry r st)"

text \<open>The whole promotion when no other thread runs in between, and a turn of the promote thread.\<close>

definition processOnPromotionRequest ::
    "bool \<Rightarrow> (epoch_manager \<Rightarrow> epoch_manager list) \<Rightarrow> promote_request \<Rightarrow> cxl_frame \<Rightarrow> bool \<Rightarrow> record_cache \<Rightarrow> record_cache result" where
  "processOnPromotionRequest skip waited request frame validated st =
     bindR (promote_phase1 waited request st) (\<lambda>(new_entry, st).
       if new_entry = 0 then Inr st
       else promote_finish request new_entry (promote_phase2 skip request frame validated) st)"

definition promote_turn ::
    "bool \<Rightarrow> (epoch_manager \<Rightarrow> epoch_manager list) \<Rightarrow> (nat \<Rightarrow> cxl_frame) \<Rightarrow> bool \<Rightarrow> record_cache \<Rightarrow> record_cache result" where
  "promote_turn skip waited frames validated st =
     (case promote_request_message_queue st of
        [] \<Rightarrow> Inr st
      | request # requests \<Rightarrow>
          bindR (processOnPromotionRequest skip waited request (frames (req_bf request)) validated
            (st\<lparr>promote_request_message_queue := requests\<rparr>)) (\<lambda>st.
              Inr (st\<lparr>inflight_promote_keys := inflight_promote_keys st - {req_key request}\<rparr>)))"

end
