(* ===== verification/RecordCacheInvariant.thy ===== *)
theory RecordCacheInvariant
  imports RecordCacheChains SieveScan EpochSafety RecordCachePromote SlabMemory
begin

text \<open>
  The invariant of the record cache between its operations: every key has one chain, whose entries behind
  the head are logically deleted; every entry that is not removed is in the chain of its key; the SIEVE
  queue holds exactly the allocated entries; the invalidation queue holds exactly the logically deleted
  ones; the counters count; and the slab allocator owns a block for every entry.
\<close>

section \<open>Views of memory\<close>

definition views :: "entry_mem \<Rightarrow> nat \<Rightarrow> (nat \<times> bytes \<times> RecordCacheType \<times> u64) option" where
  "views m p = map_option (\<lambda>e. (next_entry e, getKeySpan e, entry_type e, totalSizeForRecordCacheEntry e)) (m p)"

lemma views_D:
  assumes "views m' p = views m p"
  shows "map_option next_entry (m' p) = map_option next_entry (m p)" "key_at m' p = key_at m p" "type_at m' p = type_at m p"
    "map_option totalSizeForRecordCacheEntry (m' p) = map_option totalSizeForRecordCacheEntry (m p)" "m' p = None \<longleftrightarrow> m p = None"
  using assms by (cases "m p"; cases "m' p"; simp add: views_def key_at_def type_at_def)+

lemma views_dom: "views m' = views m \<Longrightarrow> dom m' = dom m"
proof -
  assume "views m' = views m"
  then have "m' p = None \<longleftrightarrow> m p = None" for p by (intro views_D(5)) simp
  then show ?thesis by (simp add: dom_def)
qed

lemma views_type: "views m' = views m \<Longrightarrow> type_at m' = type_at m" "views m' = views m \<Longrightarrow> key_at m' = key_at m"
  by (rule ext, rule views_D, simp)+

lemma views_unvisited:
  assumes "unvisited m' = unvisited m"
  shows "views m' = views m"
proof
  fix p
  show "views m' p = views m p"
  proof (cases "m p")
    case None
    then show ?thesis using unvisited_dom [OF assms, of p] by (simp add: views_def)
  next
    case (Some e)
    then obtain b where "m' p = Some (e\<lparr>visited := b\<rparr>)" using unvisited_eqD [OF assms] by blast
    then show ?thesis using Some by (simp add: views_def getKeySpan_def totalSizeForRecordCacheEntry_def)
  qed
qed

section \<open>The invariant\<close>

definition in_table :: "RecordCacheType \<Rightarrow> bool" where
  "in_table t \<longleftrightarrow> t = ReadOnlyMode \<or> t = Placeholder \<or> t = Deleted"

definition table_ok :: "record_cache \<Rightarrow> (bytes \<Rightarrow> nat list) \<Rightarrow> bool" where
  "table_ok st C \<longleftrightarrow> chains_of st C
     \<and> (\<forall>k p. p \<in> set (C k) \<longrightarrow> (\<exists>t. type_at (mem st) p = Some t \<and> in_table t))
     \<and> (\<forall>k p. p \<in> set (tl (C k)) \<longrightarrow> type_at (mem st) p = Some Deleted)
     \<and> (\<forall>p k t. type_at (mem st) p = Some t \<longrightarrow> key_at (mem st) p = Some k \<longrightarrow> t = Removed \<or> in_table t \<and> p \<in> set (C k))"

definition fifo_ok :: "record_cache \<Rightarrow> bool" where
  "fifo_ok st \<longleftrightarrow> distinct (sieve_fifo_queue (sieve_fifo_of st)) \<and> set (sieve_fifo_queue (sieve_fifo_of st)) = dom (mem st)
     \<and> hand_ok (sieve_fifo_of st)"

definition queue_ok :: "invalidation_queue \<Rightarrow> entry_mem \<Rightarrow> bool" where
  "queue_ok Q m \<longleftrightarrow> distinct (map entry_pointer Q) \<and> entry_pointer ` set Q = {p. type_at m p = Some Deleted}"

definition count_ok :: "record_cache \<Rightarrow> bool" where
  "count_ok st \<longleftrightarrow> active_entry_count st = card (dom (mem st)) mod 2 ^ 64
     \<and> pending_state_invalidated_from_hash st = card {p. type_at (mem st) p = Some Removed} mod 2 ^ 64"

definition pool_ok :: "slab_allocator \<Rightarrow> entry_mem \<Rightarrow> bool" where
  "pool_ok alloc m \<longleftrightarrow> slab_ok alloc (dom m) \<and> (\<forall>p e. m p = Some e \<longrightarrow> serves_bytes alloc p (totalSizeForRecordCacheEntry e))"

definition epochs_ok :: "epoch_manager \<Rightarrow> bool" where
  "epochs_ok em \<longleftrightarrow> length (worker_threads_epochs em) = total_workers_number em"

text \<open>\<open>R\<close> is the retry queue that the forward epoch thread keeps to itself.\<close>

definition cache_ok :: "record_cache \<Rightarrow> invalidation_queue \<Rightarrow> (bytes \<Rightarrow> nat list) \<Rightarrow> bool" where
  "cache_ok st R C \<longleftrightarrow> table_ok st C \<and> fifo_ok st \<and> queue_ok (R @ inval_queue st) (mem st) \<and> count_ok st
     \<and> pool_ok (allocator st) (mem st) \<and> epochs_ok (epochs st)"

section \<open>Changes the invariant does not see\<close>

lemma table_ok_views:
  assumes "table_ok st C" "find_head st' = find_head st" "views (mem st') = views (mem st)"
  shows "table_ok st' C"
proof -
  have v: "views (mem st') p = views (mem st) p" for p using assms(3) by simp
  have "chains_of st C" using assms(1) by (simp add: table_ok_def)
  then have "chains_of st' C" by (rule chains_cong [OF _ assms(2)]) (simp only: views_D(1,2) [OF v])
  then show ?thesis using assms(1) views_type [OF assms(3)] by (simp add: table_ok_def)
qed

lemma pool_ok_views: "pool_ok a m \<Longrightarrow> views m' = views m \<Longrightarrow> pool_ok a m'"
proof -
  assume a: "pool_ok a m" "views m' = views m"
  have "serves_bytes a p (totalSizeForRecordCacheEntry e)" if "m' p = Some e" for p e
  proof -
    have "map_option totalSizeForRecordCacheEntry (m p) = Some (totalSizeForRecordCacheEntry e)"
      using views_D(4) [of m' p m] a(2) that by simp
    then obtain d where "m p = Some d" "totalSizeForRecordCacheEntry d = totalSizeForRecordCacheEntry e" by auto
    then show ?thesis using a(1) unfolding pool_ok_def by metis
  qed
  then show ?thesis using a(1) views_dom [OF a(2)] by (simp add: pool_ok_def)
qed

lemma cache_ok_views:
  assumes "cache_ok st R C" "find_head st' = find_head st" "views (mem st') = views (mem st)"
    "sieve_fifo_of st' = sieve_fifo_of st" "inval_queue st' = inval_queue st" "active_entry_count st' = active_entry_count st"
    "pending_state_invalidated_from_hash st' = pending_state_invalidated_from_hash st" "allocator st' = allocator st"
    "epochs_ok (epochs st')"
  shows "cache_ok st' R C"
proof -
  have "table_ok st' C" using assms(1) by (intro table_ok_views [OF _ assms(2,3)]) (simp add: cache_ok_def)
  moreover have "pool_ok (allocator st) (mem st')" using assms(1) by (intro pool_ok_views [OF _ assms(3)]) (simp add: cache_ok_def)
  ultimately show ?thesis using assms(1,4-9)
    by (simp add: cache_ok_def fifo_ok_def queue_ok_def count_ok_def views_dom [OF assms(3)] views_type(1) [OF assms(3)])
qed

section \<open>Memory of entries\<close>

lemma slab_live_nonnull: "slab_ok a L \<Longrightarrow> p \<in> L \<Longrightarrow> p \<noteq> 0"
proof -
  assume a: "slab_ok a L" "p \<in> L"
  obtain c where "p \<in> class_blocks a c" by (rule live_block [OF a])
  then have "base_ptr a \<le> p" by (rule class_block_place(3))
  moreover have "0 < base_ptr a" using a(1) by (auto simp: slab_ok_def slab_inv_def region_inv_def)
  ultimately show ?thesis by linarith
qed

lemma pool_nonnull: "pool_ok a m \<Longrightarrow> m p \<noteq> None \<Longrightarrow> p \<noteq> 0"
  using slab_live_nonnull by (auto simp: pool_ok_def dom_def)

lemma deallocate_entry_ok:
  assumes "pool_ok (allocator st) (mem st)" "mem st p = Some e"
  obtains alloc where "deallocate_entry p st = Inr (st\<lparr>allocator := alloc, mem := (mem st)(p := None)\<rparr>)" "pool_ok alloc ((mem st)(p := None))"
proof -
  let ?a = "allocator st" and ?s = "totalSizeForRecordCacheEntry"
  have ok: "slab_ok ?a (dom (mem st))" and p: "p \<in> dom (mem st)" and sv: "serves_bytes ?a p (?s e)"
    using assms by (auto simp: pool_ok_def)
  obtain alloc where a: "do_deallocate p (?s e) ?a = Inr alloc" "slab_ok alloc (dom (mem st) - {p})"
    using slab_pool.release_law [OF ok p sv] by blast
  have "serves_bytes alloc q (?s d)" if "mem st q = Some d" "q \<noteq> p" for q d
    using slab_pool.release_keeps [OF ok p sv a(1), of q "?s d"] assms(1) that by (auto simp: pool_ok_def)
  then have "pool_ok alloc ((mem st)(p := None))" using a(2) by (auto simp: pool_ok_def)
  then show ?thesis using that a(1) assms(2) by (simp add: deallocate_entry_def deref_def)
qed

lemma allocate_entry_ok:
  assumes "pool_ok alloc m" "do_allocate None (totalSizeForRecordCacheEntry e) 8 alloc = Inr (a, alloc')"
    "unat (totalSizeForRecordCacheEntry e) \<le> MAX_BLOCK_SIZE"
  obtains p where "a = Block p" "m p = None" "p \<noteq> 0" "pool_ok alloc' (m(p \<mapsto> e))"
proof -
  let ?s = "totalSizeForRecordCacheEntry"
  have ok: "slab_ok alloc (dom m)" using assms(1) by (simp add: pool_ok_def)
  obtain p s' L' where "do_allocate None (?s e) 8 alloc = Inr (Block p, s')" using do_allocate_fresh [OF ok assms(3) order_refl no_rescue] assms(2)
    by (metis Inr_not_Inl)
  then have a: "a = Block p" "do_allocate None (?s e) 8 alloc = Inr (Block p, alloc')" using assms(2) by auto
  then have run: "slab_alloc (?s e) alloc = Inr (p, alloc')" by (simp add: slab_alloc_def)
  have new: "p \<notin> dom m" "slab_ok alloc' (insert p (dom m))" "serves_bytes alloc' p (?s e)" using slab_pool.alloc_law [OF ok run] by auto
  have "serves_bytes alloc' q (?s d)" if "m q = Some d" for q d
    using slab_pool.alloc_keeps [OF ok run, of q "?s d"] assms(1) that by (auto simp: pool_ok_def)
  then have "pool_ok alloc' (m(p \<mapsto> e))" using new by (auto simp: pool_ok_def)
  then show ?thesis using that [of p] a(1) new(1) slab_live_nonnull [OF new(2), of p] by auto
qed

section \<open>One entry changes\<close>

lemma table_okD:
  assumes "table_ok st C"
  shows "chains_of st C" "p \<in> set (C k) \<Longrightarrow> \<exists>t. type_at (mem st) p = Some t \<and> in_table t"
    "p \<in> set (tl (C k)) \<Longrightarrow> type_at (mem st) p = Some Deleted"
    "mem st p = Some e \<Longrightarrow> entry_type e \<noteq> Removed \<Longrightarrow> in_table (entry_type e) \<and> p \<in> set (C (getKeySpan e))"
proof -
  show "chains_of st C" "p \<in> set (C k) \<Longrightarrow> \<exists>t. type_at (mem st) p = Some t \<and> in_table t"
    "p \<in> set (tl (C k)) \<Longrightarrow> type_at (mem st) p = Some Deleted"
    using assms by (auto simp: table_ok_def)
  assume "mem st p = Some e" "entry_type e \<noteq> Removed"
  then have "type_at (mem st) p = Some (entry_type e)" "key_at (mem st) p = Some (getKeySpan e)" by (simp_all add: type_at_def key_at_def)
  then show "in_table (entry_type e) \<and> p \<in> set (C (getKeySpan e))"
    using assms \<open>entry_type e \<noteq> Removed\<close> unfolding table_ok_def by blast
qed

lemma in_tl: "x \<in> set (tl xs) \<Longrightarrow> x \<in> set xs" "x \<in> set (tl (remove1 y xs)) \<Longrightarrow> x \<in> set (tl xs)"
  by (cases xs; simp) (cases xs; auto split: if_splits dest: notin_set_remove1 [rotated]; metis list.sel(2) list.set_sel(2) notin_set_remove1)

lemma not_in_table_Removed [simp]: "\<not> in_table Removed"
  by (simp add: in_table_def)

lemma type_at_upd [simp]: "type_at (m(p \<mapsto> e)) = (type_at m)(p \<mapsto> entry_type e)" "type_at (m(p := None)) = (type_at m)(p := None)"
  by (auto simp: type_at_def)

lemma key_at_upd [simp]: "key_at (m(p \<mapsto> e)) = (key_at m)(p \<mapsto> getKeySpan e)" "key_at (m(p := None)) = (key_at m)(p := None)"
  by (auto simp: key_at_def)

text \<open>An entry of a chain changes its type, or anything but its key and its link.\<close>

lemma table_ok_retype:
  assumes "table_ok st C" "mem st p = Some e" "entry_type e \<noteq> Removed"
    "next_entry e' = next_entry e" "getKeySpan e' = getKeySpan e" "in_table (entry_type e')"
    "entry_type e' = Deleted \<or> p \<notin> set (tl (C (getKeySpan e)))"
    "find_head st' = find_head st" "mem st' = (mem st)(p \<mapsto> e')"
  shows "table_ok st' C"
proof -
  note T = table_okD [OF assms(1)]
  have p: "p \<in> set (C (getKeySpan e))" using T(4) [OF assms(2,3)] by simp
  have key: "k = getKeySpan e" if "p \<in> set (C k)" for k using chains_key [OF T(1) p that] .
  have tl: "entry_type e' = Deleted" if "p \<in> set (tl (C k))" for k
    using that assms(7) key [OF in_tl(1) [OF that]] by blast
  have "chains_of st' C"
    by (rule chains_cong [OF T(1) assms(8)]) (use assms(2,4,5,9) in \<open>auto simp: key_at_def\<close>)
  then show ?thesis using assms(1,2,5,6,9) tl p
    by (auto simp: table_ok_def key_at_def type_at_def split: if_splits)
qed

text \<open>An entry leaves its chain and becomes removed.\<close>

lemma remove_entry:
  assumes "table_ok st C" "mem st p = Some e" "p \<in> set (C k)"
  obtains m h where "unlink_entry p k st = Inr (True, st\<lparr>mem := m, hash_shards := h\<rparr>)"
    "m p = Some (e\<lparr>next_entry := 0\<rparr>)" "\<forall>q. q \<noteq> p \<longrightarrow> content m q = content (mem st) q"
    "\<forall>st'. find_head st' = find_head (st\<lparr>mem := m, hash_shards := h\<rparr>) \<longrightarrow>
      mem st' = m(p \<mapsto> setType Removed (e\<lparr>next_entry := 0\<rparr>)) \<longrightarrow> table_ok st' (C(k := remove1 p (C k)))"
proof -
  note T = table_okD [OF assms(1)]
  obtain m h where u: "unlink_entry p k st = Inr (True, st\<lparr>mem := m, hash_shards := h\<rparr>)"
    and c: "chains_of (st\<lparr>mem := m, hash_shards := h\<rparr>) (C(k := remove1 p (C k)))"
    and m: "m p = Some (e\<lparr>next_entry := 0\<rparr>)" "\<forall>q. q \<noteq> p \<longrightarrow> content m q = content (mem st) q"
    using unlink_entry_found [OF T(1) assms(3,2)] by blast
  let ?C = "C(k := remove1 p (C k))"
  have v: "key_at m q = key_at (mem st) q" "type_at m q = type_at (mem st) q" if "q \<noteq> p" for q
    using content_views(1,2) [of m q "mem st"] m(2) that by simp_all
  have d: "distinct (C k)" using chainsD(3) [OF T(1)] .
  have sub: "q \<in> set (C j) \<and> q \<noteq> p" if "q \<in> set (?C j)" for q j
    using that d chains_key [OF T(1) assms(3), of j] by (auto split: if_splits)
  have tl: "q \<in> set (tl (C j)) \<and> q \<noteq> p" if "q \<in> set (tl (?C j))" for q j
  proof -
    have "q \<in> set (tl (C j))" using that in_tl(2) by (auto split: if_splits)
    moreover have "q \<in> set (?C j)" using that by (rule in_tl(1))
    ultimately show ?thesis using sub by blast
  qed
  have "table_ok st' ?C" if st': "find_head st' = find_head (st\<lparr>mem := m, hash_shards := h\<rparr>)"
    "mem st' = m(p \<mapsto> setType Removed (e\<lparr>next_entry := 0\<rparr>))" for st'
  proof -
    have "chains_of st' ?C"
      by (rule chains_cong [OF c st'(1)]) (use st'(2) sub m(1) in \<open>auto simp: key_at_def\<close>)
    moreover have "\<exists>t. type_at (mem st') q = Some t \<and> in_table t" if "q \<in> set (?C j)" for q j
      using T(2) sub [OF that] v(2) [of q] st'(2) by auto
    moreover have "type_at (mem st') q = Some Deleted" if "q \<in> set (tl (?C j))" for q j
      using T(3) tl [OF that] v(2) [of q] st'(2) by auto
    moreover have "t = Removed \<or> in_table t \<and> q \<in> set (?C j)"
      if q: "type_at (mem st') q = Some t" "key_at (mem st') q = Some j" for q t j
    proof (cases "q = p")
      case True
      then show ?thesis using q st'(2) by (simp add: setType_def)
    next
      case False
      then have "type_at (mem st) q = Some t" "key_at (mem st) q = Some j" using q st'(2) v by auto
      then show ?thesis using assms(1) False d by (fastforce simp: table_ok_def)
    qed
    ultimately show ?thesis by (auto simp: table_ok_def)
  qed
  then show ?thesis using that u m by blast
qed

end
