(* ===== verification/RecordCacheOps.thy ===== *)
theory RecordCacheOps
  imports RecordCacheInvariant
begin

text \<open>
  The operations of the workers, of the forward epoch thread, of the SIEVE thread and of the promote thread
  never fail on a record cache in its invariant, and keep it; and their effect on the entries that a
  lookup or a promotion can see.
\<close>

section \<open>Live entries\<close>

definition is_live :: "RecordCacheType \<Rightarrow> bool" where
  "is_live t \<longleftrightarrow> t = ReadOnlyMode \<or> t = Placeholder"

text \<open>The read-only entries and the placeholders, without their links and visited bits.\<close>

definition live_view :: "entry_mem \<Rightarrow> nat \<Rightarrow> cache_entry option" where
  "live_view m p = (case m p of None \<Rightarrow> None
     | Some e \<Rightarrow> if is_live (entry_type e) then Some (e\<lparr>next_entry := 0, visited := False\<rparr>) else None)"

lemma live_view_upd:
  "live_view (m(p \<mapsto> e)) = (live_view m)(p := if is_live (entry_type e) then Some (e\<lparr>next_entry := 0, visited := False\<rparr>) else None)"
  "live_view (m(p := None)) = (live_view m)(p := None)"
  by (auto simp: live_view_def)

lemma live_view_unvisited:
  assumes "unvisited m' = unvisited m"
  shows "live_view m' = live_view m"
proof
  fix p
  show "live_view m' p = live_view m p"
    using unvisited_eqD [OF assms, of p] unvisited_dom [OF assms, of p] by (cases "m p") (auto simp: live_view_def)
qed

lemma live_view_content: "content m' p = content m p \<Longrightarrow> live_view m' p = live_view m p"
proof -
  assume a: "content m' p = content m p"
  show ?thesis using content_eqD [OF a] content_views(3) [OF a] by (cases "m p") (auto simp: live_view_def)
qed

lemma live_view_cong:
  assumes "\<And>q. q \<noteq> p \<Longrightarrow> content m' q = content m q"
  shows "live_view m' = (live_view m)(p := live_view m' p)"
  using live_view_content [OF assms] by auto

section \<open>Workers\<close>

lemma enterEpoch_ok:
  assumes "epochs_ok (epochs st)" "w < total_workers_number (epochs st)"
  obtains em where "enterEpoch w st = Inr (st\<lparr>epochs := em\<rparr>)" "epochs_ok em" "total_workers_number em = total_workers_number (epochs st)"
    "global_epoch em = global_epoch (epochs st)"
  using assms that [of "mark_snapshot w (global_epoch (epochs st)) (tag_active w (epochs st))"]
  by (auto simp: enterEpoch_def worker_thread_enter_epoch_def epochs_ok_def Let_def mark_snapshot_def tag_active_def)

lemma leaveEpoch_ok:
  assumes "epochs_ok (epochs st)" "w < total_workers_number (epochs st)"
  obtains em where "leaveEpoch w st = Inr (st\<lparr>epochs := em\<rparr>)" "epochs_ok em" "total_workers_number em = total_workers_number (epochs st)"
    "global_epoch em = global_epoch (epochs st)"
  using assms that [of "update_worker w (\<lambda>t. t\<lparr>active := False\<rparr>) (epochs st)"]
  by (auto simp: leaveEpoch_def worker_thread_leave_epoch_def epochs_ok_def)

text \<open>Only the head of a chain can be read-only.\<close>

definition visible_value :: "(u16 \<Rightarrow> u64 \<Rightarrow> bool) \<Rightarrow> entry_mem \<Rightarrow> nat list \<Rightarrow> bytes option" where
  "visible_value vis m ps = (case m (chain_head ps) of None \<Rightarrow> None
     | Some e \<Rightarrow> if ps \<noteq> [] \<and> entry_type e = ReadOnlyMode \<and> vis (last_modified_worker_id e) (tx_ts e) then Some (getValueSpan e) else None)"

lemma lookup_chain:
  assumes "table_ok st C"
  shows "(case find_head st k of None \<Rightarrow> Inr 0 | Some h \<Rightarrow> run_walk (lookup_walk vis (mem st) h)) =
    Inr (case visible_value vis (mem st) (C k) of None \<Rightarrow> 0 | Some _ \<Rightarrow> chain_head (C k))"
proof (cases "C k")
  case Nil
  then show ?thesis using chainsD(1) [OF table_okD(1) [OF assms], of k] by (simp add: visible_value_def split: option.splits)
next
  case (Cons p ps)
  let ?P = "\<lambda>q. \<exists>e. mem st q = Some e \<and> entry_type e = ReadOnlyMode \<and> vis (last_modified_worker_id e) (tx_ts e)"
  note ch = table_okD(1) [OF assms]
  have "\<not> ?P q" if "q \<in> set ps" for q using table_okD(3) [OF assms, of q k] that Cons by (auto simp: type_at_def)
  then have "find ?P (p # ps) = (if ?P p then Some p else None)" by (auto simp: find_None_iff)
  moreover have "links (mem st) p (p # ps)" using chainsD(2) [OF ch, of k] Cons by simp
  then have "lookup_walk vis (mem st) p = Some (Inr (case find ?P (p # ps) of None \<Rightarrow> 0 | Some q \<Rightarrow> q))" by (rule lookup_walk_links)
  ultimately show ?thesis using chainsD(1) [OF ch, of k] Cons by (auto simp: run_walk_def visible_value_def split: option.splits)
qed

lemma lookup_ok:
  assumes ok: "cache_ok st R C" and w: "w < total_workers_number (epochs st)" and k: "length key \<le> 126"
  obtains m em where "tryLookupInRecordCache skip vis dt key w st =
      Inr (visible_value vis (mem st) (C (BuildPrefixedKey skip dt key)), st\<lparr>mem := m, epochs := em\<rparr>)"
    "unvisited m = unvisited (mem st)" "epochs_ok em" "total_workers_number em = total_workers_number (epochs st)"
    "global_epoch em = global_epoch (epochs st)"
proof -
  let ?k = "BuildPrefixedKey skip dt key"
  let ?v = "visible_value vis (mem st) (C ?k)" and ?p = "chain_head (C ?k)"
  have tab: "table_ok st C" and e0: "epochs_ok (epochs st)" using ok by (simp_all add: cache_ok_def)
  obtain em where en: "enterEpoch w st = Inr (st\<lparr>epochs := em\<rparr>)" "epochs_ok em" "total_workers_number em = total_workers_number (epochs st)"
    "global_epoch em = global_epoch (epochs st)" by (rule enterEpoch_ok [OF e0 w])
  have run: "tryLookupInRecordCache skip vis dt key w st =
    bindR (Inr (case ?v of None \<Rightarrow> 0 | Some _ \<Rightarrow> ?p)) (\<lambda>entry.
      if entry = 0 then bindR (leaveEpoch w (st\<lparr>epochs := em\<rparr>)) (\<lambda>st. Inr (None, st))
      else bindR (deref (mem st) entry) (\<lambda>e. bindR (OnSieveFIFOAccess entry (mem st)) (\<lambda>m.
        bindR (leaveEpoch w (st\<lparr>epochs := em, mem := m\<rparr>)) (\<lambda>st. Inr (Some (getValueSpan e), st)))))"
    using k lookup_chain [where k = ?k and vis = vis, OF tab] by (simp add: tryLookupInRecordCache_def en(1) Let_def assertR_def cong: option.case_cong if_cong)
  show ?thesis
  proof (cases ?v)
    case None
    obtain em' where lv: "leaveEpoch w (st\<lparr>epochs := em\<rparr>) = Inr (st\<lparr>epochs := em, epochs := em'\<rparr>)" "epochs_ok em'"
      "total_workers_number em' = total_workers_number em" "global_epoch em' = global_epoch em"
      using leaveEpoch_ok [of "st\<lparr>epochs := em\<rparr>" w] en w by auto
    then show ?thesis using that [where m = "mem st" and em = em'] run None en(3,4) by simp
  next
    case (Some x)
    then obtain e where e: "mem st ?p = Some e" "x = getValueSpan e" "C ?k \<noteq> []"
      by (auto simp: visible_value_def split: option.splits if_splits)
    have p: "?p \<noteq> 0" using chainsD(5) [OF table_okD(1) [OF tab], of ?p ?k] e(3) by (cases "C ?k") auto
    let ?m = "(mem st)(?p \<mapsto> e\<lparr>visited := True\<rparr>)"
    obtain em' where lv: "leaveEpoch w (st\<lparr>epochs := em, mem := ?m\<rparr>) = Inr (st\<lparr>epochs := em, mem := ?m, epochs := em'\<rparr>)" "epochs_ok em'"
      "total_workers_number em' = total_workers_number em" "global_epoch em' = global_epoch em"
      using leaveEpoch_ok [of "st\<lparr>epochs := em, mem := ?m\<rparr>" w] en w by auto
    have "tryLookupInRecordCache skip vis dt key w st = Inr (Some x, st\<lparr>epochs := em, mem := ?m, epochs := em'\<rparr>)"
      using run Some p e lv(1) by (simp add: deref_def OnSieveFIFOAccess_def update_entry_def)
    then show ?thesis using that [where m = ?m and em = em'] Some lv en(3,4) unvisited_upd [of "mem st" ?p e True, OF e(1)] by simp
  qed
qed

lemma find_updatable:
  assumes "table_ok st C" "C k = p # ps" "mem st p = Some e"
  shows "FindFirstUpdatableEntry p (mem st) =
    Inr (\<lparr>target = (if entry_type e = ReadOnlyMode then p else 0), skipped_placeholder = (entry_type e = Placeholder), found_readonly_next = False\<rparr>,
         if entry_type e = Placeholder then (mem st)(p \<mapsto> e\<lparr>update_during_promote := True\<rparr>) else mem st)"
proof -
  note ch = table_okD(1) [OF assms(1)]
  have l: "p \<noteq> 0" "links (mem st) (next_entry e) ps" "p \<notin> set ps" using chainsD(2,3) [OF ch, of k] assms(2,3) by auto
  show ?thesis
  proof (cases ps)
    case Nil
    then show ?thesis using l assms(3) by (auto simp: FindFirstUpdatableEntry_def deref_def Let_def)
  next
    case (Cons q qs)
    then have q: "next_entry e = q" "q \<noteq> 0" "q \<noteq> p" using l by auto
    have "type_at (mem st) q = Some Deleted" using table_okD(3) [OF assms(1), of q k] assms(2) Cons by simp
    then obtain d where "mem st q = Some d" "entry_type d = Deleted" by (auto simp: type_at_def)
    then show ?thesis using l q assms(3) by (auto simp: FindFirstUpdatableEntry_def deref_def Let_def)
  qed
qed

text \<open>What an update does to the head of the chain: a read-only entry dies, a promotion is told.\<close>

definition invalidate_live :: "nat \<Rightarrow> (nat \<Rightarrow> cache_entry option) \<Rightarrow> nat \<Rightarrow> cache_entry option" where
  "invalidate_live p V = (case V p of None \<Rightarrow> V
     | Some e \<Rightarrow> V(p := if entry_type e = ReadOnlyMode then None else Some (e\<lparr>update_during_promote := True\<rparr>)))"

lemma queue_ok_push:
  assumes "queue_ok Q m" "type_at m p \<noteq> Some Deleted" "type_at m' = (type_at m)(p \<mapsto> Deleted)"
  shows "queue_ok (Q @ [\<lparr>entry_pointer = p, update_epoch = epoch\<rparr>]) m'"
proof -
  have s: "entry_pointer ` set Q = {q. type_at m q = Some Deleted}" using assms(1) by (simp add: queue_ok_def)
  then have "p \<notin> entry_pointer ` set Q" using assms(2) by simp
  moreover have "{q. type_at m' q = Some Deleted} = insert p {q. type_at m q = Some Deleted}" using assms(3) by auto
  ultimately show ?thesis using assms(1) s by (simp add: queue_ok_def)
qed

lemma cache_ok_dead:
  assumes ok: "cache_ok st R C" and p: "C k = p # ps" "mem st p = Some e" "entry_type e = ReadOnlyMode"
    and st': "find_head st' = find_head st" "mem st' = (mem st)(p \<mapsto> e\<lparr>entry_type := Deleted\<rparr>)" "sieve_fifo_of st' = sieve_fifo_of st"
      "inval_queue st' = push p epoch (inval_queue st)" "active_entry_count st' = active_entry_count st"
      "pending_state_invalidated_from_hash st' = pending_state_invalidated_from_hash st" "allocator st' = allocator st" "epochs_ok (epochs st')"
  shows "cache_ok st' R C"
proof -
  have tab: "table_ok st C" using ok by (simp add: cache_ok_def)
  have "table_ok st' C"
    by (rule table_ok_retype [OF tab p(2) _ _ _ _ _ st'(1,2)]) (simp_all add: p(3) getKeySpan_def in_table_def)
  moreover have dom: "dom (mem st') = dom (mem st)" using p(2) st'(2) by auto
  moreover have ty: "type_at (mem st') = (type_at (mem st))(p \<mapsto> Deleted)" using st'(2) by simp
  have tp: "type_at (mem st) p = Some ReadOnlyMode" using p by (simp add: type_at_def)
  then have "{q. type_at (mem st') q = Some Removed} = {q. type_at (mem st) q = Some Removed}" using ty by auto
  moreover have "queue_ok (R @ inval_queue st') (mem st')"
    using queue_ok_push [OF _ _ ty, of "R @ inval_queue st" epoch] ok tp by (simp add: cache_ok_def st'(4) push_def)
  moreover have "pool_ok (allocator st') (mem st')"
    using ok p(2) st'(2,7) dom by (auto simp: cache_ok_def pool_ok_def totalSizeForRecordCacheEntry_def)
  ultimately show ?thesis using ok st'(3,5,6,8) by (simp add: cache_ok_def fifo_ok_def count_ok_def)
qed

lemma cache_ok_dirty:
  assumes ok: "cache_ok st R C" and p: "mem st p = Some e"
    and st': "find_head st' = find_head st" "mem st' = (mem st)(p \<mapsto> e\<lparr>update_during_promote := True\<rparr>)" "sieve_fifo_of st' = sieve_fifo_of st"
      "inval_queue st' = inval_queue st" "active_entry_count st' = active_entry_count st"
      "pending_state_invalidated_from_hash st' = pending_state_invalidated_from_hash st" "allocator st' = allocator st" "epochs_ok (epochs st')"
  shows "cache_ok st' R C"
proof -
  have "views (mem st') = views (mem st)"
    using p st'(2) by (auto simp: views_def fun_eq_iff getKeySpan_def totalSizeForRecordCacheEntry_def)
  then show ?thesis using cache_ok_views [OF ok st'(1)] st'(3-8) by simp
qed

lemma count_event_fields [simp]:
  "find_head (count_event u st) = find_head st" "mem (count_event u st) = mem st" "sieve_fifo_of (count_event u st) = sieve_fifo_of st"
  "inval_queue (count_event u st) = inval_queue st" "active_entry_count (count_event u st) = active_entry_count st"
  "pending_state_invalidated_from_hash (count_event u st) = pending_state_invalidated_from_hash st"
  "allocator (count_event u st) = allocator st" "epochs (count_event u st) = epochs st"
  "promote_request_message_queue (count_event u st) = promote_request_message_queue st"
  by (simp_all add: count_event_def)

lemma null_unmapped: "cache_ok st R C \<Longrightarrow> mem st 0 = None"
  unfolding cache_ok_def by (metis pool_nonnull)

text \<open>The result of the search for an updatable entry, and what an update does with it.\<close>

lemma update_search:
  assumes ok: "cache_ok st R C"
  obtains (none) "live_view (mem st) (chain_head (C k)) = None"
      "(case find_head st k of None \<Rightarrow> Inr (\<lparr>target = 0, skipped_placeholder = False, found_readonly_next = False\<rparr>, mem st)
        | Some h \<Rightarrow> FindFirstUpdatableEntry h (mem st)) = Inr (\<lparr>target = 0, skipped_placeholder = False, found_readonly_next = False\<rparr>, mem st)"
  | (found) p ps e b where "C k = p # ps" "p \<noteq> 0" "mem st p = Some e" "is_live (entry_type e)" "b \<longleftrightarrow> entry_type e = Placeholder"
      "(case find_head st k of None \<Rightarrow> Inr (\<lparr>target = 0, skipped_placeholder = False, found_readonly_next = False\<rparr>, mem st)
        | Some h \<Rightarrow> FindFirstUpdatableEntry h (mem st)) = Inr (\<lparr>target = (if b then 0 else p), skipped_placeholder = b, found_readonly_next = False\<rparr>,
           if b then (mem st)(p \<mapsto> e\<lparr>update_during_promote := True\<rparr>) else mem st)"
proof (cases "C k")
  case Nil
  have "live_view (mem st) (chain_head (C k)) = None" using Nil null_unmapped [OF ok] by (simp add: live_view_def)
  then show ?thesis using none chainsD(1) [OF table_okD(1), of st C k] ok Nil by (simp add: cache_ok_def)
next
  case (Cons p ps)
  have tab: "table_ok st C" using ok by (simp add: cache_ok_def)
  obtain e where e: "mem st p = Some e" using chainsD(6) [OF table_okD(1) [OF tab], of p k] Cons by auto
  have "p \<noteq> 0" using chainsD(5) [OF table_okD(1) [OF tab], of p k] Cons by simp
  moreover have "in_table (entry_type e)" using table_okD(2) [OF tab, of p k] Cons e by (auto simp: type_at_def)
  moreover have h: "find_head st k = Some p" using chainsD(1) [OF table_okD(1) [OF tab], of k] Cons by simp
  ultimately show ?thesis
    using find_updatable [OF tab Cons e] none found [OF Cons _ e] Cons e by (cases "entry_type e") (auto simp: is_live_def in_table_def live_view_def)
qed

lemma update_ok:
  assumes ok: "cache_ok st R C" and w: "w < total_workers_number (epochs st)" and k: "length key \<le> 126"
  obtains b st' where "tryUpdateAndInvalidateRecordCache skip dt key w st = Inr (b, st')" "cache_ok st' R C"
    "live_view (mem st') = invalidate_live (chain_head (C (BuildPrefixedKey skip dt key))) (live_view (mem st))"
    "total_workers_number (epochs st') = total_workers_number (epochs st)"
    "b \<longleftrightarrow> type_at (mem st) (chain_head (C (BuildPrefixedKey skip dt key))) = Some ReadOnlyMode"
proof -
  let ?k = "BuildPrefixedKey skip dt key"
  let ?search = "case find_head st ?k of None \<Rightarrow> Inr (\<lparr>target = 0, skipped_placeholder = False, found_readonly_next = False\<rparr>, mem st)
        | Some h \<Rightarrow> FindFirstUpdatableEntry h (mem st)"
  have e0: "epochs_ok (epochs st)" using ok by (simp add: cache_ok_def)
  obtain em where en: "enterEpoch w st = Inr (st\<lparr>epochs := em\<rparr>)" "epochs_ok em" "total_workers_number em = total_workers_number (epochs st)"
    by (rule enterEpoch_ok [OF e0 w])
  have leave: "\<exists>em'. leaveEpoch w st' = Inr (st'\<lparr>epochs := em'\<rparr>) \<and> epochs_ok em' \<and> total_workers_number em' = total_workers_number (epochs st)"
    if "epochs st' = em" for st' using leaveEpoch_ok [of st' w] that en(2,3) w by metis
  have run: "tryUpdateAndInvalidateRecordCache skip dt key w st =
    bindR ?search (\<lambda>(res, m).
      let st = st\<lparr>epochs := em, mem := m\<rparr>;
          st = (if skipped_placeholder res then count_event update_skip_placeholder_update st else st);
          st = (if found_readonly_next res then count_event update_found_readonly_next_update st else st)
      in if target res = 0 then
           bindR (leaveEpoch w (count_event update_no_updatable_readonly_update st)) (\<lambda>st. Inr (False, st))
         else
           bindR (deref (mem st) (target res)) (\<lambda>e.
           let (swapped, e) = casType ReadOnlyMode Deleted e
           in if swapped then
                let st = st\<lparr>mem := (mem st)(target res \<mapsto> e)\<rparr>;
                    st = addToInvalidationQueue (target res) (getCurrentEpoch st) st
                in bindR (leaveEpoch w st) (\<lambda>st. Inr (True, st))
              else bindR (leaveEpoch w st) (\<lambda>st. Inr (False, st))))"
    unfolding tryUpdateAndInvalidateRecordCache_def en(1) using k
    by (simp add: assertR_def Let_def cong: option.case_cong if_cong)
  show ?thesis
  proof (rule update_search [OF ok, of ?k])
    assume none: "live_view (mem st) (chain_head (C ?k)) = None"
      "?search = Inr (\<lparr>target = 0, skipped_placeholder = False, found_readonly_next = False\<rparr>, mem st)"
    let ?st = "count_event update_no_updatable_readonly_update (st\<lparr>epochs := em, mem := mem st\<rparr>)"
    obtain em' where em': "leaveEpoch w ?st = Inr (?st\<lparr>epochs := em'\<rparr>)" "epochs_ok em'" "total_workers_number em' = total_workers_number (epochs st)"
      using leave [of ?st] by auto
    have "cache_ok (?st\<lparr>epochs := em'\<rparr>) R C" using em'(2) by (intro cache_ok_views [OF ok]) simp_all
    moreover have "type_at (mem st) (chain_head (C ?k)) \<noteq> Some ReadOnlyMode"
      using none(1) by (auto simp: live_view_def type_at_def is_live_def)
    ultimately show ?thesis using that [of False "?st\<lparr>epochs := em'\<rparr>"] run none em' by (simp add: invalidate_live_def)
  next
    fix p ps e b
    assume f: "C ?k = p # ps" "p \<noteq> 0" "mem st p = Some e" "is_live (entry_type e)" "b \<longleftrightarrow> entry_type e = Placeholder"
      "?search = Inr (\<lparr>target = (if b then 0 else p), skipped_placeholder = b, found_readonly_next = False\<rparr>,
           if b then (mem st)(p \<mapsto> e\<lparr>update_during_promote := True\<rparr>) else mem st)"
    show ?thesis
    proof (cases b)
      case True
      let ?st = "count_event update_no_updatable_readonly_update (count_event update_skip_placeholder_update
        (st\<lparr>epochs := em, mem := (mem st)(p \<mapsto> e\<lparr>update_during_promote := True\<rparr>)\<rparr>))"
      obtain em' where em': "leaveEpoch w ?st = Inr (?st\<lparr>epochs := em'\<rparr>)" "epochs_ok em'" "total_workers_number em' = total_workers_number (epochs st)"
        using leave [of ?st] by auto
      have "cache_ok (?st\<lparr>epochs := em'\<rparr>) R C" using em'(2) by (intro cache_ok_dirty [OF ok f(3)]) simp_all
      moreover have "live_view (mem (?st\<lparr>epochs := em'\<rparr>)) = invalidate_live (chain_head (C ?k)) (live_view (mem st))"
        using f True by (auto simp: invalidate_live_def live_view_upd live_view_def [of "mem st" p] is_live_def)
      moreover have "type_at (mem st) (chain_head (C ?k)) \<noteq> Some ReadOnlyMode" using f(1,3,5) True by (simp add: type_at_def)
      ultimately show ?thesis using that [of False "?st\<lparr>epochs := em'\<rparr>"] run f(6) True em' by simp
    next
      case False
      then have ro: "entry_type e = ReadOnlyMode" using f(4,5) by (simp add: is_live_def)
      let ?st = "addToInvalidationQueue p (global_epoch em) (st\<lparr>epochs := em, mem := (mem st)(p \<mapsto> e\<lparr>entry_type := Deleted\<rparr>)\<rparr>)"
      obtain em' where em': "leaveEpoch w ?st = Inr (?st\<lparr>epochs := em'\<rparr>)" "epochs_ok em'" "total_workers_number em' = total_workers_number (epochs st)"
        using leave [of ?st] by (auto simp: addToInvalidationQueue_def)
      have "cache_ok (?st\<lparr>epochs := em'\<rparr>) R C"
        by (rule cache_ok_dead [OF ok f(1,3) ro, where epoch = "global_epoch em"]) (simp_all add: addToInvalidationQueue_def em'(2))
      moreover have "live_view (mem (?st\<lparr>epochs := em'\<rparr>)) = invalidate_live (chain_head (C ?k)) (live_view (mem st))"
        using f ro by (simp add: addToInvalidationQueue_def invalidate_live_def live_view_upd live_view_def [of "mem st" p] is_live_def)
      moreover have "type_at (mem st) (chain_head (C ?k)) = Some ReadOnlyMode" using f(1,3) ro by (simp add: type_at_def)
      moreover have "tryUpdateAndInvalidateRecordCache skip dt key w st = Inr (True, ?st\<lparr>epochs := em'\<rparr>)"
        using run f(2,3,6) False ro em'(1) by (simp add: deref_def casType_def getCurrentEpoch_def get_global_epoch_def)
      ultimately show ?thesis using that [of True "?st\<lparr>epochs := em'\<rparr>"] em'(3) by simp
    qed
  qed
qed

section \<open>Removal from the table\<close>

lemma fetch_mod:
  "fetch_add (n mod 2 ^ 64) 1 = Suc n mod 2 ^ 64"
  "0 < n \<Longrightarrow> fetch_sub (n mod 2 ^ 64) 1 = (n - 1) mod 2 ^ 64"
proof -
  show "fetch_add (n mod 2 ^ 64) 1 = Suc n mod 2 ^ 64" by (simp add: fetch_add_def mod_Suc_eq)
  assume n: "0 < n"
  have "(int (n mod 2 ^ 64) - 1) mod 2 ^ 64 = (int n - 1) mod 2 ^ 64" by (simp add: zmod_int mod_diff_left_eq)
  also have "\<dots> = int ((n - 1) mod 2 ^ 64)" using n by (simp add: zmod_int of_nat_diff)
  finally show "fetch_sub (n mod 2 ^ 64) 1 = (n - 1) mod 2 ^ 64" by (simp add: fetch_sub_def)
qed

lemma finite_type: "fifo_ok st \<Longrightarrow> finite {q. type_at (mem st) q = Some t}"
  unfolding fifo_ok_def by (metis (mono_tags, lifting) List.finite_set domIff finite_subset mem_Collect_eq option.distinct(1)
      option.simps(8) subsetI type_at_def)

lemma removed_entry:
  assumes ok: "cache_ok st R C" and e: "mem st p = Some e" "entry_type e \<noteq> Removed"
  obtains m h where "unlink_entry p (getKeySpan e) st = Inr (True, st\<lparr>mem := m, hash_shards := h\<rparr>)"
    "m p = Some (e\<lparr>next_entry := 0\<rparr>)"
    "type_at (m(p \<mapsto> setType Removed (e\<lparr>next_entry := 0\<rparr>))) = (type_at (mem st))(p \<mapsto> Removed)"
    "live_view (m(p \<mapsto> setType Removed (e\<lparr>next_entry := 0\<rparr>))) = (live_view (mem st))(p := None)"
    "\<forall>st' R'. find_head st' = find_head (st\<lparr>mem := m, hash_shards := h\<rparr>) \<longrightarrow> mem st' = m(p \<mapsto> setType Removed (e\<lparr>next_entry := 0\<rparr>)) \<longrightarrow>
      sieve_fifo_of st' = sieve_fifo_of st \<longrightarrow> active_entry_count st' = active_entry_count st \<longrightarrow>
      pending_state_invalidated_from_hash st' = fetch_add (pending_state_invalidated_from_hash st) 1 \<longrightarrow> allocator st' = allocator st \<longrightarrow>
      epochs_ok (epochs st') \<longrightarrow> queue_ok (R' @ inval_queue st') (mem st') \<longrightarrow>
      cache_ok st' R' (C(getKeySpan e := remove1 p (C (getKeySpan e))))"
proof -
  let ?k = "getKeySpan e" and ?e = "setType Removed (e\<lparr>next_entry := 0\<rparr>)"
  have tab: "table_ok st C" and fifo: "fifo_ok st" using ok by (simp_all add: cache_ok_def)
  have in_chain: "p \<in> set (C ?k)" using table_okD(4) [OF tab e] by simp
  obtain m h where u: "unlink_entry p ?k st = Inr (True, st\<lparr>mem := m, hash_shards := h\<rparr>)" "m p = Some (e\<lparr>next_entry := 0\<rparr>)"
    and c': "\<forall>q. q \<noteq> p \<longrightarrow> content m q = content (mem st) q"
    and table: "\<forall>st'. find_head st' = find_head (st\<lparr>mem := m, hash_shards := h\<rparr>) \<longrightarrow>
      mem st' = m(p \<mapsto> ?e) \<longrightarrow> table_ok st' (C(?k := remove1 p (C ?k)))"
    by (rule remove_entry [OF tab e(1) in_chain])
  have c: "content m q = content (mem st) q" if "q \<noteq> p" for q using c' that by blast
  let ?m = "m(p \<mapsto> ?e)"
  have ty: "type_at ?m = (type_at (mem st))(p \<mapsto> Removed)" using content_views(2) [OF c] by (auto simp: fun_eq_iff setType_def)
  have lv: "live_view ?m = (live_view (mem st))(p := None)"
    using live_view_content [OF c] by (auto simp: fun_eq_iff live_view_upd setType_def is_live_def)
  have "?m q = None \<longleftrightarrow> mem st q = None" for q using content_views(3) [OF c, of q] e(1) by (cases "q = p") auto
  then have dom: "dom ?m = dom (mem st)" by (simp add: dom_def)
  have size: "\<exists>d. mem st q = Some d \<and> totalSizeForRecordCacheEntry d = totalSizeForRecordCacheEntry d'" if mq: "?m q = Some d'" for q d'
  proof (cases "q = p")
    case True
    then show ?thesis using mq e(1) by (auto simp: setType_def totalSizeForRecordCacheEntry_def)
  next
    case False
    then have "content (mem st) q = content m q" using c by simp
    then obtain n where "mem st q = Some (d'\<lparr>next_entry := n\<rparr>)" using content_eqD [of "mem st" q m d'] mq False by auto
    then show ?thesis by (simp add: totalSizeForRecordCacheEntry_def)
  qed
  have pool: "pool_ok (allocator st) ?m" using ok dom size unfolding cache_ok_def pool_ok_def by metis
  have "type_at (mem st) p \<noteq> Some Removed" using e by (simp add: type_at_def)
  moreover have "{q. type_at ?m q = Some Removed} = insert p {q. type_at (mem st) q = Some Removed}" unfolding ty by auto
  ultimately have card: "card {q. type_at ?m q = Some Removed} = Suc (card {q. type_at (mem st) q = Some Removed})"
    using finite_type [OF fifo, of Removed] by simp
  have "cache_ok st' R' (C(?k := remove1 p (C ?k)))"
    if "find_head st' = find_head (st\<lparr>mem := m, hash_shards := h\<rparr>)" "mem st' = ?m" "sieve_fifo_of st' = sieve_fifo_of st"
      "active_entry_count st' = active_entry_count st" "pending_state_invalidated_from_hash st' = fetch_add (pending_state_invalidated_from_hash st) 1"
      "allocator st' = allocator st" "epochs_ok (epochs st')" "queue_ok (R' @ inval_queue st') (mem st')" for st' R'
  proof -
    have "table_ok st' (C(?k := remove1 p (C ?k)))" using table that(1,2) by blast
    then show ?thesis using that(3-8) ok pool dom card fetch_mod(1)
      unfolding cache_ok_def count_ok_def fifo_ok_def that(2) by simp
  qed
  then show ?thesis using that u ty lv by blast
qed

end
