(* ===== verification/RecordCacheThreads.thy ===== *)
theory RecordCacheThreads
  imports RecordCacheOps
begin

text \<open>
  The background threads on a record cache in its invariant: the forward epoch thread takes logically
  deleted entries out of the table, the SIEVE thread frees entries, the promote thread installs,
  publishes and withdraws them.
\<close>

lemma find_head_shards [simp]: "find_head (st\<lparr>mem := m, hash_shards := h\<rparr>) = find_head (st\<lparr>hash_shards := h\<rparr>)"
  by (rule find_head_cong) simp_all

section \<open>Forward epoch thread\<close>

lemma queue_ok_drop:
  assumes "queue_ok (Q1 @ item # Q2) m" "type_at m' = (type_at m)(entry_pointer item \<mapsto> Removed)"
  shows "queue_ok (Q1 @ Q2) m'"
proof -
  have d: "distinct (map entry_pointer (Q1 @ item # Q2))" and s: "entry_pointer ` set (Q1 @ item # Q2) = {q. type_at m q = Some Deleted}"
    using assms(1) by (simp_all add: queue_ok_def)
  have "entry_pointer item \<notin> entry_pointer ` set (Q1 @ Q2)" using d by auto
  moreover have "{q. type_at m' q = Some Deleted} = {q. type_at m q = Some Deleted} - {entry_pointer item}" using assms(2) by auto
  ultimately have "entry_pointer ` set (Q1 @ Q2) = {q. type_at m' q = Some Deleted}" using s [symmetric] by auto
  then show ?thesis using d by (simp add: queue_ok_def)
qed

lemma queue_member: "queue_ok Q m \<Longrightarrow> item \<in> set Q \<Longrightarrow> type_at m (entry_pointer item) = Some Deleted"
  by (auto simp: queue_ok_def)

lemma forward_item_ok:
  assumes ok: "cache_ok st (retry @ item # rest) C"
  obtains st' retry' C' where "forward_item item (st, retry) = Inr (st', retry')" "cache_ok st' (retry' @ rest) C'"
    "live_view (mem st') = live_view (mem st)" "epochs st' = epochs st" "inval_queue st' = inval_queue st"
    "is_safe_to_invalidate (update_epoch item) (epochs st) \<longrightarrow> retry' = retry"
proof (cases "is_safe_to_invalidate (update_epoch item) (epochs st)")
  case False
  then show ?thesis using that [of st "retry @ [item]" C] ok by (simp add: forward_item_def)
next
  case True
  let ?p = "entry_pointer item"
  have q: "queue_ok ((retry @ item # rest) @ inval_queue st) (mem st)" using ok by (simp add: cache_ok_def)
  then have "type_at (mem st) ?p = Some Deleted" by (rule queue_member) simp
  then obtain e where e: "mem st ?p = Some e" "entry_type e = Deleted" by (auto simp: type_at_def)
  then have nr: "entry_type e \<noteq> Removed" by simp
  obtain m h where u: "unlink_entry ?p (getKeySpan e) st = Inr (True, st\<lparr>mem := m, hash_shards := h\<rparr>)" "m ?p = Some (e\<lparr>next_entry := 0\<rparr>)"
    and v: "type_at (m(?p \<mapsto> setType Removed (e\<lparr>next_entry := 0\<rparr>))) = (type_at (mem st))(?p \<mapsto> Removed)"
      "live_view (m(?p \<mapsto> setType Removed (e\<lparr>next_entry := 0\<rparr>))) = (live_view (mem st))(?p := None)"
    and ok': "\<forall>st' R'. find_head st' = find_head (st\<lparr>mem := m, hash_shards := h\<rparr>) \<longrightarrow> mem st' = m(?p \<mapsto> setType Removed (e\<lparr>next_entry := 0\<rparr>)) \<longrightarrow>
      sieve_fifo_of st' = sieve_fifo_of st \<longrightarrow> active_entry_count st' = active_entry_count st \<longrightarrow>
      pending_state_invalidated_from_hash st' = fetch_add (pending_state_invalidated_from_hash st) 1 \<longrightarrow> allocator st' = allocator st \<longrightarrow>
      epochs_ok (epochs st') \<longrightarrow> queue_ok (R' @ inval_queue st') (mem st') \<longrightarrow>
      cache_ok st' R' (C(getKeySpan e := remove1 ?p (C (getKeySpan e))))"
    by (rule removed_entry [OF ok e(1) nr])
  let ?m = "m(?p \<mapsto> setType Removed (e\<lparr>next_entry := 0\<rparr>))"
  let ?st = "IncrementPendingStateInvalidatedFromHash (st\<lparr>mem := ?m, hash_shards := h\<rparr>)"
  have "forward_item item (st, retry) = Inr (?st, retry)"
    using True e(1) u by (simp add: forward_item_def deref_def update_entry_def IncrementPendingStateInvalidatedFromHash_def)
  moreover have "queue_ok ((retry @ rest) @ inval_queue st) ?m" using queue_ok_drop [of retry item "rest @ inval_queue st" "mem st" ?m] q v(1) by simp
  then have "cache_ok ?st (retry @ rest) (C(getKeySpan e := remove1 ?p (C (getKeySpan e))))"
    using ok by (intro ok' [rule_format]) (simp_all add: IncrementPendingStateInvalidatedFromHash_def cache_ok_def)
  moreover have "live_view (mem ?st) = live_view (mem st)"
    using v(2) e by (simp add: IncrementPendingStateInvalidatedFromHash_def fun_eq_iff live_view_def is_live_def)
  ultimately show ?thesis using that [of ?st retry] by (simp add: IncrementPendingStateInvalidatedFromHash_def)
qed

lemma forward_items_ok:
  "cache_ok st (retry @ items) C \<Longrightarrow> \<exists>st' retry' C'. foldR forward_item items (st, retry) = Inr (st', retry') \<and> cache_ok st' retry' C'
     \<and> live_view (mem st') = live_view (mem st) \<and> epochs st' = epochs st \<and> inval_queue st' = inval_queue st
     \<and> ((\<forall>item\<in>set items. is_safe_to_invalidate (update_epoch item) (epochs st)) \<longrightarrow> retry' = retry)"
proof (induction items arbitrary: st retry C)
  case (Cons item items)
  obtain st1 retry1 C1 where s: "forward_item item (st, retry) = Inr (st1, retry1)" "cache_ok st1 (retry1 @ items) C1"
    "live_view (mem st1) = live_view (mem st)" "epochs st1 = epochs st" "inval_queue st1 = inval_queue st"
    "is_safe_to_invalidate (update_epoch item) (epochs st) \<longrightarrow> retry1 = retry"
    by (rule forward_item_ok [OF Cons.prems])
  from Cons.IH [OF s(2)] s show ?case by auto
qed auto

lemma forward_round_start:
  assumes "cache_ok st R C"
  shows "cache_ok (st\<lparr>epochs := periodically_advance_global_epoch (epochs st), inval_queue := []\<rparr>) (R @ inval_queue st) C" (is "cache_ok ?st _ _")
proof -
  have "table_ok ?st C" using assms by (intro table_ok_views [of st C ?st]) (simp_all add: cache_ok_def)
  then show ?thesis using assms
    by (simp add: cache_ok_def fifo_ok_def count_ok_def epochs_ok_def periodically_advance_global_epoch_def)
qed

lemma forward_round_ok:
  assumes "cache_ok st R C"
  obtains st' R' C' where "forward_round (st, R) = Inr (st', R')" "cache_ok st' R' C'" "live_view (mem st') = live_view (mem st)"
    "total_workers_number (epochs st') = total_workers_number (epochs st)"
proof -
  let ?st = "st\<lparr>epochs := periodically_advance_global_epoch (epochs st), inval_queue := []\<rparr>"
  have "cache_ok ?st (R @ inval_queue st) C" by (rule forward_round_start [OF assms])
  then have "cache_ok ?st ([] @ (R @ inval_queue st)) C" by simp
  from forward_items_ok [OF this] obtain st' R' C' where "foldR forward_item (R @ inval_queue st) (?st, []) = Inr (st', R')" "cache_ok st' R' C'"
    "live_view (mem st') = live_view (mem ?st)" "epochs st' = epochs ?st" by blast
  then show ?thesis using that [of st' R' C'] by (simp add: forward_round_def pop_all_def periodically_advance_global_epoch_def)
qed

section \<open>SIEVE thread\<close>

text \<open>
  Between its choice and its fate a victim is out of the queue; \<open>held\<close> is the state with such victims back
  in it. Evictions only make read-only entries disappear.
\<close>

definition held :: "nat list \<Rightarrow> record_cache \<Rightarrow> record_cache" where
  "held vs st = st\<lparr>sieve_fifo_of := (sieve_fifo_of st)\<lparr>sieve_fifo_queue := sieve_fifo_queue (sieve_fifo_of st) @ vs\<rparr>\<rparr>"

definition shrinks :: "(nat \<Rightarrow> cache_entry option) \<Rightarrow> (nat \<Rightarrow> cache_entry option) \<Rightarrow> bool" where
  "shrinks V V' \<longleftrightarrow> (\<forall>q. V' q = V q \<or> V' q = None \<and> (\<exists>e. V q = Some e \<and> entry_type e = ReadOnlyMode))"

lemma shrinks_refl [simp]: "shrinks V V"
  by (simp add: shrinks_def)

lemma shrinks_trans: "shrinks V V' \<Longrightarrow> shrinks V' V'' \<Longrightarrow> shrinks V V''"
  unfolding shrinks_def by metis

lemma held_fields [simp]:
  "mem (held vs st) = mem st" "find_head (held vs st) = find_head st" "inval_queue (held vs st) = inval_queue st"
  "active_entry_count (held vs st) = active_entry_count st" "allocator (held vs st) = allocator st" "epochs (held vs st) = epochs st"
  "pending_state_invalidated_from_hash (held vs st) = pending_state_invalidated_from_hash st"
  "sieve_fifo_queue (sieve_fifo_of (held vs st)) = sieve_fifo_queue (sieve_fifo_of st) @ vs"
  "hand_pointer (sieve_fifo_of (held vs st)) = hand_pointer (sieve_fifo_of st)"
  by (simp_all add: held_def)

lemma reinsert_held: "v \<noteq> 0 \<Longrightarrow> reinsert_victim v st = held [v] st"
  by (simp add: reinsert_victim_def ReInsertIntoSieveFIFO_def held_def)

lemma held_Nil [simp]: "held [] st = st"
  by (simp add: held_def)

lemma hand_ok_held: "hand_ok (sieve_fifo_of st) \<Longrightarrow> hand_ok (sieve_fifo_of (held vs st))"
  by (auto simp: hand_ok_def)

text \<open>An entry leaves memory; \<open>C'\<close> are the chains without it.\<close>

lemma cache_ok_freed:
  assumes ok: "cache_ok (held (v # vs) st) R C" and hand: "hand_ok (sieve_fifo_of st)" and v: "mem st v = Some e" "entry_type e \<noteq> Deleted"
    and chains: "chains_of st' C'" "\<And>k. set (C' k) = set (C k) - {v}" "\<And>k. set (tl (C' k)) \<subseteq> set (tl (C k))"
    and st': "mem st' = (mem st)(v := None)" "sieve_fifo_of st' = sieve_fifo_of st" "inval_queue st' = inval_queue st"
      "active_entry_count st' = fetch_sub (active_entry_count st) 1" "epochs st' = epochs st" "pool_ok (allocator st') (mem st')"
      "pending_state_invalidated_from_hash st' = (if entry_type e = Removed then fetch_sub (pending_state_invalidated_from_hash st) 1
         else pending_state_invalidated_from_hash st)"
  shows "cache_ok (held vs st') R C'"
proof -
  have tab: "table_ok (held (v # vs) st) C" and fifo: "fifo_ok (held (v # vs) st)" and cnt: "count_ok (held (v # vs) st)"
    and q: "queue_ok (R @ inval_queue st) (mem st)" using ok by (simp_all add: cache_ok_def)
  have ty: "type_at (mem st') = (type_at (mem st))(v := None)" and ky: "key_at (mem st') = (key_at (mem st))(v := None)" using st'(1) by simp_all
  have "table_ok (held vs st') C'"
  proof -
    have c: "chains_of (held vs st') C'" by (rule chains_cong [OF chains(1)]) simp_all
    have "\<exists>t. type_at (mem st') p = Some t \<and> in_table t" if "p \<in> set (C' k)" for p k
      using table_okD(2) [OF tab, of p k] that chains(2) [of k] ty by auto
    moreover have "type_at (mem st') p = Some Deleted" if "p \<in> set (tl (C' k))" for p k
      using table_okD(3) [OF tab, of p k] that chains(2,3) [of k] ty in_tl(1) [OF that] by auto
    moreover have "t = Removed \<or> in_table t \<and> p \<in> set (C' k)" if "type_at (mem st') p = Some t" "key_at (mem st') p = Some k" for p k t
      using tab that chains(2) [of k] unfolding table_ok_def ty ky by (auto split: if_splits)
    ultimately show ?thesis using c unfolding table_ok_def held_fields by blast
  qed
  moreover have "fifo_ok (held vs st')"
  proof -
    have "distinct (sieve_fifo_queue (sieve_fifo_of st) @ v # vs)" "set (sieve_fifo_queue (sieve_fifo_of st) @ v # vs) = dom (mem st)"
      using fifo by (simp_all add: fifo_ok_def)
    then have "distinct (sieve_fifo_queue (sieve_fifo_of st) @ vs)" "set (sieve_fifo_queue (sieve_fifo_of st) @ vs) = dom (mem st')"
      using st'(1) by auto
    then show ?thesis using hand_ok_held [of st' vs] hand by (simp add: fifo_ok_def st'(2))
  qed
  moreover have "queue_ok (R @ inval_queue st') (mem st')"
  proof -
    have "type_at (mem st) v \<noteq> Some Deleted" using v by (simp add: type_at_def)
    then have "{p. type_at (mem st') p = Some Deleted} = {p. type_at (mem st) p = Some Deleted}" unfolding ty by auto
    then show ?thesis using q by (simp add: queue_ok_def st'(3))
  qed
  moreover have "count_ok (held vs st')"
  proof -
    have fin: "finite (dom (mem st))" using fifo by (metis List.finite_set fifo_ok_def held_fields(1))
    have a: "dom (mem st') = dom (mem st) - {v}" "v \<in> dom (mem st)" using st'(1) v(1) by auto
    have "0 < card (dom (mem st))" using a(2) fin by (metis card_gt_0_iff empty_iff)
    then have c1: "active_entry_count st' = card (dom (mem st')) mod 2 ^ 64"
      using cnt fetch_mod(2) [of "card (dom (mem st))"] a fin by (simp add: count_ok_def st'(4))
    let ?S = "{p. type_at (mem st) p = Some Removed}" and ?S' = "{p. type_at (mem st') p = Some Removed}"
    have fs: "finite ?S" using finite_type [OF fifo, of Removed] by simp
    have s: "?S' = ?S - {v}" "v \<in> ?S \<longleftrightarrow> entry_type e = Removed" using v(1) ty by (auto simp: type_at_def)
    have "0 < card ?S" if "entry_type e = Removed" using s(2) that fs by (metis card_gt_0_iff empty_iff)
    then have "pending_state_invalidated_from_hash st' = card ?S' mod 2 ^ 64"
      using cnt fetch_mod(2) [of "card ?S"] s fs by (auto simp: count_ok_def st'(7))
    then show ?thesis using c1 by (simp add: count_ok_def)
  qed
  ultimately show ?thesis using ok st'(5,6) by (simp add: cache_ok_def)
qed

lemma handle_removed_ok:
  assumes ok: "cache_ok (held (v # vs) st) R C" and hand: "hand_ok (sieve_fifo_of st)" and v: "type_at (mem st) v = Some Removed"
  obtains st' where "handle_state100_victim v st = Inr st'" "cache_ok (held vs st') R C" "live_view (mem st') = live_view (mem st)"
    "sieve_fifo_of st' = sieve_fifo_of st" "epochs st' = epochs st" "type_at (mem st') = (type_at (mem st))(v := None)"
proof -
  obtain e where e: "mem st v = Some e" "entry_type e = Removed" using v by (auto simp: type_at_def)
  have tab: "table_ok (held (v # vs) st) C" using ok by (simp add: cache_ok_def)
  have "pool_ok (allocator st) (mem st)" using ok by (simp add: cache_ok_def)
  then obtain alloc where d: "deallocate_entry v st = Inr (st\<lparr>allocator := alloc, mem := (mem st)(v := None)\<rparr>)" "pool_ok alloc ((mem st)(v := None))"
    using e(1) by (rule deallocate_entry_ok)
  define st' where "st' = DecrementPendingStateInvalidatedFromHash (st\<lparr>allocator := alloc, mem := (mem st)(v := None),
    active_entry_count := fetch_sub (active_entry_count st) 1\<rparr>)\<lparr>sieve_eviction_entries := fetch_add (sieve_eviction_entries st) 1\<rparr>"
  note defs = st'_def DecrementPendingStateInvalidatedFromHash_def
  have notin: "v \<notin> set (C k)" for k using table_okD(2) [OF tab, of v k] v by auto
  have "chains_of st' C"
    by (rule chains_cong [OF table_okD(1) [OF tab]]) (use notin in \<open>auto simp: defs\<close>)
  then have "cache_ok (held vs st') R C"
    by (rule cache_ok_freed [OF ok hand e(1), rotated]) (use notin d(2) e(2) in \<open>auto simp: defs\<close>)
  moreover have "live_view (mem st') = live_view (mem st)"
    using e by (auto simp: defs live_view_upd fun_eq_iff live_view_def is_live_def)
  moreover have "handle_state100_victim v st = Inr st'" using d(1) by (simp add: handle_state100_victim_def defs Let_def)
  ultimately show ?thesis using that [of st'] by (simp add: defs)
qed

lemma evict_read_only_ok:
  assumes ok: "cache_ok (held [v] st) R C" and hand: "hand_ok (sieve_fifo_of st)" and v: "mem st v = Some e" "entry_type e = ReadOnlyMode"
  obtains st' C' where "evict_read_only v st = Inr st'" "cache_ok st' R C'" "live_view (mem st') = (live_view (mem st))(v := None)"
    "epochs st' = epochs st"
proof -
  let ?k = "getKeySpan e" and ?e = "setType Removed (e\<lparr>next_entry := 0\<rparr>)"
  have tab: "table_ok (held [v] st) C" using ok by (simp add: cache_ok_def)
  note ch = table_okD(1) [OF tab]
  have "v \<in> set (C ?k)" using table_okD(4) [OF tab, of v e] v by simp
  moreover have "v \<notin> set (tl (C ?k))" using table_okD(3) [OF tab, of v ?k] v by (auto simp: type_at_def)
  ultimately obtain ps where ps: "C ?k = v # ps" by (cases "C ?k") auto
  have l: "links (mem st) (next_entry e) ps" "v \<notin> set ps" "distinct ps" using chainsD(2,3) [OF ch, of ?k] ps v(1) by auto
  have nx: "next_entry e = chain_head ps" "next_entry e = 0 \<longleftrightarrow> ps = []"
    using links_head [OF l(1)] links_nonnull [OF l(1)] by (cases ps; auto)+
  define st1 where "st1 = (if next_entry e = 0 then drop_head ?k st else put_head ?k (next_entry e) st)\<lparr>mem := (mem st)(v \<mapsto> ?e)\<rparr>"
  obtain h1 h2 where h: "put_head ?k (next_entry e) st = st\<lparr>hash_shards := h1\<rparr>" "drop_head ?k st = st\<lparr>hash_shards := h2\<rparr>"
    using put_head_fields(1) [of ?k "next_entry e" st] put_head_fields(2) [of ?k st] by blast
  have st1: "st1 = st\<lparr>hash_shards := if next_entry e = 0 then h2 else h1, mem := (mem st)(v \<mapsto> ?e)\<rparr>" by (simp add: st1_def h)
  have fh: "find_head st1 k = (if k = ?k then (if ps = [] then None else Some (chain_head ps)) else find_head st k)" for k
    unfolding st1_def using nx by simp
  have "pool_ok (allocator st) ((mem st)(v \<mapsto> ?e))"
    using ok v(1) by (auto simp: cache_ok_def pool_ok_def setType_def totalSizeForRecordCacheEntry_def insert_absorb domIff)
  then have "pool_ok (allocator st1) (mem st1)" "mem st1 v = Some ?e" by (simp_all add: st1)
  then obtain alloc where d: "deallocate_entry v st1 = Inr (st1\<lparr>allocator := alloc, mem := (mem st1)(v := None)\<rparr>)" "pool_ok alloc ((mem st1)(v := None))"
    by (rule deallocate_entry_ok)
  define st' where "st' = st1\<lparr>allocator := alloc, mem := (mem st1)(v := None), active_entry_count := fetch_sub (active_entry_count st) 1,
    sieve_eviction_entries := fetch_add (sieve_eviction_entries st) 1\<rparr>"
  have m': "mem st' = (mem st)(v := None)" by (simp add: st'_def st1)
  have notin: "v \<notin> set (C k)" if "k \<noteq> ?k" for k using chains_key [OF ch, of v ?k k] ps that by auto
  have "chains_of st' (C(?k := ps))"
  proof (rule chains_update [OF ch])
    show "find_head st' k' = (if k' = ?k then (if ps = [] then None else Some (chain_head ps)) else find_head (held [v] st) k')" for k'
      using fh [of k'] by (simp add: st'_def)
    have "links (mem st') (chain_head ps) ps = links (mem st) (chain_head ps) ps" using l(2) m' by (intro links_cong) auto
    then show "links (mem st') (chain_head ps) ps" using l(1) nx(1) by simp
    show "distinct ps" by fact
    show "key_at (mem st') p = Some ?k" if "p \<in> set ps" for p using chainsD(4) [OF ch, of p ?k] that ps l(2) m' by auto
    show "map_option next_entry (mem st' p) = map_option next_entry (mem (held [v] st) p) \<and> key_at (mem st') p = key_at (mem (held [v] st)) p"
      if "k' \<noteq> ?k" "p \<in> set (C k')" for k' p using notin [OF that(1)] that(2) m' by auto
  qed
  then have "cache_ok (held [] st') R (C(?k := ps))"
  proof (rule cache_ok_freed [OF ok hand v(1), rotated])
    show "set ((C(?k := ps)) k) = set (C k) - {v}" for k using ps l(2) notin [of k] by auto
    show "set (tl ((C(?k := ps)) k)) \<subseteq> set (tl (C k))" for k using ps in_tl(1) by auto
  qed (use v(2) m' d(2) in \<open>simp_all add: st'_def st1\<close>)
  moreover have "live_view (mem st') = (live_view (mem st))(v := None)" unfolding m' by (rule live_view_upd)
  moreover have "find_head st ?k = Some v" using chainsD(1) [OF ch, of ?k] ps by simp
  then have "evict_read_only v st = bindR (deallocate_entry v st1) (\<lambda>st.
      Inr (st\<lparr>active_entry_count := fetch_sub (active_entry_count st) 1, sieve_eviction_entries := fetch_add (sieve_eviction_entries st) 1\<rparr>))"
    using v by (simp add: evict_read_only_def deref_def Let_def st1_def)
  then have "evict_read_only v st = Inr st'" unfolding d(1) by (simp add: st'_def st1)
  ultimately show ?thesis using that [of st'] by (simp add: st'_def st1)
qed

lemma handle_victim_ok:
  assumes ok: "cache_ok (held [v] st) R C" and hand: "hand_ok (sieve_fifo_of st)" and v: "mem st v = Some e"
  obtains st' C' where "handle_victim v st = Inr st'" "cache_ok st' R C'" "shrinks (live_view (mem st)) (live_view (mem st'))" "epochs st' = epochs st"
proof -
  have nz: "v \<noteq> 0" using null_unmapped [OF ok] v by (metis held_fields option.distinct(1))
  consider "entry_type e = Removed" | "entry_type e = ReadOnlyMode" | "entry_type e \<noteq> Removed" "entry_type e \<noteq> ReadOnlyMode" by blast
  then show ?thesis
  proof cases
    case 1
    then have "type_at (mem st) v = Some Removed" using v by (simp add: type_at_def)
    then obtain st' where "handle_state100_victim v st = Inr st'" "cache_ok (held [] st') R C" "live_view (mem st') = live_view (mem st)" "epochs st' = epochs st"
      using handle_removed_ok [OF ok hand] by metis
    then show ?thesis using that [of st' C] v 1 by (simp add: handle_victim_def deref_def)
  next
    case 2
    obtain st' C' where r: "evict_read_only v st = Inr st'" "cache_ok st' R C'" "live_view (mem st') = (live_view (mem st))(v := None)" "epochs st' = epochs st"
      by (rule evict_read_only_ok [OF ok hand v 2])
    have "shrinks (live_view (mem st)) (live_view (mem st'))"
      unfolding r(3) using v 2 by (auto simp: shrinks_def live_view_def is_live_def)
    then show ?thesis using that [of st' C'] r v 2 by (simp add: handle_victim_def deref_def)
  next
    case 3
    then show ?thesis using that [of "held [v] st" C] ok v nz by (simp add: handle_victim_def deref_def reinsert_held)
  qed
qed

lemma queue_minus:
  assumes "cache_ok st R C" "hand_ok q" "unvisited m = unvisited (mem st)"
    "mset (sieve_fifo_queue q @ vs) = mset (sieve_fifo_queue (sieve_fifo_of st))"
  shows "cache_ok (held vs (st\<lparr>sieve_fifo_of := q, mem := m\<rparr>)) R C"
proof -
  let ?st = "held vs (st\<lparr>sieve_fifo_of := q, mem := m\<rparr>)"
  have v: "views m = views (mem st)" using views_unvisited [OF assms(3)] .
  have "table_ok ?st C" using assms(1) v by (intro table_ok_views [of st C ?st]) (simp_all add: cache_ok_def)
  moreover have "pool_ok (allocator st) m" using assms(1) by (intro pool_ok_views [OF _ v]) (simp add: cache_ok_def)
  moreover have "fifo_ok ?st"
    using assms(1) mset_eq_imp_distinct_iff [OF assms(4)] mset_eq_setD [OF assms(4)] hand_ok_held [of "st\<lparr>sieve_fifo_of := q, mem := m\<rparr>" vs] assms(2) views_dom [OF v]
    by (simp add: cache_ok_def fifo_ok_def)
  ultimately show ?thesis using assms(1) by (simp add: cache_ok_def queue_ok_def count_ok_def views_dom [OF v] views_type(1) [OF v])
qed

lemma entries_of_allocated: "0 \<notin> set (sieve_fifo_queue q) \<Longrightarrow> entries_of q = mset (sieve_fifo_queue q)"
  unfolding entries_of_def by (intro filter_mset_eq_conv [THEN iffD2]) (auto intro!: gr0I)

lemma fifo_allocated:
  assumes "cache_ok st R C"
  shows "allocated_queue (sieve_fifo_of st) (mem st)" "hand_ok (sieve_fifo_of st)" "0 \<notin> set (sieve_fifo_queue (sieve_fifo_of st))"
    "entries_of (sieve_fifo_of st) = mset (sieve_fifo_queue (sieve_fifo_of st))"
proof -
  have f: "set (sieve_fifo_queue (sieve_fifo_of st)) = dom (mem st)" "hand_ok (sieve_fifo_of st)" using assms by (simp_all add: cache_ok_def fifo_ok_def)
  show "allocated_queue (sieve_fifo_of st) (mem st)" "hand_ok (sieve_fifo_of st)" using f by (auto simp: allocated_queue_def)
  show nz: "0 \<notin> set (sieve_fifo_queue (sieve_fifo_of st))" using null_unmapped [OF assms] f(1) by auto
  show "entries_of (sieve_fifo_of st) = mset (sieve_fifo_queue (sieve_fifo_of st))"
    using nz by (rule entries_of_allocated)
qed

lemma sieve_pop_ok:
  assumes ok: "cache_ok st R C"
  obtains v q m where "evictOneFromSieveFIFO (sieve_policy (allocator st)) (sieve_fifo_of st) (mem st) = Inr (v, q, m)" "hand_ok q"
    "unvisited m = unvisited (mem st)" "v \<noteq> 0 \<longrightarrow> m v \<noteq> None"
    "cache_ok (held (if v = 0 then [] else [v]) (st\<lparr>sieve_fifo_of := q, mem := m\<rparr>)) R C"
proof -
  note f = fifo_allocated [OF ok]
  have "onVictimChosen (sieve_policy (allocator st)) = None" by (simp add: sieve_policy_def)
  from evictOne_result [OF this f(1,2)]
  obtain v q m where r: "evictOneFromSieveFIFO (sieve_policy (allocator st)) (sieve_fifo_of st) (mem st) = Inr (v, q, m)"
    and s: "scan_result (sieve_policy (allocator st)) (sieve_fifo_of st) (mem st) (v, q, m)" by (metis prod_cases3)
  let ?vs = "if v = 0 then [] else [v]"
  have u: "unvisited m = unvisited (mem st)" "hand_ok q" using s by (simp_all add: scan_result_def)
  have "0 \<notin> set (sieve_fifo_queue q)" using s f(3) by (auto simp: scan_result_def)
  then have "entries_of q = mset (sieve_fifo_queue q)" by (rule entries_of_allocated)
  then have "mset (sieve_fifo_queue q @ ?vs) = mset (sieve_fifo_queue (sieve_fifo_of st))" using s f(4) by (simp add: scan_result_def)
  then have "cache_ok (held ?vs (st\<lparr>sieve_fifo_of := q, mem := m\<rparr>)) R C" by (rule queue_minus [OF ok u(2,1)])
  moreover have "m v \<noteq> None" if "v \<noteq> 0" using s that unvisited_dom [OF u(1), of v] by (auto simp: scan_result_def)
  ultimately show ?thesis using that [OF r u(2,1)] by blast
qed

lemma sieve_batch_ok:
  "cache_ok st R C \<Longrightarrow> \<exists>b st' C'. sieve_batch n st = Inr (b, st') \<and> cache_ok st' R C' \<and> shrinks (live_view (mem st)) (live_view (mem st'))
     \<and> epochs st' = epochs st"
proof (induction n arbitrary: st C)
  case 0
  then show ?case by auto
next
  case (Suc n)
  obtain v q m where p: "evictOneFromSieveFIFO (sieve_policy (allocator st)) (sieve_fifo_of st) (mem st) = Inr (v, q, m)" "hand_ok q"
    "unvisited m = unvisited (mem st)" "v \<noteq> 0 \<longrightarrow> m v \<noteq> None"
    "cache_ok (held (if v = 0 then [] else [v]) (st\<lparr>sieve_fifo_of := q, mem := m\<rparr>)) R C"
    by (rule sieve_pop_ok [OF Suc.prems])
  let ?st = "st\<lparr>sieve_fifo_of := q, mem := m\<rparr>"
  have lv: "live_view (mem ?st) = live_view (mem st)" using live_view_unvisited [OF p(3)] by simp
  show ?case
  proof (cases "v = 0")
    case True
    then show ?thesis using p lv by auto
  next
    case False
    then obtain e where e: "mem ?st v = Some e" using p(4) by auto
    have "cache_ok (held [v] ?st) R C" "hand_ok (sieve_fifo_of ?st)" using p(2,5) False by simp_all
    then obtain st' C' where h: "handle_victim v ?st = Inr st'" "cache_ok st' R C'" "shrinks (live_view (mem ?st)) (live_view (mem st'))" "epochs st' = epochs ?st"
      using handle_victim_ok [OF _ _ e] by metis
    from Suc.IH [OF h(2)] obtain b st2 C2 where "sieve_batch n st' = Inr (b, st2)" "cache_ok st2 R C2" "shrinks (live_view (mem st')) (live_view (mem st2))"
      "epochs st2 = epochs st'" by blast
    then show ?thesis using p(1) False h lv shrinks_trans [of "live_view (mem st)"] by (auto simp: Let_def)
  qed
qed

lemma handle_dead_ok:
  "cache_ok (held vs st) R C \<Longrightarrow> hand_ok (sieve_fifo_of st) \<Longrightarrow> \<forall>v\<in>set vs. type_at (mem st) v = Some Removed \<Longrightarrow>
    \<exists>st'. foldR handle_state100_victim vs st = Inr st' \<and> cache_ok st' R C \<and> live_view (mem st') = live_view (mem st) \<and> epochs st' = epochs st"
proof (induction vs arbitrary: st)
  case (Cons v vs)
  have tv: "type_at (mem st) v = Some Removed" using Cons.prems(3) by simp
  obtain st1 where s: "handle_state100_victim v st = Inr st1" "cache_ok (held vs st1) R C" "live_view (mem st1) = live_view (mem st)"
    "sieve_fifo_of st1 = sieve_fifo_of st" "epochs st1 = epochs st" "type_at (mem st1) = (type_at (mem st))(v := None)"
    by (rule handle_removed_ok [OF Cons.prems(1,2) tv])
  have "distinct (v # vs)" using Cons.prems(1) by (simp add: cache_ok_def fifo_ok_def)
  then have "\<forall>u\<in>set vs. type_at (mem st1) u = Some Removed" using Cons.prems(3) s(6) by auto
  then show ?case using Cons.IH [OF s(2)] s Cons.prems(2) by auto
qed auto

lemma sieve_round_ok:
  assumes ok: "cache_ok st R C"
  obtains st' C' where "sieve_round st = Inr st'" "cache_ok st' R C'" "shrinks (live_view (mem st)) (live_view (mem st'))" "epochs st' = epochs st"
proof -
  note f = fifo_allocated [OF ok]
  obtain ratio where r: "getUsageRatio (allocator st) = Inr ratio" using usage_ratio_defined by blast
  consider "\<not> EvictionWaterMark \<le> ratio" "\<not> kPendingDeadEntryThreshold \<le> pending_state_invalidated_from_hash st"
    | "\<not> EvictionWaterMark \<le> ratio" "kPendingDeadEntryThreshold \<le> pending_state_invalidated_from_hash st" | "EvictionWaterMark \<le> ratio" by blast
  then show ?thesis
  proof cases
    case 1
    then have "sieve_round st = Inr st" using r by (simp add: sieve_round_def)
    then show ?thesis using that [of st C] ok by simp
  next
    case 2
    obtain vs q where d: "drainStateRemovedOnly kSieveBatchLimit (sieve_fifo_of st) (mem st) = Inr (vs, q)"
      "vs = take kSieveBatchLimit (filter (\<lambda>p. p \<noteq> 0 \<and> removed_at (mem st) p) (sieve_fifo_queue (sieve_fifo_of st)))"
      "mset (sieve_fifo_queue q) + mset vs = entries_of (sieve_fifo_of st)" "hand_ok q"
      using drain_result [OF f(1)] f(2) by blast
    have "cache_ok (held vs (st\<lparr>sieve_fifo_of := q, mem := mem st\<rparr>)) R C" using d(3) f(4) by (intro queue_minus [OF ok d(4)]) simp_all
    moreover have "\<forall>v\<in>set vs. type_at (mem st) v = Some Removed"
      unfolding d(2) by (auto simp: removed_at_def type_at_def split: option.splits dest!: in_set_takeD)
    ultimately obtain st' where "foldR handle_state100_victim vs (st\<lparr>sieve_fifo_of := q\<rparr>) = Inr st'" "cache_ok st' R C"
      "live_view (mem st') = live_view (mem st)" "epochs st' = epochs st"
      using handle_dead_ok [of vs "st\<lparr>sieve_fifo_of := q\<rparr>" R C] d(4) by auto
    moreover from this have "sieve_round st = Inr st'" using d(1) r 2 by (simp add: sieve_round_def)
    ultimately show ?thesis using that [of st' C] by simp
  next
    case 3
    moreover obtain b st' C' where b: "sieve_batch kSieveBatchLimit st = Inr (b, st')" "cache_ok st' R C'"
      "shrinks (live_view (mem st)) (live_view (mem st'))" "epochs st' = epochs st" using sieve_batch_ok [OF ok] by blast
    ultimately have "sieve_round st = Inr st'" using r by (simp add: sieve_round_def)
    then show ?thesis using that [of st' C'] b by simp
  qed
qed

end
