(* ===== verification/RecordCachePromotion.thy ===== *)
theory RecordCachePromotion
  imports RecordCacheThreads
begin

text \<open>
  The promote thread on a record cache in its invariant: its first phase installs a placeholder at a fresh
  address or changes nothing that can be seen, and its last phase publishes the placeholder or takes it out
  of the table. The allocator is not exhausted in these lemmas, so no rescue runs.
\<close>

section \<open>New entries\<close>

abbreviation placeholder_of :: "promote_request \<Rightarrow> cache_entry" where
  "placeholder_of r \<equiv> new_placeholder (req_key r) (req_value_length r)"

text \<open>The key fits its 16-bit length and the entry fits a slab block.\<close>

definition request_ok :: "promote_request \<Rightarrow> bool" where
  "request_ok r \<longleftrightarrow> length (req_key r) < 2 ^ 16 \<and> unat (totalSizeForRecordCacheEntry (placeholder_of r)) \<le> MAX_BLOCK_SIZE"

definition has_memory :: "promote_request \<Rightarrow> record_cache \<Rightarrow> bool" where
  "has_memory r st \<longleftrightarrow> do_allocate None (totalSizeForRecordCacheEntry (placeholder_of r)) 8 (allocator st) \<noteq> Inl BadAlloc"

lemma placeholder_fields:
  assumes "length key < 2 ^ 16"
  shows "unat (key_length (new_placeholder key v)) = length key" "payload (new_placeholder key v) = key @ replicate (unat v) 0"
    "getKeySpan (new_placeholder key v) = key"
proof -
  have "unat (of_nat (length key) :: u16) = length key" using assms by (simp add: unat_of_nat take_bit_nat_eq_self)
  then show "unat (key_length (new_placeholder key v)) = length key" "payload (new_placeholder key v) = key @ replicate (unat v) 0"
    "getKeySpan (new_placeholder key v) = key"
    by (simp_all add: new_placeholder_def getKeySpan_def)
qed

lemma placeholder_simps [simp]:
  "entry_type (new_placeholder key v) = Placeholder" "next_entry (new_placeholder key v) = 0" "visited (new_placeholder key v) = False"
  "update_during_promote (new_placeholder key v) = False" "value_length (new_placeholder key v) = v"
  "(new_placeholder key v)\<lparr>next_entry := n, visited := False\<rparr> = (new_placeholder key v)\<lparr>next_entry := n\<rparr>"
  by (simp_all add: new_placeholder_def)

lemma allocate_new_ok:
  assumes pool: "pool_ok (allocator st) (mem st)" and r: "request_ok r" "has_memory r st"
  obtains p alloc where "allocate_new_entry waited r st = Inr (p, st\<lparr>allocator := alloc, mem := (mem st)(p \<mapsto> placeholder_of r)\<rparr>)"
    "mem st p = None" "p \<noteq> 0" "pool_ok alloc ((mem st)(p \<mapsto> placeholder_of r))"
proof -
  let ?e = "placeholder_of r"
  have size: "unat (totalSizeForRecordCacheEntry ?e) \<le> MAX_BLOCK_SIZE" using r(1) by (simp add: request_ok_def)
  have "slab_ok (allocator st) (dom (mem st))" using pool by (simp add: pool_ok_def)
  then obtain a alloc where a: "do_allocate None (totalSizeForRecordCacheEntry ?e) 8 (allocator st) = Inr (a, alloc)"
    using do_allocate_fresh [OF _ size order_refl no_rescue] r(2) unfolding has_memory_def by metis
  obtain p where "a = Block p" "mem st p = None" "p \<noteq> 0" "pool_ok alloc ((mem st)(p \<mapsto> ?e))"
    by (rule allocate_entry_ok [OF pool a size])
  then show ?thesis using that [of p alloc] a by (simp add: allocate_new_entry_def allocate_with_rescue_def entry_address_def Let_def)
qed

section \<open>Installation\<close>

text \<open>A new entry in front of a chain of dead ones.\<close>

lemma table_ok_install:
  assumes tab: "table_ok st C" and p: "mem st p = None" "p \<noteq> 0"
    and e: "getKeySpan e = k" "entry_type e = Placeholder" "next_entry e = chain_head (C k)" and dead: "\<forall>q\<in>set (C k). type_at (mem st) q = Some Deleted"
    and st': "find_head st' = (find_head st)(k \<mapsto> p)" "mem st' = (mem st)(p \<mapsto> e)"
  shows "table_ok st' (C(k := p # C k))"
proof -
  note T = table_okD [OF tab]
  have fresh: "p \<notin> set (C j)" for j using chainsD(6) [OF T(1), of p j] p(1) by auto
  have "chains_of st' (C(k := p # C k))"
  proof (rule chains_update [OF T(1)])
    show "find_head st' k' = (if k' = k then (if p # C k = [] then None else Some (chain_head (p # C k))) else find_head st k')" for k'
      using st'(1) by simp
    have "links (mem st') (chain_head (C k)) (C k) = links (mem st) (chain_head (C k)) (C k)" using fresh st'(2) by (intro links_cong) auto
    then show "links (mem st') (chain_head (p # C k)) (p # C k)" using chainsD(2) [OF T(1), of k] st'(2) p(2) e(3) by simp
    show "distinct (p # C k)" using chainsD(3) [OF T(1), of k] fresh by simp
    show "key_at (mem st') q = Some k" if "q \<in> set (p # C k)" for q using that chainsD(4) [OF T(1), of q k] st'(2) e(1) by auto
    show "map_option next_entry (mem st' q) = map_option next_entry (mem st q) \<and> key_at (mem st') q = key_at (mem st) q"
      if "k' \<noteq> k" "q \<in> set (C k')" for k' q using fresh that st'(2) by auto
  qed
  moreover have "\<exists>t. type_at (mem st') q = Some t \<and> in_table t" if "q \<in> set ((C(k := p # C k)) j)" for q j
    using that T(2) [of q j] st'(2) e(2) by (auto simp: in_table_def split: if_splits)
  moreover have "type_at (mem st') q = Some Deleted" if "q \<in> set (tl ((C(k := p # C k)) j))" for q j
    using that T(3) [of q j] dead fresh st'(2) p(1) by (auto simp: type_at_def split: if_splits)
  moreover have "t = Removed \<or> in_table t \<and> q \<in> set ((C(k := p # C k)) j)"
    if "type_at (mem st') q = Some t" "key_at (mem st') q = Some j" for q t j
    using that tab st'(2) e(1,2) unfolding table_ok_def by (cases "q = p") (auto simp: in_table_def)
  ultimately show ?thesis by (simp add: table_ok_def)
qed

lemma cache_ok_install:
  assumes ok: "cache_ok st R C" and p: "mem st p = None" "p \<noteq> 0"
    and e: "getKeySpan e = k" "entry_type e = Placeholder" "next_entry e = chain_head (C k)" and dead: "\<forall>q\<in>set (C k). type_at (mem st) q = Some Deleted"
    and st': "find_head st' = (find_head st)(k \<mapsto> p)" "mem st' = (mem st)(p \<mapsto> e)" "sieve_fifo_of st' = sieve_fifo_of (held [p] st)"
      "inval_queue st' = inval_queue st" "active_entry_count st' = fetch_add (active_entry_count st) 1"
      "pending_state_invalidated_from_hash st' = pending_state_invalidated_from_hash st" "epochs st' = epochs st" "pool_ok (allocator st') (mem st')"
  shows "cache_ok st' R (C(k := p # C k))"
proof -
  have tab: "table_ok st C" and f: "fifo_ok st" using ok by (simp_all add: cache_ok_def)
  have "table_ok st' (C(k := p # C k))" by (rule table_ok_install [OF tab p e dead st'(1,2)])
  moreover have dom: "dom (mem st') = insert p (dom (mem st))" "p \<notin> dom (mem st)" "finite (dom (mem st))"
    using p(1) st'(2) f by (auto simp: fifo_ok_def intro: finite_subset [OF equalityD2 finite_set])
  then have "card (dom (mem st')) = Suc (card (dom (mem st)))" by simp
  moreover have "type_at (mem st') = (type_at (mem st))(p \<mapsto> Placeholder)" "type_at (mem st) p = None" using st'(2) e(2) p(1) by (simp_all add: type_at_def)
  then have "{q. type_at (mem st') q = Some t} = {q. type_at (mem st) q = Some t}" if "t \<noteq> Placeholder" for t using that by auto
  moreover have "fifo_ok st'" using f dom st'(3) hand_ok_held [of st "[p]"] by (auto simp: fifo_ok_def)
  ultimately show ?thesis using ok st'(4-8) fetch_mod(1) by (simp add: cache_ok_def queue_ok_def count_ok_def)
qed

lemma install_placeholder_result:
  assumes "table_ok st C" "mem st1 = (mem st)(p \<mapsto> e)" "find_head st1 = find_head st" "mem st p = None"
  shows "install_placeholder k p st1 =
    (if \<forall>q\<in>set (C k). type_at (mem st) q = Some Deleted then Inr (True, put_head k p (st1\<lparr>mem := (mem st1)(p \<mapsto> e\<lparr>next_entry := chain_head (C k)\<rparr>)\<rparr>))
     else Inr (False, st1))"
proof (cases "C k")
  case Nil
  then show ?thesis using chainsD(1) [OF table_okD(1) [OF assms(1)], of k] assms(2,3)
    by (simp add: install_placeholder_def update_entry_def deref_def)
next
  case (Cons h hs)
  note T = table_okD [OF assms(1)]
  obtain d where d: "mem st h = Some d" using chainsD(6) [OF T(1), of h k] Cons by auto
  have "in_table (entry_type d)" "find_head st k = Some h" "h \<noteq> p" "\<forall>q\<in>set hs. type_at (mem st) q = Some Deleted"
    using T(2) [of h k] T(3) [of _ k] chainsD(1) [OF T(1), of k] Cons d assms(4) by (auto simp: type_at_def)
  then show ?thesis using assms(2,3) Cons d
    by (auto simp: install_placeholder_def update_entry_def deref_def type_at_def in_table_def)
qed

lemma cache_ok_allocator:
  assumes "cache_ok st R C" "pool_ok (allocator st') (mem st)" "mem st' = mem st" "find_head st' = find_head st" "sieve_fifo_of st' = sieve_fifo_of st"
    "inval_queue st' = inval_queue st" "active_entry_count st' = active_entry_count st"
    "pending_state_invalidated_from_hash st' = pending_state_invalidated_from_hash st" "epochs st' = epochs st"
  shows "cache_ok st' R C"
proof -
  have "table_ok st' C" using assms(1) by (intro table_ok_views [OF _ assms(4)]) (simp_all add: cache_ok_def assms(3))
  then show ?thesis using assms by (simp add: cache_ok_def fifo_ok_def count_ok_def)
qed

section \<open>Phase 1\<close>

lemma promote_phase1_ok:
  assumes ok: "cache_ok st R C" and r: "request_ok r" "has_memory r st"
  obtains p st' C' where "promote_phase1 waited r st = Inr (p, st')" "cache_ok st' R C'" "epochs st' = epochs st"
    "promote_request_message_queue st' = promote_request_message_queue st"
    "p = 0 \<longleftrightarrow> getUsageRatio (allocator st) \<in> {Inr ratio | ratio. kPromoteHardWatermark < ratio} \<or> (\<exists>q\<in>set (C (req_key r)). type_at (mem st) q \<noteq> Some Deleted)"
    "if p = 0 then live_view (mem st') = live_view (mem st)
     else mem st p = None \<and> live_view (mem st') = (live_view (mem st))(p \<mapsto> placeholder_of r)"
proof -
  let ?e = "placeholder_of r" and ?k = "req_key r"
  have tab: "table_ok st C" and pool: "pool_ok (allocator st) (mem st)" using ok by (simp_all add: cache_ok_def)
  obtain ratio where ratio: "getUsageRatio (allocator st) = Inr ratio" using usage_ratio_defined by blast
  obtain p alloc where a: "allocate_new_entry waited r st = Inr (p, st\<lparr>allocator := alloc, mem := (mem st)(p \<mapsto> ?e)\<rparr>)"
    "mem st p = None" "p \<noteq> 0" "pool_ok alloc ((mem st)(p \<mapsto> ?e))" by (rule allocate_new_ok [OF pool r])
  let ?st = "st\<lparr>allocator := alloc, mem := (mem st)(p \<mapsto> ?e)\<rparr>"
  have inst: "install_placeholder ?k p ?st = (if \<forall>q\<in>set (C ?k). type_at (mem st) q = Some Deleted
      then Inr (True, put_head ?k p (?st\<lparr>mem := (mem ?st)(p \<mapsto> ?e\<lparr>next_entry := chain_head (C ?k)\<rparr>)\<rparr>)) else Inr (False, ?st))"
    by (rule install_placeholder_result [OF tab _ _ a(2)]) simp_all
  consider "kPromoteHardWatermark < ratio" | "\<not> kPromoteHardWatermark < ratio" "\<not> (\<forall>q\<in>set (C ?k). type_at (mem st) q = Some Deleted)"
    | "\<not> kPromoteHardWatermark < ratio" "\<forall>q\<in>set (C ?k). type_at (mem st) q = Some Deleted" by blast
  then show ?thesis
  proof cases
    case 1
    let ?st' = "count_event promote_rejected_high_water_update st"
    have "cache_ok ?st' R C" using pool by (intro cache_ok_allocator [OF ok]) simp_all
    moreover have "promote_phase1 waited r st = Inr (0, ?st')" using 1 ratio by (simp add: promote_phase1_def)
    ultimately show ?thesis using that [of 0 ?st' C] 1 ratio by simp
  next
    case 2
    let ?st1 = "count_event promote_head_still_live_update ?st"
    let ?st2 = "if req_is_direct_update r then count_event direct_update_head_still_live_update ?st1 else ?st1"
    have "pool_ok (allocator ?st2) (mem ?st2)" "mem ?st2 p = Some ?e" using a(4) by simp_all
    then obtain alloc' where d: "deallocate_entry p ?st2 = Inr (?st2\<lparr>allocator := alloc', mem := (mem ?st2)(p := None)\<rparr>)"
      "pool_ok alloc' ((mem ?st2)(p := None))" by (rule deallocate_entry_ok)
    let ?st' = "?st2\<lparr>allocator := alloc', mem := (mem ?st2)(p := None)\<rparr>"
    have m: "mem ?st' = mem st" using a(2) by (auto simp: fun_eq_iff)
    have "cache_ok ?st' R C" by (rule cache_ok_allocator [OF ok]) (use d(2) m in simp_all)
    moreover have "promote_phase1 waited r st = bindR (deallocate_entry p ?st2) (\<lambda>st. Inr (0, st))"
      using 2(1) ratio a(1,3) inst [unfolded if_not_P [OF 2(2)]] by (simp add: promote_phase1_def Let_def)
    then have "promote_phase1 waited r st = Inr (0, ?st')" unfolding d(1) by simp
    ultimately show ?thesis using that [of 0 ?st' C] m 2 by simp
  next
    case 3
    let ?m = "(mem st)(p \<mapsto> ?e\<lparr>next_entry := chain_head (C ?k)\<rparr>)"
    obtain h where h: "put_head ?k p (?st\<lparr>mem := ?m\<rparr>) = ?st\<lparr>mem := ?m, hash_shards := h\<rparr>"
      using put_head_fields(1) [of ?k p "?st\<lparr>mem := ?m\<rparr>"] by auto
    let ?st' = "?st\<lparr>mem := ?m, hash_shards := h, active_entry_count := fetch_add (active_entry_count st) 1, sieve_fifo_of := sieve_fifo_of (held [p] st)\<rparr>"
    have fh: "find_head ?st' = (find_head st)(?k \<mapsto> p)"
    proof
      show "find_head ?st' j = ((find_head st)(?k \<mapsto> p)) j" for j
        using find_head_put [of ?k p "?st\<lparr>mem := ?m\<rparr>" j] unfolding h by simp
    qed
    have key: "getKeySpan (?e\<lparr>next_entry := chain_head (C ?k)\<rparr>) = ?k"
      using placeholder_fields(3) [of ?k "req_value_length r"] r(1) by (simp add: getKeySpan_def request_ok_def)
    have "cache_ok ?st' R (C(?k := p # C ?k))"
    proof (rule cache_ok_install [OF ok a(2,3) key _ _ 3(2) fh])
      show "pool_ok (allocator ?st') (mem ?st')" using a(4) by (auto simp: pool_ok_def totalSizeForRecordCacheEntry_def split: if_splits)
    qed simp_all
    moreover have "live_view (mem ?st') = (live_view (mem st))(p \<mapsto> ?e)"
      by (simp add: live_view_upd is_live_def new_placeholder_def)
    moreover have "promote_phase1 waited r st = Inr (p, ?st')"
      using 3(1) ratio a(1,3) inst [unfolded if_P [OF 3(2)]] h
      by (simp add: promote_phase1_def InsertIntoSieveFIFO_def update_entry_def deref_def held_def)
    ultimately show ?thesis using that [of p ?st'] a(2,3) 3 ratio by simp
  qed
qed

section \<open>Phase 3\<close>

text \<open>The entry that a promotion leaves behind.\<close>

definition published :: "promote_request \<Rightarrow> cxl_read \<Rightarrow> cache_entry" where
  "published r x = (placeholder_of r)\<lparr>payload := req_key r @ read_value x, tx_ts := read_tx_ts x,
     last_modified_worker_id := read_worker_id x, entry_type := ReadOnlyMode\<rparr>"

text \<open>A pending promotion of a request owns a placeholder; \<open>b\<close> tells whether an update came in between.\<close>

lemma pending_entry:
  assumes "live_view m p = Some ((placeholder_of r)\<lparr>update_during_promote := b\<rparr>)"
  obtains n v where "m p = Some ((placeholder_of r)\<lparr>update_during_promote := b, next_entry := n, visited := v\<rparr>)"
proof -
  obtain e where e: "m p = Some e" "e\<lparr>next_entry := 0, visited := False\<rparr> = (placeholder_of r)\<lparr>update_during_promote := b\<rparr>"
    using assms by (auto simp: live_view_def split: option.splits if_splits)
  have "e = e\<lparr>next_entry := 0, visited := False\<rparr>\<lparr>next_entry := next_entry e, visited := visited e\<rparr>" by simp
  then have "e = (placeholder_of r)\<lparr>update_during_promote := b, next_entry := next_entry e, visited := visited e\<rparr>" using e(2) by simp
  then show ?thesis using that e(1) by metis
qed

lemma withdraw_ok:
  assumes ok: "cache_ok st R C" and e: "mem st p = Some e" "entry_type e = Placeholder" "getKeySpan e = k"
  obtains st' C' where "withdraw k p st = Inr st'" "cache_ok st' R C'" "epochs st' = epochs st" "live_view (mem st') = (live_view (mem st))(p := None)"
proof -
  have nr: "entry_type e \<noteq> Removed" using e(2) by simp
  obtain m h where u: "unlink_entry p (getKeySpan e) st = Inr (True, st\<lparr>mem := m, hash_shards := h\<rparr>)" "m p = Some (e\<lparr>next_entry := 0\<rparr>)"
    and v: "type_at (m(p \<mapsto> setType Removed (e\<lparr>next_entry := 0\<rparr>))) = (type_at (mem st))(p \<mapsto> Removed)"
      "live_view (m(p \<mapsto> setType Removed (e\<lparr>next_entry := 0\<rparr>))) = (live_view (mem st))(p := None)"
    and ok': "\<forall>st' R'. find_head st' = find_head (st\<lparr>mem := m, hash_shards := h\<rparr>) \<longrightarrow> mem st' = m(p \<mapsto> setType Removed (e\<lparr>next_entry := 0\<rparr>)) \<longrightarrow>
      sieve_fifo_of st' = sieve_fifo_of st \<longrightarrow> active_entry_count st' = active_entry_count st \<longrightarrow>
      pending_state_invalidated_from_hash st' = fetch_add (pending_state_invalidated_from_hash st) 1 \<longrightarrow> allocator st' = allocator st \<longrightarrow>
      epochs_ok (epochs st') \<longrightarrow> queue_ok (R' @ inval_queue st') (mem st') \<longrightarrow>
      cache_ok st' R' (C(getKeySpan e := remove1 p (C (getKeySpan e))))"
    by (rule removed_entry [OF ok e(1) nr])
  let ?m = "m(p \<mapsto> setType Removed (e\<lparr>next_entry := 0\<rparr>))"
  let ?st = "IncrementPendingStateInvalidatedFromHash (st\<lparr>mem := ?m, hash_shards := h\<rparr>)"
  have "type_at (mem st) p = Some Placeholder" using e(1,2) by (simp add: type_at_def)
  then have "{q. type_at ?m q = Some Deleted} = {q. type_at (mem st) q = Some Deleted}" unfolding v(1) by auto
  then have "queue_ok (R @ inval_queue st) ?m" using ok unfolding cache_ok_def queue_ok_def by simp
  then have "cache_ok ?st R (C(getKeySpan e := remove1 p (C (getKeySpan e))))"
    using ok by (intro ok' [rule_format]) (simp_all add: IncrementPendingStateInvalidatedFromHash_def cache_ok_def)
  moreover have "withdraw k p st = Inr ?st"
    using u e(3) by (simp add: withdraw_def update_entry_def deref_def IncrementPendingStateInvalidatedFromHash_def)
  ultimately show ?thesis using that [of ?st] v(2) by (simp add: IncrementPendingStateInvalidatedFromHash_def)
qed

lemma cache_ok_publish:
  assumes ok: "cache_ok st R C" and e: "mem st p = Some e" "entry_type e = Placeholder"
    and e': "next_entry e' = next_entry e" "getKeySpan e' = getKeySpan e" "entry_type e' = ReadOnlyMode"
      "totalSizeForRecordCacheEntry e' = totalSizeForRecordCacheEntry e"
    and st': "find_head st' = find_head st" "mem st' = (mem st)(p \<mapsto> e')" "sieve_fifo_of st' = sieve_fifo_of st"
      "inval_queue st' = inval_queue st" "active_entry_count st' = active_entry_count st"
      "pending_state_invalidated_from_hash st' = pending_state_invalidated_from_hash st" "allocator st' = allocator st" "epochs st' = epochs st"
  shows "cache_ok st' R C"
proof -
  have tab: "table_ok st C" using ok by (simp add: cache_ok_def)
  have tp: "type_at (mem st) p = Some Placeholder" using e by (simp add: type_at_def)
  have "p \<notin> set (tl (C (getKeySpan e)))" using table_okD(3) [OF tab] tp by fastforce
  then have "table_ok st' C" using e(2) e' by (intro table_ok_retype [OF tab e(1) _ e'(1,2) _ _ st'(1,2)]) (simp_all add: in_table_def)
  moreover have dom: "dom (mem st') = dom (mem st)" using e(1) st'(2) by auto
  moreover have "{q. type_at (mem st') q = Some t} = {q. type_at (mem st) q = Some t}" if "t = Deleted \<or> t = Removed" for t
    using that tp st'(2) e'(3) by auto
  moreover have "pool_ok (allocator st') (mem st')" unfolding pool_ok_def dom using ok e(1) e'(4) st'(2,7) by (simp add: cache_ok_def pool_ok_def)
  ultimately show ?thesis using ok st'(3-8) by (simp add: cache_ok_def fifo_ok_def count_ok_def queue_ok_def)
qed

lemma promote_finish_ok:
  assumes ok: "cache_ok st R C" and r: "request_ok r" and p: "live_view (mem st) p = Some ((placeholder_of r)\<lparr>update_during_promote := b\<rparr>)"
  obtains st' C' where "promote_finish r p x st = Inr st'" "cache_ok st' R C'" "epochs st' = epochs st"
    "live_view (mem st') = (live_view (mem st))(p := if b then None else map_option (published r) x)"
proof -
  let ?k = "req_key r"
  obtain n v where m: "mem st p = Some ((placeholder_of r)\<lparr>update_during_promote := b, next_entry := n, visited := v\<rparr>)" (is "_ = Some ?e")
    using p by (rule pending_entry)
  have len: "length ?k < 2 ^ 16" using r by (simp add: request_ok_def)
  have key: "getKeySpan ?e = ?k" "entry_type ?e = Placeholder" using placeholder_fields(3) [OF len] by (simp_all add: getKeySpan_def)
  have counted: "cache_ok (count_event u st) R C" for u
    using ok by (intro cache_ok_allocator [OF ok]) (simp_all add: cache_ok_def)
  consider u where "b \<or> x = None" "promote_finish r p x st = withdraw ?k p (count_event u st)" | y where "x = Some y" "\<not> b" "promote_finish r p x st = publish r p y st"
    using m by (cases x) (auto simp: promote_finish_def promote_phase3_def deref_def)
  then show ?thesis
  proof cases
    case 1
    have "mem (count_event u st) p = Some ?e" using m by simp
    then obtain st' C' where "withdraw ?k p (count_event u st) = Inr st'" "cache_ok st' R C'" "epochs st' = epochs st" "live_view (mem st') = (live_view (mem st))(p := None)"
      using withdraw_ok [OF counted _ key(2,1), of u p] by auto
    then show ?thesis using that [of st' C'] 1 by auto
  next
    case 2
    let ?e' = "?e\<lparr>payload := take (unat (key_length ?e)) (payload ?e) @ read_value y, tx_ts := read_tx_ts y, last_modified_worker_id := read_worker_id y, entry_type := ReadOnlyMode\<rparr>"
    have pay: "take (unat (key_length ?e)) (payload ?e) = ?k" using placeholder_fields(1,2) [OF len] by simp
    obtain st' where st': "publish r p y st = Inr st'" "find_head st' = find_head st" "mem st' = (mem st)(p \<mapsto> ?e')" "sieve_fifo_of st' = sieve_fifo_of st"
      "inval_queue st' = inval_queue st" "active_entry_count st' = active_entry_count st"
      "pending_state_invalidated_from_hash st' = pending_state_invalidated_from_hash st" "allocator st' = allocator st" "epochs st' = epochs st"
      using m by (simp add: publish_def update_entry_def deref_def Let_def)
    have "getKeySpan ?e' = getKeySpan ?e" using key(1) pay placeholder_fields(1) [OF len] by (simp add: getKeySpan_def)
    then have "cache_ok st' R C" by (intro cache_ok_publish [OF ok m key(2) _ _ _ _ st'(2-9)]) (simp_all add: totalSizeForRecordCacheEntry_def)
    moreover have "live_view (mem st') = (live_view (mem st))(p \<mapsto> published r y)"
      using pay by (simp add: st'(3) live_view_upd is_live_def published_def new_placeholder_def 2)
    ultimately show ?thesis using that [of st' C] st' 2 by simp
  qed
qed

end
