(* ===== verification/RecordCacheWorld.thy ===== *)
theory RecordCacheWorld
  imports RecordCachePromotion
begin

text \<open>
  The record cache in the system: workers look records up and update them under the exclusive latch of
  their leaf (\<open>BTreeLL.cpp\<close>, \<open>BTreeVI.cpp\<close>), requests enter the queue of the promote thread, promotions run in
  three phases that everything else can run between, and the forward epoch and SIEVE threads work in the
  background. The records of the B-tree are a map from prefixed keys to the payloads of their slots.
\<close>

section \<open>What an optimistic read returns\<close>

text \<open>The part of a tuple that a promotion of \<open>len\<close> value bytes copies.\<close>

definition tuple_read :: "bytes \<Rightarrow> nat \<Rightarrow> cxl_read" where
  "tuple_read tuple len = \<lparr>read_value = take len (drop (value_offset (tuple ! 0)) tuple),
     read_tx_ts = load64 (drop 3 (take sizeof_Tuple tuple)), read_worker_id = load16 (drop 1 (take sizeof_Tuple tuple))\<rparr>"

definition covers :: "bytes \<Rightarrow> nat \<Rightarrow> bool" where
  "covers tuple len \<longleftrightarrow> value_offset (tuple ! 0) + len \<le> length tuple"

definition shows_records :: "bytes \<Rightarrow> (bytes \<Rightarrow> bytes option) \<Rightarrow> btree_node \<Rightarrow> bool" where
  "shows_records prefix recs n \<longleftrightarrow> (\<forall>i<node_count n. prefix_length n + getKeyLen n i < 2 ^ 16
     \<and> recs (prefix @ copyFullKey n i) = Some (getPayload n i))"

definition prefix_bytes_of :: "bool \<Rightarrow> nat" where
  "prefix_bytes_of skip = (if skip then 0 else 2)"

definition queued_ok :: "bool \<Rightarrow> promote_request \<Rightarrow> bool" where
  "queued_ok skip r \<longleftrightarrow> request_ok r \<and> req_key_length r = of_nat (length (req_key r)) \<and> prefix_bytes_of skip \<le> length (req_key r)"

lemma read_bytes_part: "off + len \<le> n \<Longrightarrow> read_bytes h (start + off) len = take len (drop off (read_bytes h start n))"
  by (rule nth_equalityI) (simp_all add: read_bytes_def add.assoc)

lemma value_offset_tuple: "sizeof_Tuple \<le> value_offset f"
  by (simp add: value_offset_def sizeof_Tuple_def sizeof_ChainedTuple_def sizeof_FatTuple_def)

lemma read_tuple_payload:
  assumes "covers (getPayload n slot) len"
  shows "read_tuple n slot len = tuple_read (getPayload n slot) len"
proof -
  let ?p = "getPayload n slot" and ?start = "slot_offset (slots n slot) + getKeyLen n slot"
  have len: "value_offset (?p ! 0) + len \<le> getPayloadLength n slot" using assms by (simp add: covers_def getPayload_def read_bytes_def)
  then have "sizeof_Tuple \<le> getPayloadLength n slot" using value_offset_tuple [of "?p ! 0"] by linarith
  then have head: "read_bytes (heap n) ?start sizeof_Tuple = take sizeof_Tuple ?p"
    using read_bytes_part [of 0 sizeof_Tuple "getPayloadLength n slot" "heap n" ?start] by (simp add: getPayload_def)
  then have first: "read_bytes (heap n) ?start sizeof_Tuple ! 0 = ?p ! 0" by (simp add: sizeof_Tuple_def)
  have "read_bytes (heap n) (?start + value_offset (?p ! 0)) len = take len (drop (value_offset (?p ! 0)) ?p)"
    using read_bytes_part [OF len, of "heap n" ?start] by (simp add: getPayload_def)
  then show ?thesis unfolding read_tuple_def tuple_read_def Let_def first by (simp add: head)
qed

lemma take_same: "length K = length D \<Longrightarrow> take (length K) K = take (length K) D \<Longrightarrow> K = D"
  by simp

lemma optimistic_read:
  assumes "promote_phase2 skip r frame validated = Some x" "queued_ok skip r"
    "shows_records (take (prefix_bytes_of skip) (req_key r)) recs (frame_node frame)"
    "\<forall>tuple. recs (req_key r) = Some tuple \<longrightarrow> covers tuple (unat (req_value_length r))"
  shows "\<exists>tuple. recs (req_key r) = Some tuple \<and> covers tuple (unat (req_value_length r)) \<and> x = tuple_read tuple (unat (req_value_length r))"
proof -
  let ?n = "frame_node frame" and ?slot = "unat (req_slot_id r)" and ?b = "prefix_bytes_of skip"
  have s: "?slot < node_count ?n" "slot_holds_key skip r ?n" and x: "x = read_tuple ?n ?slot (unat (req_value_length r))"
    using assms(1) by (auto simp: promote_phase2_def split: if_splits)
  have kl: "unat (req_key_length r) = length (req_key r)" "?b \<le> length (req_key r)"
    using assms(2) by (simp_all add: queued_ok_def request_ok_def unat_of_nat take_bit_nat_eq_self)
  have fit: "prefix_length ?n + getKeyLen ?n ?slot < 2 ^ 16" using assms(3) s(1) by (simp add: shows_records_def)
  then have full: "getFullKeyLen ?n ?slot = length (copyFullKey ?n ?slot)"
    by (simp add: getFullKeyLen_def copyFullKey_def getPrefix_def getKey_def read_bytes_def tr16_def flip: of_nat_add)
  have "copyFullKey ?n ?slot = drop ?b (req_key r)"
  proof (rule take_same)
    show "length (copyFullKey ?n ?slot) = length (drop ?b (req_key r))"
      using s(2) kl(1) unfolding slot_holds_key_def full Let_def prefix_bytes_of_def by simp
    show "take (length (copyFullKey ?n ?slot)) (copyFullKey ?n ?slot) = take (length (copyFullKey ?n ?slot)) (drop ?b (req_key r))"
      using s(2) unfolding slot_holds_key_def full Let_def prefix_bytes_of_def by blast
  qed
  then have "recs (req_key r) = Some (getPayload ?n ?slot)"
    using assms(3) s(1) append_take_drop_id [of ?b "req_key r"] unfolding shows_records_def by metis
  moreover from this have "covers (getPayload ?n ?slot) (unat (req_value_length r))" using assms(4) by blast
  ultimately show ?thesis using x read_tuple_payload by blast
qed

section \<open>The queue of the promote thread\<close>

text \<open>Only the signals and the promote thread itself change the queue of requests.\<close>

abbreviation requests :: "record_cache \<Rightarrow> promote_request list" where
  "requests \<equiv> promote_request_message_queue"

lemma foldR_kept:
  assumes "foldR f xs a = Inr b" "\<And>x a b. f x a = Inr b \<Longrightarrow> g b = g a"
  shows "g b = g a"
  using assms(1)
proof (induction xs arbitrary: a)
  case (Cons x xs)
  then obtain c where "f x a = Inr c" "foldR f xs c = Inr b" by (auto simp: bindR_eq_Inr)
  then show ?case using Cons.IH assms(2) by metis
qed simp

lemma requests_head [simp]: "requests (put_head k p st) = requests st" "requests (drop_head k st) = requests st"
  "requests (addToInvalidationQueue p n st) = requests st" "requests (IncrementPendingStateInvalidatedFromHash st) = requests st"
  "requests (reinsert_victim p st) = requests st" "requests (DecrementPendingStateInvalidatedFromHash st) = requests st"
  by (simp_all add: put_head_def drop_head_def Let_def addToInvalidationQueue_def IncrementPendingStateInvalidatedFromHash_def
      DecrementPendingStateInvalidatedFromHash_def reinsert_victim_def)

lemma requests_epoch: "enterEpoch w st = Inr st' \<Longrightarrow> requests st' = requests st" "leaveEpoch w st = Inr st' \<Longrightarrow> requests st' = requests st"
  by (auto simp: enterEpoch_def leaveEpoch_def bindR_eq_Inr)

lemma requests_update: "tryUpdateAndInvalidateRecordCache skip dt key w st = Inr (b, st') \<Longrightarrow> requests st' = requests st"
  by (auto simp: tryUpdateAndInvalidateRecordCache_def casType_def bindR_eq_Inr Let_def split: if_splits prod.splits dest!: requests_epoch)

lemma requests_unlink: "unlink_entry p k st = Inr (b, st') \<Longrightarrow> requests st' = requests st"
  by (auto simp: unlink_entry_def bindR_eq_Inr Let_def split: option.splits if_splits prod.splits)

lemma requests_deallocate: "deallocate_entry p st = Inr st' \<Longrightarrow> requests st' = requests st"
  by (auto simp: deallocate_entry_def bindR_eq_Inr)

lemma requests_forward:
  assumes "forward_round (st, R) = Inr (st', R')"
  shows "requests st' = requests st"
proof -
  have "requests (fst b) = requests (fst a)" if "forward_item item a = Inr b" for item a b
    using that by (cases a) (auto simp: forward_item_def bindR_eq_Inr Let_def split: if_splits prod.splits dest!: requests_unlink)
  then have kept: "requests (fst b) = requests (fst a)" if "foldR forward_item items a = Inr b" for items a b
    using foldR_kept [OF that, of "\<lambda>x. requests (fst x)"] by blast
  show ?thesis using assms by (auto simp: forward_round_def Let_def pop_all_def dest: kept)
qed

lemma requests_victim: "handle_victim v st = Inr st' \<Longrightarrow> requests st' = requests st"
  by (auto simp: handle_victim_def handle_state100_victim_def evict_read_only_def bindR_eq_Inr Let_def
      split: if_splits option.splits prod.splits dest!: requests_deallocate)

lemma requests_dead: "handle_state100_victim v st = Inr st' \<Longrightarrow> requests st' = requests st"
  by (auto simp: handle_state100_victim_def bindR_eq_Inr Let_def dest!: requests_deallocate)

lemma requests_batch: "sieve_batch n st = Inr (b, st') \<Longrightarrow> requests st' = requests st"
  by (induction n arbitrary: st) (auto simp: bindR_eq_Inr Let_def split: if_splits prod.splits dest!: requests_victim)

lemma requests_sieve: "sieve_round st = Inr st' \<Longrightarrow> requests st' = requests st"
  by (auto simp: sieve_round_def bindR_eq_Inr Let_def split: if_splits prod.splits dest!: requests_batch foldR_kept [where g = requests, OF _ requests_dead])

lemma requests_withdraw: "withdraw k p st = Inr st' \<Longrightarrow> requests st' = requests st"
  by (auto simp: withdraw_def bindR_eq_Inr split: prod.splits dest!: requests_unlink)

lemma requests_finish: "promote_finish r p x st = Inr st' \<Longrightarrow> requests st' = requests st"
  by (auto simp: promote_finish_def promote_phase3_def publish_def bindR_eq_Inr Let_def split: option.splits if_splits dest!: requests_withdraw)

section \<open>The system\<close>

record world =
  cache :: record_cache
  retry_queue :: invalidation_queue
  records :: "bytes \<Rightarrow> bytes option"
  latched :: "bytes \<Rightarrow> bool"
  invalidated :: "bytes \<Rightarrow> bool"
  promotions :: "nat \<Rightarrow> (promote_request \<times> cxl_read option option) option"

definition start_world :: "record_cache \<Rightarrow> (bytes \<Rightarrow> bytes option) \<Rightarrow> world" where
  "start_world st recs = \<lparr>cache = st, retry_queue = [], records = recs, latched = (\<lambda>_. False), invalidated = (\<lambda>_. False),
     promotions = (\<lambda>_. None)\<rparr>"

definition end_promotion :: "promote_request \<Rightarrow> record_cache \<Rightarrow> record_cache" where
  "end_promotion r st = st\<lparr>inflight_promote_keys := inflight_promote_keys st - {req_key r}\<rparr>"

text \<open>
  A writer latches the leaf of a key, invalidates the record cache and then writes or removes the record;
  the insertion of a new key does not touch the record cache. A validated optimistic read sees a page
  that no writer holds; a promotion can also fail to read. Requests are those of entries that fit a slab
  block, and the allocator is not exhausted, so promotions need no rescue.
\<close>

inductive world_step :: "bool \<Rightarrow> world \<Rightarrow> world \<Rightarrow> bool" for skip where
  Lookup: "tryLookupInRecordCache skip vis dt key w (cache s) = Inr (v, st) \<Longrightarrow> world_step skip s (s\<lparr>cache := st\<rparr>)"
| Latch: "\<not> latched s k \<Longrightarrow> world_step skip s (s\<lparr>latched := (latched s)(k := True)\<rparr>)"
| Invalidate: "k = BuildPrefixedKey skip dt key \<Longrightarrow> latched s k \<Longrightarrow> tryUpdateAndInvalidateRecordCache skip dt key w (cache s) = Inr (b, st) \<Longrightarrow>
    world_step skip s (s\<lparr>cache := st, invalidated := (invalidated s)(k := True)\<rparr>)"
| Write: "latched s k \<Longrightarrow> invalidated s k \<Longrightarrow> world_step skip s (s\<lparr>records := (records s)(k := new)\<rparr>)"
| Insert: "latched s k \<Longrightarrow> records s k = None \<Longrightarrow> world_step skip s (s\<lparr>records := (records s)(k := new)\<rparr>)"
| Unlatch: "world_step skip s (s\<lparr>latched := (latched s)(k := False), invalidated := (invalidated s)(k := False)\<rparr>)"
| Signal: "signalPromoteThread skip dt key bf pid slot_id len urgent (cache s) = (b, st) \<Longrightarrow>
    \<forall>r\<in>set (promote_request_message_queue st). request_ok r \<Longrightarrow> world_step skip s (s\<lparr>cache := st\<rparr>)"
| SignalUpdate: "signalDirectUpdatePromote skip dt key bf pid slot_id len (cache s) = (b, st) \<Longrightarrow>
    \<forall>r\<in>set (promote_request_message_queue st). request_ok r \<Longrightarrow> world_step skip s (s\<lparr>cache := st\<rparr>)"
| Reject: "promote_request_message_queue (cache s) = r # rest \<Longrightarrow> has_memory r (cache s) \<Longrightarrow>
    promote_phase1 waited r ((cache s)\<lparr>promote_request_message_queue := rest\<rparr>) = Inr (0, st) \<Longrightarrow>
    world_step skip s (s\<lparr>cache := end_promotion r st\<rparr>)"
| Begin: "promote_request_message_queue (cache s) = r # rest \<Longrightarrow> has_memory r (cache s) \<Longrightarrow>
    promote_phase1 waited r ((cache s)\<lparr>promote_request_message_queue := rest\<rparr>) = Inr (p, st) \<Longrightarrow> p \<noteq> 0 \<Longrightarrow>
    world_step skip s (s\<lparr>cache := st, promotions := (promotions s)(p \<mapsto> (r, None))\<rparr>)"
| Read: "promotions s p = Some (r, None) \<Longrightarrow> \<not> latched s (req_key r) \<Longrightarrow>
    shows_records (take (prefix_bytes_of skip) (req_key r)) (records s) (frame_node frame) \<Longrightarrow>
    \<forall>tuple. records s (req_key r) = Some tuple \<longrightarrow> covers tuple (unat (req_value_length r)) \<Longrightarrow>
    world_step skip s (s\<lparr>promotions := (promotions s)(p \<mapsto> (r, Some (promote_phase2 skip r frame True)))\<rparr>)"
| ReadFails: "promotions s p = Some (r, None) \<Longrightarrow> world_step skip s (s\<lparr>promotions := (promotions s)(p \<mapsto> (r, Some None))\<rparr>)"
| Finish: "promotions s p = Some (r, Some x) \<Longrightarrow> promote_finish r p x (cache s) = Inr st \<Longrightarrow>
    world_step skip s (s\<lparr>cache := end_promotion r st, promotions := (promotions s)(p := None)\<rparr>)"
| Forward: "forward_round (cache s, retry_queue s) = Inr (st, R) \<Longrightarrow> world_step skip s (s\<lparr>cache := st, retry_queue := R\<rparr>)"
| Sieve: "sieve_round (cache s) = Inr st \<Longrightarrow> world_step skip s (s\<lparr>cache := st\<rparr>)"

end
