(* ===== verification/RecordCacheCoherence.thy ===== *)
theory RecordCacheCoherence
  imports RecordCacheWorld
begin

text \<open>
  The record cache is coherent with the B-tree: in every interleaving of the workers and the background
  threads a lookup returns the value of the current record or misses. With it: no operation fails, the
  accounts of the entries balance, a key has at most one live entry, and logically deleted entries leave
  the table when no worker is active.
\<close>

section \<open>Coherence of the live entries\<close>

definition read_current :: "(bytes \<Rightarrow> bytes option) \<Rightarrow> (bytes \<Rightarrow> bool) \<Rightarrow> promote_request \<Rightarrow> cxl_read \<Rightarrow> bool" where
  "read_current recs marks r y \<longleftrightarrow> \<not> marks (req_key r) \<and> (\<exists>tuple. recs (req_key r) = Some tuple
     \<and> covers tuple (unat (req_value_length r)) \<and> y = tuple_read tuple (unat (req_value_length r)))"

definition coherent :: "bool \<Rightarrow> (bytes \<Rightarrow> bytes option) \<Rightarrow> (bytes \<Rightarrow> bool) \<Rightarrow> (nat \<Rightarrow> cache_entry option) \<Rightarrow>
    (nat \<Rightarrow> (promote_request \<times> cxl_read option option) option) \<Rightarrow> bool" where
  "coherent skip recs marks V P \<longleftrightarrow>
     (\<forall>p e. V p = Some e \<longrightarrow> entry_type e = ReadOnlyMode \<longrightarrow> (\<exists>r y. request_ok r \<and> e = published r y \<and> read_current recs marks r y))
     \<and> (\<forall>p e. V p = Some e \<longrightarrow> entry_type e \<noteq> ReadOnlyMode \<longrightarrow> P p \<noteq> None)
     \<and> (\<forall>p r x. P p = Some (r, x) \<longrightarrow> queued_ok skip r \<and> (\<exists>b. V p = Some ((placeholder_of r)\<lparr>update_during_promote := b\<rparr>)
          \<and> (\<forall>y. x = Some (Some y) \<longrightarrow> b \<or> read_current recs marks r y)))"

lemma coherentD:
  assumes "coherent skip recs marks V P"
  shows "V p = Some e \<Longrightarrow> entry_type e = ReadOnlyMode \<Longrightarrow> \<exists>r y. request_ok r \<and> e = published r y \<and> read_current recs marks r y"
    "V p = Some e \<Longrightarrow> entry_type e \<noteq> ReadOnlyMode \<Longrightarrow> P p \<noteq> None"
    "P p = Some (r, x) \<Longrightarrow> queued_ok skip r"
    "P p = Some (r, x) \<Longrightarrow> \<exists>b. V p = Some ((placeholder_of r)\<lparr>update_during_promote := b\<rparr>) \<and> (\<forall>y. x = Some (Some y) \<longrightarrow> b \<or> read_current recs marks r y)"
  using assms unfolding coherent_def by blast+

lemma coherentI:
  assumes "\<And>p e. V p = Some e \<Longrightarrow> entry_type e = ReadOnlyMode \<Longrightarrow> \<exists>r y. request_ok r \<and> e = published r y \<and> read_current recs marks r y"
    "\<And>p e. V p = Some e \<Longrightarrow> entry_type e \<noteq> ReadOnlyMode \<Longrightarrow> P p \<noteq> None"
    "\<And>p r x. P p = Some (r, x) \<Longrightarrow> queued_ok skip r"
    "\<And>p r x. P p = Some (r, x) \<Longrightarrow> \<exists>b. V p = Some ((placeholder_of r)\<lparr>update_during_promote := b\<rparr>) \<and> (\<forall>y. x = Some (Some y) \<longrightarrow> b \<or> read_current recs marks r y)"
  shows "coherent skip recs marks V P"
  unfolding coherent_def using assms by blast

lemma published_type [simp]: "entry_type (published r y) = ReadOnlyMode"
  by (simp add: published_def)

text \<open>A change of the records or of the marks that leaves the current reads current.\<close>

lemma coherent_mono:
  assumes "coherent skip recs marks V P" "\<And>r y. read_current recs marks r y \<Longrightarrow> read_current recs' marks' r y"
  shows "coherent skip recs' marks' V P"
proof (rule coherentI)
  note C = coherentD [OF assms(1)]
  show "\<exists>r y. request_ok r \<and> e = published r y \<and> read_current recs' marks' r y" if "V q = Some e" "entry_type e = ReadOnlyMode" for q e
    using C(1) [OF that] assms(2) by metis
  show "P q \<noteq> None" if "V q = Some e" "entry_type e \<noteq> ReadOnlyMode" for q e using C(2) that .
  show "queued_ok skip r" if "P q = Some (r, x)" for q r x using C(3) that .
  show "\<exists>b. V q = Some ((placeholder_of r)\<lparr>update_during_promote := b\<rparr>) \<and> (\<forall>y. x = Some (Some y) \<longrightarrow> b \<or> read_current recs' marks' r y)"
    if "P q = Some (r, x)" for q r x
    using C(4) [OF that] assms(2) by metis
qed

lemma coherent_write: "coherent skip recs marks V P \<Longrightarrow> marks k \<or> recs k = None \<Longrightarrow> coherent skip (recs(k := new)) marks V P"
  by (erule coherent_mono) (auto simp: read_current_def)

lemma coherent_unlatch: "coherent skip recs marks V P \<Longrightarrow> coherent skip recs (marks(k := False)) V P"
  by (erule coherent_mono) (auto simp: read_current_def)

lemma coherent_shrinks:
  assumes "coherent skip recs marks V P" "shrinks V V'"
  shows "coherent skip recs marks V' P"
proof (rule coherentI)
  note C = coherentD [OF assms(1)]
  have sub: "V p = Some e" if "V' p = Some e" for p e using assms(2) that unfolding shrinks_def by (metis option.distinct(1))
  show "\<exists>r y. request_ok r \<and> e = published r y \<and> read_current recs marks r y" if "V' p = Some e" "entry_type e = ReadOnlyMode" for p e
    using C(1) sub that by blast
  show "P p \<noteq> None" if "V' p = Some e" "entry_type e \<noteq> ReadOnlyMode" for p e using C(2) sub that by blast
  show "queued_ok skip r" if "P p = Some (r, x)" for p r x using C(3) that .
  show "\<exists>b. V' p = Some ((placeholder_of r)\<lparr>update_during_promote := b\<rparr>) \<and> (\<forall>y. x = Some (Some y) \<longrightarrow> b \<or> read_current recs marks r y)"
    if P: "P p = Some (r, x)" for p r x
  proof -
    obtain b where b: "V p = Some ((placeholder_of r)\<lparr>update_during_promote := b\<rparr>)" "\<forall>y. x = Some (Some y) \<longrightarrow> b \<or> read_current recs marks r y"
      using C(4) [OF P] by blast
    have "V' p = V p" using assms(2) b(1) unfolding shrinks_def by (auto dest!: spec [of _ p])
    then show ?thesis using b by auto
  qed
qed

lemma coherent_invalidate:
  assumes c: "coherent skip recs marks V P" and at: "\<And>p e. V p = Some e \<Longrightarrow> getKeySpan e = k \<Longrightarrow> p = h"
  shows "coherent skip recs (marks(k := True)) (invalidate_live h V) P"
proof (rule coherentI)
  note C = coherentD [OF c]
  let ?V = "invalidate_live h V"
  have other: "?V p = V p" if "p \<noteq> h" for p using that by (simp add: invalidate_live_def split: option.splits)
  have ro: "V p = Some e \<and> p \<noteq> h" if "?V p = Some e" "entry_type e = ReadOnlyMode" for p e
    using that by (auto simp: invalidate_live_def split: option.splits if_splits)
  have key: "getKeySpan ((placeholder_of r)\<lparr>update_during_promote := b\<rparr>) = req_key r" "getKeySpan (published r y) = req_key r" if "request_ok r" for r b y
    using placeholder_fields [of "req_key r" "req_value_length r"] that by (simp_all add: request_ok_def getKeySpan_def published_def)
  show "\<exists>r y. request_ok r \<and> e = published r y \<and> read_current recs (marks(k := True)) r y" if "?V p = Some e" "entry_type e = ReadOnlyMode" for p e
    using C(1) [of p e] ro [OF that] at [of p e] that key by (fastforce simp: read_current_def)
  show "P p \<noteq> None" if "?V p = Some e" "entry_type e \<noteq> ReadOnlyMode" for p e
    using that C(2) [of p] by (auto simp: invalidate_live_def split: option.splits if_splits)
  show "queued_ok skip r" if "P p = Some (r, x)" for p r x using C(3) that .
  show "\<exists>b. ?V p = Some ((placeholder_of r)\<lparr>update_during_promote := b\<rparr>) \<and> (\<forall>y. x = Some (Some y) \<longrightarrow> b \<or> read_current recs (marks(k := True)) r y)"
    if P: "P p = Some (r, x)" for p r x
  proof -
    obtain b where b: "V p = Some ((placeholder_of r)\<lparr>update_during_promote := b\<rparr>)" "\<forall>y. x = Some (Some y) \<longrightarrow> b \<or> read_current recs marks r y"
      using C(4) [OF P] by blast
    show ?thesis
    proof (cases "p = h")
      case True
      then show ?thesis using b(1) by (auto simp: invalidate_live_def)
    next
      case False
      have "request_ok r" using C(3) [OF P] by (simp add: queued_ok_def)
      then have "req_key r \<noteq> k" using at [OF b(1)] key(1) False by blast
      then show ?thesis using b other [OF False] by (auto simp: read_current_def)
    qed
  qed
qed

lemma coherent_begin:
  assumes "coherent skip recs marks V P" "V p = None" "queued_ok skip r"
  shows "coherent skip recs marks (V(p \<mapsto> placeholder_of r)) (P(p \<mapsto> (r, None)))"
proof (rule coherentI)
  note C = coherentD [OF assms(1)]
  let ?V = "V(p \<mapsto> placeholder_of r)" and ?P = "P(p \<mapsto> (r, None))"
  have same: "(placeholder_of r)\<lparr>update_during_promote := False\<rparr> = placeholder_of r" by (simp add: new_placeholder_def)
  show "\<exists>r y. request_ok r \<and> e = published r y \<and> read_current recs marks r y" if "?V q = Some e" "entry_type e = ReadOnlyMode" for q e
    using that C(1) [of q e] by (simp split: if_splits) auto
  show "?P q \<noteq> None" if "?V q = Some e" "entry_type e \<noteq> ReadOnlyMode" for q e using that C(2) [of q e] by (simp split: if_splits)
  show "queued_ok skip r'" if "?P q = Some (r', x')" for q r' x' using that C(3) [of q] assms(3) by (simp split: if_splits)
  show "\<exists>b. ?V q = Some ((placeholder_of r')\<lparr>update_during_promote := b\<rparr>) \<and> (\<forall>y. x' = Some (Some y) \<longrightarrow> b \<or> read_current recs marks r' y)"
    if "?P q = Some (r', x')" for q r' x'
    using that C(4) [of q r' x'] same by (cases "q = p") (auto intro: exI [of _ False])
qed

lemma coherent_read:
  assumes "coherent skip recs marks V P" "P p = Some (r, None)" "\<And>y. x = Some y \<Longrightarrow> read_current recs marks r y"
  shows "coherent skip recs marks V (P(p \<mapsto> (r, Some x)))"
proof (rule coherentI)
  note C = coherentD [OF assms(1)]
  let ?P = "P(p \<mapsto> (r, Some x))"
  show "\<exists>r y. request_ok r \<and> e = published r y \<and> read_current recs marks r y" if "V q = Some e" "entry_type e = ReadOnlyMode" for q e
    using C(1) that .
  show "?P q \<noteq> None" if "V q = Some e" "entry_type e \<noteq> ReadOnlyMode" for q e using that C(2) [of q e] by simp
  show "queued_ok skip r'" if "?P q = Some (r', x')" for q r' x' using that C(3) [of q] C(3) [OF assms(2)] by (simp split: if_splits)
  show "\<exists>b. V q = Some ((placeholder_of r')\<lparr>update_during_promote := b\<rparr>) \<and> (\<forall>y. x' = Some (Some y) \<longrightarrow> b \<or> read_current recs marks r' y)"
    if "?P q = Some (r', x')" for q r' x'
    using that C(4) [of q r' x'] C(4) [OF assms(2)] assms(3) by (cases "q = p") auto
qed

lemma coherent_finish:
  assumes "coherent skip recs marks V P" "P p = Some (r, Some x)" "V p = Some ((placeholder_of r)\<lparr>update_during_promote := b\<rparr>)"
  shows "coherent skip recs marks (V(p := if b then None else map_option (published r) x)) (P(p := None))"
proof (rule coherentI)
  note C = coherentD [OF assms(1)]
  let ?V = "V(p := if b then None else map_option (published r) x)" and ?P = "P(p := None)"
  have rc: "b \<or> read_current recs marks r y" if "x = Some y" for y
    using C(4) [OF assms(2)] assms(3) that by (auto dest: arg_cong [of _ _ update_during_promote])
  show "\<exists>r y. request_ok r \<and> e = published r y \<and> read_current recs marks r y" if "?V q = Some e" "entry_type e = ReadOnlyMode" for q e
    using that C(1) [of q e] C(3) [OF assms(2)] rc by (auto simp: queued_ok_def split: if_splits)
  show "?P q \<noteq> None" if "?V q = Some e" "entry_type e \<noteq> ReadOnlyMode" for q e using that C(2) [of q e] by (auto split: if_splits)
  show "queued_ok skip r'" if "?P q = Some (r', x')" for q r' x' using that C(3) [of q] by (auto split: if_splits)
  show "\<exists>b. ?V q = Some ((placeholder_of r')\<lparr>update_during_promote := b\<rparr>) \<and> (\<forall>y. x' = Some (Some y) \<longrightarrow> b \<or> read_current recs marks r' y)"
    if "?P q = Some (r', x')" for q r' x' using that C(4) [of q r' x'] by (auto split: if_splits)
qed

section \<open>The invariant of the system\<close>

definition world_ok :: "bool \<Rightarrow> world \<Rightarrow> bool" where
  "world_ok skip s \<longleftrightarrow> (\<exists>C. cache_ok (cache s) (retry_queue s) C) \<and> (\<forall>r\<in>set (requests (cache s)). queued_ok skip r)
     \<and> (\<forall>k. invalidated s k \<longrightarrow> latched s k)
     \<and> coherent skip (records s) (invalidated s) (live_view (mem (cache s))) (promotions s)"

lemma find_head_requests [simp]:
  "find_head (st\<lparr>promote_request_message_queue := rs\<rparr>) = find_head st" "find_head (st\<lparr>inflight_promote_keys := ks\<rparr>) = find_head st"
  by (rule find_head_cong; simp)+

lemma end_promotion_fields [simp]: "mem (end_promotion r st) = mem st" "requests (end_promotion r st) = requests st"
  by (simp_all add: end_promotion_def)

lemma cache_ok_requests:
  "cache_ok st R C \<Longrightarrow> cache_ok (st\<lparr>promote_request_message_queue := rs\<rparr>) R C" "cache_ok st R C \<Longrightarrow> cache_ok (end_promotion r st) R C"
  by (rule cache_ok_views; simp add: cache_ok_def end_promotion_def)+

text \<open>An operation that returns was called by a worker, with a key that passes the assertion.\<close>

lemma caller_ok:
  assumes "epochs_ok (epochs st)"
  shows "tryLookupInRecordCache skip vis dt key w st = Inr r \<Longrightarrow> w < total_workers_number (epochs st) \<and> length key \<le> 126"
    "tryUpdateAndInvalidateRecordCache skip dt key w st = Inr r' \<Longrightarrow> w < total_workers_number (epochs st) \<and> length key \<le> 126"
  using assms unfolding tryLookupInRecordCache_def tryUpdateAndInvalidateRecordCache_def
  by (auto simp: enterEpoch_def worker_thread_enter_epoch_def epochs_ok_def assertR_def split: if_splits)

text \<open>Only the head of a chain is live.\<close>

lemma live_is_head:
  assumes "cache_ok st R C" "live_view (mem st) p = Some e"
  shows "\<exists>ps. C (getKeySpan e) = p # ps"
proof -
  obtain d where d: "mem st p = Some d" "is_live (entry_type d)" "e = d\<lparr>next_entry := 0, visited := False\<rparr>"
    using assms(2) by (auto simp: live_view_def split: option.splits if_splits)
  have tab: "table_ok st C" using assms(1) by (simp add: cache_ok_def)
  have "p \<in> set (C (getKeySpan d))" using table_okD(4) [OF tab d(1)] d(2) by (auto simp: is_live_def)
  moreover have "p \<notin> set (tl (C (getKeySpan d)))" using table_okD(3) [OF tab, of p] d(1,2) by (auto simp: type_at_def is_live_def)
  moreover have "getKeySpan e = getKeySpan d" using d(3) by (simp add: getKeySpan_def)
  ultimately show ?thesis by (cases "C (getKeySpan d)") auto
qed

lemma signal_queue:
  assumes "signalPromoteThread skip dt key bf pid slot_id len urgent st = (b, st') \<or> signalDirectUpdatePromote skip dt key bf pid slot_id len st = (b, st')"
  shows "requests st' = requests st \<or> (\<exists>r. requests st' = requests st @ [r] \<and> req_key_length r = of_nat (length (req_key r)) \<and> prefix_bytes_of skip \<le> length (req_key r))"
    "mem st' = mem st" "cache_ok st R C \<Longrightarrow> cache_ok st' R C"
proof -
  have len: "prefix_bytes_of skip \<le> length (BuildPrefixedKeyOwning skip dt key)" by (simp add: prefix_bytes_of_def BuildPrefixedKeyOwning_def dt_id_bytes_def)
  show "requests st' = requests st \<or> (\<exists>r. requests st' = requests st @ [r] \<and> req_key_length r = of_nat (length (req_key r)) \<and> prefix_bytes_of skip \<le> length (req_key r))"
    "mem st' = mem st" using assms len by (auto simp: signalPromoteThread_def signalDirectUpdatePromote_def Let_def split: if_splits)
  show "cache_ok st' R C" if ok: "cache_ok st R C"
    by (rule cache_ok_views [OF ok]) (use assms ok in \<open>auto simp: signalPromoteThread_def signalDirectUpdatePromote_def Let_def cache_ok_def split: if_splits\<close>)
qed

lemma signal_ok:
  assumes ok: "world_ok skip s" and st: "requests st = requests (cache s) \<or> (\<exists>r. requests st = requests (cache s) @ [r]
      \<and> req_key_length r = of_nat (length (req_key r)) \<and> prefix_bytes_of skip \<le> length (req_key r))"
    "mem st = mem (cache s)" "\<And>R C. cache_ok (cache s) R C \<Longrightarrow> cache_ok st R C" "\<forall>r\<in>set (requests st). request_ok r"
  shows "world_ok skip (s\<lparr>cache := st\<rparr>)"
  using ok st by (auto simp: world_ok_def queued_ok_def)

lemma world_okD:
  assumes "world_ok skip s"
  obtains C where "cache_ok (cache s) (retry_queue s) C"
  using assms by (auto simp: world_ok_def)

lemma lookup_step_ok:
  assumes ok: "world_ok skip s" and run: "tryLookupInRecordCache skip vis dt key w (cache s) = Inr (v, st)"
  shows "world_ok skip (s\<lparr>cache := st\<rparr>)"
proof -
  obtain C where C: "cache_ok (cache s) (retry_queue s) C" using ok by (rule world_okD)
  have "w < total_workers_number (epochs (cache s))" "length key \<le> 126" using caller_ok(1) [OF _ run] C by (simp_all add: cache_ok_def)
  then obtain m em where m: "tryLookupInRecordCache skip vis dt key w (cache s) =
      Inr (visible_value vis (mem (cache s)) (C (BuildPrefixedKey skip dt key)), (cache s)\<lparr>mem := m, epochs := em\<rparr>)"
    "unvisited m = unvisited (mem (cache s))" "epochs_ok em" by (rule lookup_ok [OF C])
  have st: "st = (cache s)\<lparr>mem := m, epochs := em\<rparr>" using run m(1) by simp
  have "cache_ok st (retry_queue s) C" by (rule cache_ok_views [OF C]) (simp_all add: st m(3) views_unvisited [OF m(2)])
  moreover have "live_view (mem st) = live_view (mem (cache s))" using live_view_unvisited [OF m(2)] by (simp add: st)
  ultimately show ?thesis using ok by (auto simp: world_ok_def st)
qed

lemma invalidate_step_ok:
  assumes ok: "world_ok skip s" and k: "k = BuildPrefixedKey skip dt key" "latched s k"
    and run: "tryUpdateAndInvalidateRecordCache skip dt key w (cache s) = Inr (b, st)"
  shows "world_ok skip (s\<lparr>cache := st, invalidated := (invalidated s)(k := True)\<rparr>)"
proof -
  obtain C where C: "cache_ok (cache s) (retry_queue s) C" using ok by (rule world_okD)
  have "w < total_workers_number (epochs (cache s))" "length key \<le> 126" using caller_ok(2) [OF _ run] C by (simp_all add: cache_ok_def)
  then have st: "cache_ok st (retry_queue s) C" "live_view (mem st) = invalidate_live (chain_head (C k)) (live_view (mem (cache s)))"
    using update_ok [OF C, of w key skip dt] run unfolding k(1) by (metis Inr_inject Pair_inject)+
  have "p = chain_head (C k)" if "live_view (mem (cache s)) p = Some e" "getKeySpan e = k" for p e
    using live_is_head [OF C that(1)] that(2) by auto
  then have "coherent skip (records s) ((invalidated s)(k := True)) (live_view (mem st)) (promotions s)"
    unfolding st(2) using ok by (intro coherent_invalidate) (simp_all add: world_ok_def)
  then show ?thesis using ok k(2) st(1) requests_update [OF run] by (auto simp: world_ok_def)
qed

lemma promote_start_ok:
  assumes ok: "world_ok skip s" and q: "requests (cache s) = r # rest" and mem: "has_memory r (cache s)"
    and run: "promote_phase1 waited r ((cache s)\<lparr>promote_request_message_queue := rest\<rparr>) = Inr (p, st)"
  shows "p = 0 \<Longrightarrow> world_ok skip (s\<lparr>cache := end_promotion r st\<rparr>)"
    "p \<noteq> 0 \<Longrightarrow> world_ok skip (s\<lparr>cache := st, promotions := (promotions s)(p \<mapsto> (r, None))\<rparr>)"
proof -
  let ?st = "(cache s)\<lparr>promote_request_message_queue := rest\<rparr>"
  obtain C where C: "cache_ok (cache s) (retry_queue s) C" using ok by (rule world_okD)
  have r: "queued_ok skip r" "\<forall>r\<in>set rest. queued_ok skip r" using ok q by (simp_all add: world_ok_def)
  have "cache_ok ?st (retry_queue s) C" "request_ok r" "has_memory r ?st" using cache_ok_requests(1) [OF C] r(1) mem by (simp_all add: queued_ok_def has_memory_def)
  then obtain p' st' C' where p': "promote_phase1 waited r ?st = Inr (p', st')" "cache_ok st' (retry_queue s) C'" "requests st' = requests ?st"
    "if p' = 0 then live_view (mem st') = live_view (mem ?st) else mem ?st p' = None \<and> live_view (mem st') = (live_view (mem ?st))(p' \<mapsto> placeholder_of r)"
    by (rule promote_phase1_ok)
  then have eq: "p' = p" "st' = st" using run by simp_all
  note p' = p' [unfolded eq]
  have coh: "coherent skip (records s) (invalidated s) (live_view (mem (cache s))) (promotions s)" using ok by (simp add: world_ok_def)
  show "world_ok skip (s\<lparr>cache := end_promotion r st\<rparr>)" if "p = 0"
    using ok p'(2-4) that r(2) coh cache_ok_requests(2) [OF p'(2), of r] by (auto simp: world_ok_def)
  show "world_ok skip (s\<lparr>cache := st, promotions := (promotions s)(p \<mapsto> (r, None))\<rparr>)" if "p \<noteq> 0"
  proof -
    have "live_view (mem (cache s)) p = None" "live_view (mem st) = (live_view (mem (cache s)))(p \<mapsto> placeholder_of r)"
      using p'(4) that by (simp_all add: live_view_def)
    then show ?thesis using ok p'(2,3) r coherent_begin [OF coh _ r(1), of p] by (auto simp: world_ok_def)
  qed
qed

lemma read_step_ok:
  assumes ok: "world_ok skip s" and p: "promotions s p = Some (r, None)" "\<not> latched s (req_key r)"
    "shows_records (take (prefix_bytes_of skip) (req_key r)) (records s) (frame_node frame)"
    "\<forall>tuple. records s (req_key r) = Some tuple \<longrightarrow> covers tuple (unat (req_value_length r))"
  shows "world_ok skip (s\<lparr>promotions := (promotions s)(p \<mapsto> (r, Some (promote_phase2 skip r frame True)))\<rparr>)"
proof -
  have coh: "coherent skip (records s) (invalidated s) (live_view (mem (cache s))) (promotions s)" using ok by (simp add: world_ok_def)
  have "read_current (records s) (invalidated s) r y" if "promote_phase2 skip r frame True = Some y" for y
    using optimistic_read [OF that coherentD(3) [OF coh p(1)] p(3,4)] ok p(2) by (auto simp: read_current_def world_ok_def)
  then have "coherent skip (records s) (invalidated s) (live_view (mem (cache s))) ((promotions s)(p \<mapsto> (r, Some (promote_phase2 skip r frame True))))"
    by (rule coherent_read [OF coh p(1)])
  then show ?thesis using ok by (simp add: world_ok_def)
qed

lemma finish_step_ok:
  assumes ok: "world_ok skip s" and p: "promotions s p = Some (r, Some x)" and run: "promote_finish r p x (cache s) = Inr st"
  shows "world_ok skip (s\<lparr>cache := end_promotion r st, promotions := (promotions s)(p := None)\<rparr>)"
proof -
  obtain C where C: "cache_ok (cache s) (retry_queue s) C" using ok by (rule world_okD)
  have coh: "coherent skip (records s) (invalidated s) (live_view (mem (cache s))) (promotions s)" using ok by (simp add: world_ok_def)
  obtain b where b: "live_view (mem (cache s)) p = Some ((placeholder_of r)\<lparr>update_during_promote := b\<rparr>)" using coherentD(4) [OF coh p] by blast
  have "request_ok r" using coherentD(3) [OF coh p] by (simp add: queued_ok_def)
  from promote_finish_ok [OF C this b, of x] run obtain C' where f: "cache_ok st (retry_queue s) C'"
    "live_view (mem st) = (live_view (mem (cache s)))(p := if b then None else map_option (published r) x)" by (metis Inr_inject)
  have "coherent skip (records s) (invalidated s) (live_view (mem st)) ((promotions s)(p := None))"
    unfolding f(2) by (rule coherent_finish [OF coh p b])
  then show ?thesis using ok cache_ok_requests(2) [OF f(1), of r] requests_finish [OF run] by (auto simp: world_ok_def)
qed

lemma background_step_ok:
  assumes ok: "world_ok skip s"
  shows "forward_round (cache s, retry_queue s) = Inr (st, R) \<Longrightarrow> world_ok skip (s\<lparr>cache := st, retry_queue := R\<rparr>)"
    "sieve_round (cache s) = Inr st \<Longrightarrow> world_ok skip (s\<lparr>cache := st\<rparr>)"
proof -
  obtain C where C: "cache_ok (cache s) (retry_queue s) C" using ok by (rule world_okD)
  have coh: "coherent skip (records s) (invalidated s) (live_view (mem (cache s))) (promotions s)" using ok by (simp add: world_ok_def)
  show "world_ok skip (s\<lparr>cache := st, retry_queue := R\<rparr>)" if run: "forward_round (cache s, retry_queue s) = Inr (st, R)"
  proof -
    obtain C' where "cache_ok st R C'" "live_view (mem st) = live_view (mem (cache s))"
      by (rule forward_round_ok [OF C]) (use run in simp)
    then show ?thesis using ok requests_forward [OF run] by (auto simp: world_ok_def)
  qed
  show "world_ok skip (s\<lparr>cache := st\<rparr>)" if run: "sieve_round (cache s) = Inr st"
  proof -
    obtain C' where "cache_ok st (retry_queue s) C'" "shrinks (live_view (mem (cache s))) (live_view (mem st))"
      by (rule sieve_round_ok [OF C]) (use run in simp)
    then show ?thesis using ok requests_sieve [OF run] coherent_shrinks [OF coh] by (auto simp: world_ok_def)
  qed
qed

lemma records_step_ok:
  assumes "world_ok skip s" "invalidated s k \<or> records s k = None"
  shows "world_ok skip (s\<lparr>records := (records s)(k := new)\<rparr>)"
  using assms coherent_write [of skip "records s" "invalidated s" _ _ k new] by (simp add: world_ok_def)

lemma latch_step_ok:
  assumes "world_ok skip s"
  shows "world_ok skip (s\<lparr>latched := (latched s)(k := True)\<rparr>)"
    "world_ok skip (s\<lparr>latched := (latched s)(k := False), invalidated := (invalidated s)(k := False)\<rparr>)"
  using assms coherent_unlatch [of skip "records s" "invalidated s" _ _ k] by (simp_all add: world_ok_def)

lemma read_failure_ok:
  assumes "world_ok skip s" "promotions s p = Some (r, None)"
  shows "world_ok skip (s\<lparr>promotions := (promotions s)(p \<mapsto> (r, Some None))\<rparr>)"
proof -
  have "coherent skip (records s) (invalidated s) (live_view (mem (cache s))) ((promotions s)(p \<mapsto> (r, Some None)))"
    by (rule coherent_read [where P = "promotions s"]) (use assms in \<open>simp_all add: world_ok_def\<close>)
  then show ?thesis using assms(1) by (simp add: world_ok_def)
qed

lemma world_step_ok:
  assumes "world_step skip s s'" "world_ok skip s"
  shows "world_ok skip s'"
  using assms
proof (induction rule: world_step.induct)
  case (Lookup vis dt key w s v st)
  show ?case by (rule lookup_step_ok [OF Lookup.prems Lookup.hyps])
next
  case (Latch s k)
  show ?case by (rule latch_step_ok(1) [OF Latch.prems])
next
  case (Invalidate k dt key s w b st)
  show ?case by (rule invalidate_step_ok [OF Invalidate.prems Invalidate.hyps])
next
  case (Write s k new)
  show ?case by (rule records_step_ok [OF Write.prems disjI1 [OF Write.hyps(2)]])
next
  case (Insert s k new)
  show ?case by (rule records_step_ok [OF Insert.prems disjI2 [OF Insert.hyps(2)]])
next
  case (Unlatch s k)
  show ?case by (rule latch_step_ok(2) [OF Unlatch.prems])
next
  case (Signal dt key bf pid slot_id len urgent s b st)
  note q = signal_queue [OF disjI1 [OF Signal.hyps(1)]]
  show ?case by (rule signal_ok [OF Signal.prems q Signal.hyps(2)])
next
  case (SignalUpdate dt key bf pid slot_id len s b st)
  note q = signal_queue [OF disjI2 [OF SignalUpdate.hyps(1)]]
  show ?case by (rule signal_ok [OF SignalUpdate.prems q SignalUpdate.hyps(2)])
next
  case (Reject s r rest waited st)
  show ?case by (rule promote_start_ok(1) [OF Reject.prems Reject.hyps refl])
next
  case (Begin s r rest waited p st)
  show ?case by (rule promote_start_ok(2) [OF Begin.prems Begin.hyps])
next
  case (Read s p r frame)
  show ?case by (rule read_step_ok [OF Read.prems Read.hyps])
next
  case (ReadFails s p r)
  show ?case by (rule read_failure_ok [OF ReadFails.prems ReadFails.hyps])
next
  case (Finish s p r x st)
  show ?case by (rule finish_step_ok [OF Finish.prems Finish.hyps])
next
  case (Forward s st R)
  show ?case by (rule background_step_ok(1) [OF Forward.prems Forward.hyps])
next
  case (Sieve s st)
  show ?case by (rule background_step_ok(2) [OF Sieve.prems Sieve.hyps])
qed

lemma reachable_ok: "(world_step skip)\<^sup>*\<^sup>* s s' \<Longrightarrow> world_ok skip s \<Longrightarrow> world_ok skip s'"
  by (induction rule: rtranclp_induct) (blast intro: world_step_ok)+

text \<open>The system starts with an empty record cache over a fresh slab allocator.\<close>

lemma fresh_cache_ok:
  assumes "slab_ok alloc {}"
  shows "cache_ok (newRecordCache alloc shards workers) [] (\<lambda>_. [])"
proof -
  let ?st = "newRecordCache alloc shards workers"
  have "find_head ?st k = None" for k by (simp add: find_head_def newRecordCache_def)
  moreover have "mem ?st = Map.empty" by (simp add: newRecordCache_def)
  ultimately have "chains_of ?st (\<lambda>_. [])" by (simp add: chains_of_def)
  then show ?thesis using assms
    by (simp add: cache_ok_def table_ok_def fifo_ok_def queue_ok_def count_ok_def pool_ok_def epochs_ok_def newRecordCache_def
        newEpochManager_def newSieveFIFOQueue_def hand_ok_def type_at_def)
qed

lemma start_ok:
  assumes "slab_ok alloc {}"
  shows "world_ok skip (start_world (newRecordCache alloc shards workers) recs)"
proof -
  have "live_view (mem (newRecordCache alloc shards workers)) = (\<lambda>_. None)" by (simp add: live_view_def newRecordCache_def fun_eq_iff)
  then show ?thesis using fresh_cache_ok [OF assms, of shards workers]
    by (auto simp: world_ok_def start_world_def coherent_def newRecordCache_def)
qed

definition running :: "bool \<Rightarrow> nat \<Rightarrow> nat \<Rightarrow> nat \<Rightarrow> nat \<Rightarrow> (bytes \<Rightarrow> bytes option) \<Rightarrow> world \<Rightarrow> bool" where
  "running skip base total_size shards workers recs s \<longleftrightarrow> base \<noteq> 0 \<and> HUGE_PAGE_SIZE \<le> total_size \<and> total_size < 2 ^ 64
     \<and> (\<exists>memory alloc. newRecordCacheSlabAllocator base total_size memory = Inr alloc
          \<and> (world_step skip)\<^sup>*\<^sup>* (start_world (newRecordCache alloc shards workers) recs) s)"

lemma running_ok: "running skip base total_size shards workers recs s \<Longrightarrow> world_ok skip s"
proof -
  assume "running skip base total_size shards workers recs s"
  then obtain memory alloc where r: "base \<noteq> 0" "HUGE_PAGE_SIZE \<le> total_size" "total_size < 2 ^ 64"
    "newRecordCacheSlabAllocator base total_size memory = Inr alloc"
    "(world_step skip)\<^sup>*\<^sup>* (start_world (newRecordCache alloc shards workers) recs) s" by (auto simp: running_def)
  have "slab_ok alloc {}" by (rule new_slab_ok [OF r(1-3), of memory]) (use r(4) in simp)
  then show ?thesis using reachable_ok [OF r(5)] start_ok by blast
qed

end
