(* ===== verification/RecordCacheTheorems.thy ===== *)
theory RecordCacheTheorems
  imports RecordCacheCoherence
begin

text \<open>
  What the record cache promises to the system around it, in every state that the workers and the
  background threads can reach together.
\<close>

section \<open>Lookups\<close>

lemma visible_is_published:
  assumes ok: "world_ok skip s" and C: "cache_ok (cache s) (retry_queue s) C" and v: "visible_value vis (mem (cache s)) (C k) = Some v"
  obtains r :: promote_request and tuple where "records s k = Some tuple" "\<not> invalidated s k" "covers tuple (unat (req_value_length r))"
    "v = take (unat (req_value_length r)) (drop (value_offset (tuple ! 0)) tuple)"
proof -
  let ?p = "chain_head (C k)"
  obtain e where e: "mem (cache s) ?p = Some e" "C k \<noteq> []" "entry_type e = ReadOnlyMode" "v = getValueSpan e"
    using v by (auto simp: visible_value_def split: option.splits if_splits)
  let ?e = "e\<lparr>next_entry := 0, visited := False\<rparr>"
  have live: "live_view (mem (cache s)) ?p = Some ?e" using e(1,3) by (simp add: live_view_def is_live_def)
  have coh: "coherent skip (records s) (invalidated s) (live_view (mem (cache s))) (promotions s)" using ok by (simp add: world_ok_def)
  obtain r y where r: "request_ok r" "?e = published r y" "read_current (records s) (invalidated s) r y"
    using coherentD(1) [OF coh live] e(3) by auto
  then obtain tuple where t: "records s (req_key r) = Some tuple" "\<not> invalidated s (req_key r)" "covers tuple (unat (req_value_length r))"
    "y = tuple_read tuple (unat (req_value_length r))" by (auto simp: read_current_def)
  have len: "length (req_key r) < 2 ^ 16" using r(1) by (simp add: request_ok_def)
  have kl: "unat (key_length (published r y)) = length (req_key r)" using placeholder_fields(1) [OF len] by (simp add: published_def)
  have "?p \<in> set (C k)" using e(2) by (cases "C k") simp_all
  then have "getKeySpan e = k" using chainsD(4) [OF table_okD(1), of "cache s" C ?p k] C e(1) by (auto simp: cache_ok_def key_at_def)
  moreover have "getKeySpan e = req_key r" using arg_cong [OF r(2), of getKeySpan] kl by (simp add: getKeySpan_def published_def)
  moreover have "getValueSpan e = read_value y"
    using arg_cong [OF r(2), of getValueSpan] kl t(4) by (simp add: getValueSpan_def published_def tuple_read_def)
  ultimately show ?thesis using that [of tuple r] t e(4) by (simp add: tuple_read_def)
qed

lemma lookup_result:
  assumes ok: "world_ok skip s" and run: "tryLookupInRecordCache skip vis dt key w (cache s) = Inr (v, st)"
  obtains C where "cache_ok (cache s) (retry_queue s) C" "v = visible_value vis (mem (cache s)) (C (BuildPrefixedKey skip dt key))"
proof -
  obtain C where C: "cache_ok (cache s) (retry_queue s) C" using ok by (rule world_okD)
  have "w < total_workers_number (epochs (cache s))" "length key \<le> 126" using caller_ok(1) [OF _ run] C by (simp_all add: cache_ok_def)
  then have "v = visible_value vis (mem (cache s)) (C (BuildPrefixedKey skip dt key))"
    using lookup_ok [OF C, of w key skip vis dt] run by (metis Inr_inject Pair_inject)
  then show ?thesis using that C by blast
qed

section \<open>A record is promoted and found\<close>

definition sample_tuple :: bytes where "sample_tuple = replicate 21 0 @ replicate 67 7"

definition sample_page :: btree_node where
  "sample_page = \<lparr>upper_swip = 0, lower_fence = \<lparr>fk_offset = 0, fk_length = 0\<rparr>, upper_fence = \<lparr>fk_offset = 0, fk_length = 0\<rparr>, node_count = 1,
     is_leaf = True, space_used = 89, data_offset = 100, prefix_length = 0, hint = [], has_garbage = False,
     slots = (\<lambda>_. \<lparr>slot_offset = 100, slot_key_len = 1, slot_payload_len = 88, slot_head = 0\<rparr>),
     heap = (\<lambda>i. if i = 100 then 1 else if 122 \<le> i then 7 else 0)\<rparr>"

definition sample_frame :: cxl_frame where "sample_frame = \<lparr>frame_pid = 5, frame_hot = True, frame_node = sample_page\<rparr>"

definition sample_request :: promote_request where
  "sample_request = \<lparr>req_key = [1], req_bf = 0, req_pid = 5, req_slot_id = 0, req_key_length = 1, req_value_length = 67,
     req_is_urgent = False, req_is_direct_update = False\<rparr>"

abbreviation sample_records :: "bytes \<Rightarrow> bytes option" where "sample_records \<equiv> [[1] \<mapsto> sample_tuple]"

lemma read_sample_page:
  "getPayload sample_page i = sample_tuple" "copyFullKey sample_page i = [1]" "getFullKeyLen sample_page i = 1"
proof -
  have "getPayload sample_page i = map (\<lambda>i. if 122 \<le> 101 + i then 7 else 0) [0..<88]"
    by (simp add: getPayload_def getPayloadLength_def getKeyLen_def sample_page_def read_bytes_def)
  also have "[0..<88] = [0..<21] @ [21..<88 :: nat]" by (rule upt_split) simp_all
  also have "map (\<lambda>i. if 122 \<le> 101 + i then 7 else 0) ([0..<21] @ [21..<88]) = sample_tuple"
    unfolding sample_tuple_def map_append by (intro arg_cong2 [of _ _ _ _ "(@)"] replicate_eqI) auto
  finally show "getPayload sample_page i = sample_tuple" .
qed (simp_all add: copyFullKey_def getPrefix_def getKey_def getFullKeyLen_def getKeyLen_def sample_page_def read_bytes_def tr16_def)

lemma sample_covers: "covers sample_tuple 67"
  by (simp add: covers_def sample_tuple_def nth_append value_offset_def sizeof_ChainedTuple_def)

lemma sample_shows: "shows_records [] sample_records sample_page"
  by (simp add: shows_records_def read_sample_page) (simp add: sample_page_def getKeyLen_def)

lemma sample_queued: "queued_ok True sample_request" "totalSizeForRecordCacheEntry (placeholder_of sample_request) = 100"
proof -
  show "totalSizeForRecordCacheEntry (placeholder_of sample_request) = 100"
    by (simp add: totalSizeForRecordCacheEntry_def new_placeholder_def sample_request_def sizeof_RecordCacheEntry_def)
  then show "queued_ok True sample_request"
    by (simp add: queued_ok_def request_ok_def MAX_BLOCK_SIZE_def) (simp add: sample_request_def prefix_bytes_of_def)
qed

lemma sample_read: "promote_phase2 True sample_request sample_frame True = Some (tuple_read sample_tuple 67)"
proof -
  have "promote_phase2 True sample_request sample_frame True = Some (read_tuple sample_page 0 67)"
    by (simp add: promote_phase2_def sample_frame_def slot_holds_key_def Let_def read_sample_page sample_request_def) (simp add: sample_page_def)
  then show ?thesis using read_tuple_payload [of sample_page 0 67] sample_covers by (simp add: read_sample_page)
qed

lemma sample_signal:
  "signalPromoteThread True 0 [1] 0 5 0 67 False (newRecordCache alloc 1 1) =
     (True, (newRecordCache alloc 1 1)\<lparr>inflight_promote_keys := {[1]}, promote_request_message_queue := [sample_request]\<rparr>)"
  by (simp add: signalPromoteThread_def newRecordCache_def BuildPrefixedKeyOwning_def kPromoteQueueDepthSoftLimit_def sample_request_def Let_def)

lemma fresh_usage: "newRecordCacheSlabAllocator base total_size memory = Inr alloc \<Longrightarrow> getUsageRatio alloc = Inr 0"
proof -
  assume "newRecordCacheSlabAllocator base total_size memory = Inr alloc"
  then have "bytes_in_use alloc = 0" by (auto simp: newRecordCacheSlabAllocator_def split: if_splits)
  moreover obtain d where "getUsageRatio alloc = Inr d" using usage_ratio_defined by blast
  ultimately show ?thesis by (auto simp: getUsageRatio_def ddiv_def double_of_nat_def split: if_splits)
qed

text \<open>The placeholder of the sample request is installed, read and published.\<close>

lemma sample_begins:
  obtains alloc p st C where "newRecordCacheSlabAllocator 4096 HUGE_PAGE_SIZE (\<lambda>_. 0) = Inr alloc" "p \<noteq> 0" "cache_ok st [] C"
    "epochs st = newEpochManager 1" "live_view (mem st) p = Some (placeholder_of sample_request)"
    "(world_step True)\<^sup>*\<^sup>* (start_world (newRecordCache alloc 1 1) sample_records)
      \<lparr>cache = st, retry_queue = [], records = sample_records, latched = (\<lambda>_. False), invalidated = (\<lambda>_. False),
       promotions = [p \<mapsto> (sample_request, None)]\<rparr>"
proof -
  obtain alloc where a: "newRecordCacheSlabAllocator 4096 HUGE_PAGE_SIZE (\<lambda>_. 0) = Inr alloc" "slab_ok alloc {}" "do_allocate None 100 8 alloc \<noteq> Inl BadAlloc"
    by (rule sample_served)
  let ?st0 = "newRecordCache alloc 1 1" and ?s0 = "start_world (newRecordCache alloc 1 1) sample_records"
  let ?st1 = "?st0\<lparr>inflight_promote_keys := {[1]}, promote_request_message_queue := [sample_request]\<rparr>"
  let ?st2 = "?st1\<lparr>promote_request_message_queue := []\<rparr>"
  have rq: "request_ok sample_request" using sample_queued(1) by (simp add: queued_ok_def)
  have one: "world_step True ?s0 (?s0\<lparr>cache := ?st1\<rparr>)"
    by (rule Signal [of True 0 "[1]" 0 5 0 67 False _ True]) (use sample_signal rq in \<open>simp_all add: start_world_def\<close>)
  have "cache_ok ?st1 [] (\<lambda>_. [])"
    using signal_queue(3) [OF disjI1 [OF sample_signal]] fresh_cache_ok [OF a(2), of 1 1] by blast
  then have c2: "cache_ok ?st2 [] (\<lambda>_. [])" by (rule cache_ok_requests(1))
  have al: "allocator ?st0 = alloc" "epochs ?st0 = newEpochManager 1" by (simp_all add: newRecordCache_def)
  have hm: "has_memory sample_request ?st2" using a(3) al(1) sample_queued(2) by (simp add: has_memory_def)
  obtain p st C where p: "promote_phase1 (\<lambda>_. []) sample_request ?st2 = Inr (p, st)" "cache_ok st [] C" "epochs st = epochs ?st2"
    "p = 0 \<longleftrightarrow> getUsageRatio (allocator ?st2) \<in> {Inr ratio | ratio. kPromoteHardWatermark < ratio}
       \<or> (\<exists>q\<in>set ((\<lambda>_. []) (req_key sample_request)). type_at (mem ?st2) q \<noteq> Some Deleted)"
    "if p = 0 then live_view (mem st) = live_view (mem ?st2)
     else mem ?st2 p = None \<and> live_view (mem st) = (live_view (mem ?st2))(p \<mapsto> placeholder_of sample_request)"
    by (rule promote_phase1_ok [OF c2 rq hm])
  have "0 \<le> kPromoteHardWatermark" by (simp add: kPromoteHardWatermark_def rnd_nonneg)
  then have nz: "p \<noteq> 0" using p(4) fresh_usage [OF a(1)] al(1) by simp
  have two: "world_step True (?s0\<lparr>cache := ?st1\<rparr>) (?s0\<lparr>cache := ?st1, cache := st, promotions := [p \<mapsto> (sample_request, None)]\<rparr>)"
    using Begin [of "?s0\<lparr>cache := ?st1\<rparr>" sample_request "[]" "\<lambda>_. []" p st True] p(1) nz hm by (simp add: start_world_def has_memory_def)
  have "?s0\<lparr>cache := ?st1, cache := st, promotions := [p \<mapsto> (sample_request, None)]\<rparr> =
      \<lparr>cache = st, retry_queue = [], records = sample_records, latched = (\<lambda>_. False), invalidated = (\<lambda>_. False), promotions = [p \<mapsto> (sample_request, None)]\<rparr>"
    by (simp add: start_world_def)
  from two [unfolded this] have "(world_step True)\<^sup>*\<^sup>* ?s0
      \<lparr>cache = st, retry_queue = [], records = sample_records, latched = (\<lambda>_. False), invalidated = (\<lambda>_. False), promotions = [p \<mapsto> (sample_request, None)]\<rparr>"
    by (rule converse_rtranclp_into_rtranclp [where r = "world_step True", OF one r_into_rtranclp])
  moreover have "live_view (mem st) p = Some (placeholder_of sample_request)" using p(5) nz by simp
  moreover have "epochs st = newEpochManager 1" using p(3) al(2) by simp
  ultimately show ?thesis using that [OF a(1) nz p(2)] by blast
qed

lemma sample_hit:
  obtains s C p where "running True 4096 HUGE_PAGE_SIZE 1 1 sample_records s" "cache_ok (cache s) (retry_queue s) C" "epochs (cache s) = newEpochManager 1"
    "live_view (mem (cache s)) p = Some (published sample_request (tuple_read sample_tuple 67))"
proof -
  obtain alloc p st C where b: "newRecordCacheSlabAllocator 4096 HUGE_PAGE_SIZE (\<lambda>_. 0) = Inr alloc" "p \<noteq> 0" "cache_ok st [] C"
    "epochs st = newEpochManager 1" "live_view (mem st) p = Some (placeholder_of sample_request)"
    "(world_step True)\<^sup>*\<^sup>* (start_world (newRecordCache alloc 1 1) sample_records)
      \<lparr>cache = st, retry_queue = [], records = sample_records, latched = (\<lambda>_. False), invalidated = (\<lambda>_. False),
       promotions = [p \<mapsto> (sample_request, None)]\<rparr>" (is "_\<^sup>*\<^sup>* _ ?s") by (rule sample_begins)
  let ?x = "Some (tuple_read sample_tuple 67)"
  let ?s1 = "?s\<lparr>promotions := [p \<mapsto> (sample_request, Some ?x)]\<rparr>"
  have key: "req_key sample_request = [1]" "unat (req_value_length sample_request) = 67" by (simp_all add: sample_request_def)
  have "shows_records (take (prefix_bytes_of True) (req_key sample_request)) (records ?s) (frame_node sample_frame)"
    using sample_shows by (simp add: prefix_bytes_of_def sample_frame_def)
  moreover have "\<forall>tuple. records ?s (req_key sample_request) = Some tuple \<longrightarrow> covers tuple (unat (req_value_length sample_request))"
    using sample_covers key by simp
  ultimately have read: "world_step True ?s ?s1" using Read [of ?s p sample_request True sample_frame] by (simp add: sample_read)
  have same: "(placeholder_of sample_request)\<lparr>update_during_promote := False\<rparr> = placeholder_of sample_request" by (simp add: new_placeholder_def)
  have rq: "request_ok sample_request" using sample_queued(1) by (simp add: queued_ok_def)
  have lv: "live_view (mem st) p = Some ((placeholder_of sample_request)\<lparr>update_during_promote := False\<rparr>)" using b(5) same by simp
  obtain st' C' where f: "promote_finish sample_request p ?x st = Inr st'" "cache_ok st' [] C'" "epochs st' = epochs st"
    "live_view (mem st') = (live_view (mem st))(p := if False then None else map_option (published sample_request) ?x)"
    by (rule promote_finish_ok [OF b(3) rq lv])
  let ?s2 = "?s1\<lparr>cache := end_promotion sample_request st', promotions := (promotions ?s1)(p := None)\<rparr>"
  have fin: "world_step True ?s1 ?s2" using Finish [of ?s1 p sample_request ?x st' True] f(1) by simp
  have run: "running True 4096 HUGE_PAGE_SIZE 1 1 sample_records ?s2"
    unfolding running_def
  proof (intro conjI exI)
    show "newRecordCacheSlabAllocator 4096 HUGE_PAGE_SIZE (\<lambda>_. 0) = Inr alloc" by (rule b(1))
    show "(world_step True)\<^sup>*\<^sup>* (start_world (newRecordCache alloc 1 1) sample_records) ?s2"
      using b(6) read fin by (rule rtranclp.rtrancl_into_rtrancl [OF rtranclp.rtrancl_into_rtrancl])
  qed (simp_all add: HUGE_PAGE_SIZE_def)
  show ?thesis
    by (rule that [OF run, of C' p]) (use f b(4) cache_ok_requests(2) [OF f(2)] in \<open>simp_all add: end_promotion_def\<close>)
qed

lemma sample_values:
  assumes "cache_ok st R C" "live_view (mem st) p = Some (published sample_request (tuple_read sample_tuple 67))"
  shows "visible_value (\<lambda>_ _. True) (mem st) (C [1]) = Some (replicate 67 7)" "type_at (mem st) p = Some ReadOnlyMode" "mem st p \<noteq> None"
proof -
  let ?y = "tuple_read sample_tuple 67"
  obtain e where e: "mem st p = Some e" "published sample_request ?y = e\<lparr>next_entry := 0, visited := False\<rparr>"
    using assms(2) by (auto simp: live_view_def split: option.splits if_splits)
  have kl: "unat (key_length (published sample_request ?y)) = 1" using placeholder_fields(1) [of "[1]" 67] by (simp add: published_def sample_request_def)
  have "getKeySpan (published sample_request ?y) = [1]" using kl by (simp add: getKeySpan_def published_def sample_request_def)
  then obtain ps where "C [1] = p # ps" using live_is_head [OF assms] by auto
  moreover have "getValueSpan e = replicate 67 7"
    using arg_cong [OF e(2), of getValueSpan] kl
    by (simp add: getValueSpan_def published_def sample_request_def tuple_read_def sample_tuple_def nth_append value_offset_def sizeof_ChainedTuple_def)
  moreover have "entry_type e = ReadOnlyMode" using arg_cong [OF e(2), of entry_type] by simp
  ultimately show "visible_value (\<lambda>_ _. True) (mem st) (C [1]) = Some (replicate 67 7)" "type_at (mem st) p = Some ReadOnlyMode" "mem st p \<noteq> None"
    using e(1) by (simp_all add: visible_value_def type_at_def)
qed

section \<open>Properties\<close>





text \<open>
  C3. The accounts balance: every allocated entry is in the SIEVE queue exactly once and owns a block of the
  slab allocator, the counters of entries and of dead entries count them, the logically deleted entries are
  exactly those of the invalidation queue and of the forward epoch thread, and every placeholder belongs
  to a pending promotion, so no entry can be forgotten.\<close>

theorem entries_are_accounted:
  assumes "running skip base total_size shards workers recs s"
  shows "active_entry_count (cache s) = card (dom (mem (cache s))) mod 2 ^ 64
    \<and> pending_state_invalidated_from_hash (cache s) = card {p. type_at (mem (cache s)) p = Some Removed} mod 2 ^ 64
    \<and> distinct (sieve_fifo_queue (sieve_fifo_of (cache s))) \<and> set (sieve_fifo_queue (sieve_fifo_of (cache s))) = dom (mem (cache s))
    \<and> distinct (map entry_pointer (retry_queue s @ inval_queue (cache s)))
    \<and> entry_pointer ` set (retry_queue s @ inval_queue (cache s)) = {p. type_at (mem (cache s)) p = Some Deleted}
    \<and> {p. type_at (mem (cache s)) p = Some Placeholder} = dom (promotions s)
    \<and> slab_ok (allocator (cache s)) (dom (mem (cache s)))"
proof -
  have ok: "world_ok skip s" using assms by (rule running_ok)
  obtain C where C: "cache_ok (cache s) (retry_queue s) C" using ok by (rule world_okD)
  have coh: "coherent skip (records s) (invalidated s) (live_view (mem (cache s))) (promotions s)" using ok by (simp add: world_ok_def)
  have "type_at (mem (cache s)) p = Some Placeholder \<longleftrightarrow> promotions s p \<noteq> None" for p
  proof
    assume "type_at (mem (cache s)) p = Some Placeholder"
    then obtain e where "mem (cache s) p = Some e" "entry_type e = Placeholder" by (auto simp: type_at_def)
    then show "promotions s p \<noteq> None" using coherentD(2) [OF coh, of p] by (simp add: live_view_def is_live_def)
  next
    assume "promotions s p \<noteq> None"
    then obtain r x where "promotions s p = Some (r, x)" by auto
    then obtain b where "live_view (mem (cache s)) p = Some ((placeholder_of r)\<lparr>update_during_promote := b\<rparr>)" using coherentD(4) [OF coh] by blast
    then show "type_at (mem (cache s)) p = Some Placeholder" by (rule pending_entry) (simp add: type_at_def)
  qed
  then have "{p. type_at (mem (cache s)) p = Some Placeholder} = dom (promotions s)" by auto
  then show ?thesis using C by (simp add: cache_ok_def count_ok_def fifo_ok_def queue_ok_def pool_ok_def)
qed

theorem entries_are_accounted_witness:
  "\<exists>s p. running True 4096 HUGE_PAGE_SIZE 1 1 sample_records s \<and> type_at (mem (cache s)) p = Some ReadOnlyMode
     \<and> p \<in> set (sieve_fifo_queue (sieve_fifo_of (cache s)))"
proof -
  obtain s C p where s: "running True 4096 HUGE_PAGE_SIZE 1 1 sample_records s" "cache_ok (cache s) (retry_queue s) C"
    "live_view (mem (cache s)) p = Some (published sample_request (tuple_read sample_tuple 67))" by (rule sample_hit)
  then show ?thesis using entries_are_accounted [OF s(1)] sample_values(2,3) [OF s(2,3)] by blast
qed

text \<open>
  C4. A key has at most one live entry: a read-only entry or placeholder is what the hash table has as the
  head for its key, so a lookup cannot choose between two versions and an update reaches the one there is.\<close>

theorem live_entry_is_the_head:
  assumes "running skip base total_size shards workers recs s" "mem (cache s) p = Some e" "entry_type e = ReadOnlyMode \<or> entry_type e = Placeholder"
  shows "find_head (cache s) (getKeySpan e) = Some p"
proof -
  have ok: "world_ok skip s" using assms(1) by (rule running_ok)
  obtain C where C: "cache_ok (cache s) (retry_queue s) C" using ok by (rule world_okD)
  have "live_view (mem (cache s)) p = Some (e\<lparr>next_entry := 0, visited := False\<rparr>)" using assms(2,3) by (auto simp: live_view_def is_live_def)
  then obtain ps where "C (getKeySpan e) = p # ps" using live_is_head [OF C] by (fastforce simp: getKeySpan_def)
  then show ?thesis using chainsD(1) [OF table_okD(1), of "cache s" C "getKeySpan e"] C by (simp add: cache_ok_def)
qed

theorem live_entry_is_the_head_witness:
  "\<exists>s p e. running True 4096 HUGE_PAGE_SIZE 1 1 sample_records s \<and> mem (cache s) p = Some e \<and> find_head (cache s) (getKeySpan e) = Some p"
proof -
  obtain s C p where s: "running True 4096 HUGE_PAGE_SIZE 1 1 sample_records s" "cache_ok (cache s) (retry_queue s) C"
    "live_view (mem (cache s)) p = Some (published sample_request (tuple_read sample_tuple 67))" by (rule sample_hit)
  obtain e where "mem (cache s) p = Some e" "entry_type e = ReadOnlyMode" using sample_values(2) [OF s(2,3)] by (auto simp: type_at_def)
  then show ?thesis using live_entry_is_the_head [OF s(1)] s(1) by blast
qed

text \<open>
  C5. An update hides the old value: whatever the record cache held for the key, a lookup that follows the
  invalidation misses, for every worker and every visibility.\<close>

theorem update_hides_old_value:
  assumes "running skip base total_size shards workers recs s"
    "tryUpdateAndInvalidateRecordCache skip dt_id key worker_id (cache s) = Inr (invalidated_entry, st)"
    "tryLookupInRecordCache skip isVisibleForMe dt_id key reader st = Inr (v, st')"
  shows "v = None"
proof (rule ccontr)
  let ?k = "BuildPrefixedKey skip dt_id key"
  let ?s = "s\<lparr>latched := (latched s)(?k := True)\<rparr>"
  let ?s' = "?s\<lparr>cache := st, invalidated := (invalidated ?s)(?k := True)\<rparr>"
  assume "v \<noteq> None"
  then obtain x where x: "v = Some x" by auto
  have "world_ok skip ?s" using running_ok [OF assms(1)] by (rule latch_step_ok(1))
  then have ok: "world_ok skip ?s'" by (rule invalidate_step_ok) (use assms(2) in simp_all)
  have run: "tryLookupInRecordCache skip isVisibleForMe dt_id key reader (cache ?s') = Inr (v, st')" using assms(3) by simp
  obtain C where C: "cache_ok (cache ?s') (retry_queue ?s') C" "v = visible_value isVisibleForMe (mem (cache ?s')) (C ?k)"
    by (rule lookup_result [OF ok run])
  have "visible_value isVisibleForMe (mem (cache ?s')) (C ?k) = Some x" using C(2) x by simp
  then have "\<not> invalidated ?s' ?k" using visible_is_published [OF ok C(1)] by metis
  then show False by simp
qed

theorem update_hides_old_value_witness:
  "\<exists>s st st'. running True 4096 HUGE_PAGE_SIZE 1 1 sample_records s
     \<and> tryUpdateAndInvalidateRecordCache True 0 [1] 0 (cache s) = Inr (True, st)
     \<and> tryLookupInRecordCache True (\<lambda>_ _. True) 0 [1] 0 st = Inr (None, st')"
proof -
  obtain s C p where s: "running True 4096 HUGE_PAGE_SIZE 1 1 sample_records s" "cache_ok (cache s) (retry_queue s) C" "epochs (cache s) = newEpochManager 1"
    "live_view (mem (cache s)) p = Some (published sample_request (tuple_read sample_tuple 67))" by (rule sample_hit)
  have k: "BuildPrefixedKey True 0 [1] = [1]" by (simp add: BuildPrefixedKey_def)
  have w: "0 < total_workers_number (epochs (cache s))" using s(3) by (simp add: newEpochManager_def)
  have v: "type_at (mem (cache s)) (chain_head (C [1])) = Some ReadOnlyMode"
    using sample_values(1) [OF s(2,4)] by (auto simp: visible_value_def type_at_def split: option.splits if_splits)
  obtain b st where st: "tryUpdateAndInvalidateRecordCache True 0 [1] 0 (cache s) = Inr (b, st)" "cache_ok st (retry_queue s) C"
    "total_workers_number (epochs st) = total_workers_number (epochs (cache s))"
    "b \<longleftrightarrow> type_at (mem (cache s)) (chain_head (C (BuildPrefixedKey True 0 [1]))) = Some ReadOnlyMode"
    by (rule update_ok [OF s(2) w, of "[1]" True 0]) simp_all
  obtain v st' where l: "tryLookupInRecordCache True (\<lambda>_ _. True) 0 [1] 0 st = Inr (v, st')"
    by (rule lookup_ok [OF st(2), of 0 "[1]" True "\<lambda>_ _. True" 0]) (use w st(3) in simp_all)
  have b using st(4) v k by simp
  then show ?thesis using update_hides_old_value [OF s(1) st(1) l] st(1) l s(1) by auto
qed

text \<open>
  C6. Dead entries leave the table: in a round of the forward epoch thread that finds no worker inside the
  record cache, every logically deleted entry is unlinked and left to the SIEVE thread, and the queues of
  the thread are empty afterwards.\<close>

theorem forward_round_retires_all:
  assumes "running skip base total_size shards workers recs s" "\<forall>t\<in>set (worker_threads_epochs (epochs (cache s))). \<not> active t"
  shows "\<exists>st. forward_round (cache s, retry_queue s) = Inr (st, []) \<and> inval_queue st = [] \<and> (\<forall>p. type_at (mem st) p \<noteq> Some Deleted)"
proof -
  obtain C where C: "cache_ok (cache s) (retry_queue s) C" using running_ok [OF assms(1)] by (rule world_okD)
  let ?items = "retry_queue s @ inval_queue (cache s)"
  let ?st = "(cache s)\<lparr>epochs := periodically_advance_global_epoch (epochs (cache s)), inval_queue := []\<rparr>"
  have "cache_ok ?st ?items C" by (rule forward_round_start [OF C])
  then have start: "cache_ok ?st ([] @ ?items) C" by simp
  have "length (worker_threads_epochs (epochs (cache s))) = total_workers_number (epochs (cache s))" using C by (simp add: cache_ok_def epochs_ok_def)
  then have "is_safe_to_invalidate e (epochs ?st)" for e
    using assms(2) by (simp add: is_safe_iff worker_blocks_def periodically_advance_global_epoch_def)
  then obtain st C' where f: "foldR forward_item ?items (?st, []) = Inr (st, [])" "cache_ok st [] C'" "inval_queue st = []"
    using forward_items_ok [OF start] by auto
  then have "forward_round (cache s, retry_queue s) = Inr (st, [])" by (simp add: forward_round_def pop_all_def)
  moreover have "{p. type_at (mem st) p = Some Deleted} = {}" using f(2,3) by (simp add: cache_ok_def queue_ok_def)
  ultimately show ?thesis using f(3) by blast
qed

theorem forward_round_retires_all_witness:
  "\<exists>s st. running True 4096 HUGE_PAGE_SIZE 1 1 sample_records s \<and> forward_round (cache s, retry_queue s) = Inr (st, [])"
proof -
  obtain s C p where s: "running True 4096 HUGE_PAGE_SIZE 1 1 sample_records s" "cache_ok (cache s) (retry_queue s) C" "epochs (cache s) = newEpochManager 1"
    by (rule sample_hit)
  then show ?thesis using forward_round_retires_all [OF s(1)] by (auto simp: newEpochManager_def)
qed



end
