(* ===== verification/Spec2Isabelle.thy ===== *)
theory Spec2Isabelle
  imports AdmissionRuns BTreeMap SlabMemory RecordCacheTheorems
begin

text \<open>
  A verification development for CellarCXL, the record-level memory-tiering extension of LeanStore. Pages
  of a B-tree live in CXL memory; an admission control watches the accesses of the workers and decides
  which pages and which single records are worth DRAM; single records are promoted into a record cache
  in front of the B-tree, which intercepts lookups and is invalidated by updates.

  \<^bold>\<open>Parts of the program and their theories.\<close> All paths are below \<open>src/backend/leanstore/storage/\<close>. The
  definitions of a theory carry the names of the code and stand in its order; a class is a record, its
  methods are functions on it, exceptions, failed assertions, reads out of bounds, uses of freed memory
  and walks that do not return are errors of the type \<open>cxx_error\<close>.

  \<^item> \<open>two-level-admission-control/\<close>: \<open>CountMinSketch\<close> (the sketches that count accesses), \<open>VisitCountBucket\<close> (the
    buckets of the frequency histogram), \<open>DepulicateSet\<close> (the set of sampled pages), \<open>SampledVisitHistogram\<close>
    (the thresholds that admit pages), \<open>HotPageCandidate\<close> and \<open>SkewRecordAdmission\<close> (slot bitmaps, snapshots
    and the rounds of \<open>CheckAndPromote\<close> in \<open>SkewRecordAdmission.hpp\<close>), \<open>CandidateRounds\<close> (these rounds in
    phases, interleaved with workers), \<open>TwoLevelAdmissionControl\<close> (the entry points in the three admission
    modes) and \<open>AdmissionRuns\<close> (runs of all of it).
  \<^item> \<open>btree/core/BTreeNode\<close>: \<open>NodeKeys\<close> (key comparison, heads, fences), \<open>BTreeNode\<close> (the slotted page),
    \<open>BTreeSearch\<close>, \<open>BTreeBuild\<close>, \<open>BTreeUpdate\<close>, \<open>BTreeSplit\<close>, \<open>BTreeMerge\<close> (lemmas by operation), \<open>BTreeMap\<close> (the
    node as an ordered map).
  \<^item> \<open>record-cache/RecordCacheSlabAllocator.hpp\<close>: \<open>SlabAllocator\<close> (definitions), \<open>SlabFreeLists\<close> (the free lists
    in memory), \<open>SlabInvariant\<close>, \<open>SlabRelease\<close>, \<open>SlabMemory\<close> (allocation, deallocation, reclamation).
  \<^item> \<open>record-cache/\<close>: \<open>RecordCacheEntry\<close>, \<open>EpochManager\<close> (with \<open>InvalidationQueue.hpp\<close>), \<open>SieveFIFO\<close>, \<open>RecordCache\<close>
    (hash table, interceptors, promotion queue), \<open>RecordCacheEviction\<close> (forward epoch thread, SIEVE thread,
    slab rescue), \<open>RecordCachePromote\<close> (promote thread) hold the definitions; \<open>RecordCacheChains\<close>, \<open>SieveScan\<close>,
    \<open>EpochSafety\<close>, \<open>RecordCacheInvariant\<close>, \<open>RecordCacheOps\<close>, \<open>RecordCacheThreads\<close>, \<open>RecordCachePromotion\<close> hold the
    lemmas by part; \<open>RecordCacheWorld\<close> composes the parts with the B-tree around them into one step
    relation, \<open>RecordCacheCoherence\<close> proves its invariant and \<open>RecordCacheTheorems\<close> the promises that follow.
  \<^item> \<open>Prelude\<close> has the error monad, machine words and bit scans that the parts share; \<open>Doubles\<close> has IEEE double
    arithmetic on rationals with rounding to nearest even.

  \<^bold>\<open>How the parts interact.\<close> A worker asks the record cache first (\<open>tryLookupInRecordCache\<close>), tells the
  admission control about every access (\<open>OnRecordAccess\<close>), and before it writes a record under the latch of
  its leaf it invalidates the record cache (\<open>tryUpdateAndInvalidateRecordCache\<close>). The admission control
  chooses records, \<open>signalPromoteThread\<close> queues them, and the promote thread allocates an entry from the slab
  allocator, installs a placeholder, reads the tuple from the B-tree page optimistically and publishes
  it, unless an update came in between. Invalidated entries go through the invalidation queue: the forward
  epoch thread unlinks them when no worker can see them, the SIEVE thread frees them and evicts cold
  entries. The step relation \<open>world_step\<close> has one rule per such action; a record of the B-tree is the payload
  of the slot that holds its key.

  \<^bold>\<open>What the lemmas show.\<close> For the record cache: coherence with the B-tree under every interleaving, absence
  of failures, balanced accounts, uniqueness of live entries, retirement of dead ones, and the grace
  period of the epochs at the grain of atomic accesses. For the slab allocator: fresh disjoint blocks,
  failure exactly on exhaustion, honest accounting. For SIEVE: the second chance policy, and the trap of
  the hand. For the B-tree node: search, insertion, removal, split, separators and merge refine the ordered
  map of the entries. For the admission control: bounds of the sketches, correct thresholds, the soundness
  and liveness of record promotion, the invariant of whole runs. The interfaces are locales that the
  models interpret: \<open>memory_pool\<close> (slab allocator, used by the record cache), \<open>ordered_store\<close> (node),
  \<open>frequency_sketch\<close> (both sketches), \<open>slot_set\<close> (the three bitmaps), \<open>recency_queue\<close> (LRU mode).

  \<^bold>\<open>Bounds and loops.\<close> Atomics of 64 bits are naturals with \<open>fetch_add\<close> and \<open>fetch_sub\<close> modulo \<open>2 ^ 64\<close>; 16-bit
  fields of a page are truncated by \<open>tr16\<close>. Loops over data recurse on it; the SIEVE scan has the budget of
  the code, twice the length of the queue. Walks along pointer chains are partial functions whose
  divergence is the error \<open>Diverges\<close>; the invariant excludes it. The epoch theorem takes fewer than \<open>2 ^ 64\<close>
  epochs. Theorems over \<open>running\<close> states start from \<open>newRecordCache\<close> on a fresh allocator of at least one slab
  and take requests whose entry fits a slab block (16 KB) and an allocator that still has memory for
  them, so no rescue runs; \<open>slab_exhaustion\<close> says when it has none.

  \<^bold>\<open>Not modelled.\<close> The slab rescue is defined but no safety theorem covers it: it frees entries that the
  invalidation queue still holds and forgets others. Within one operation of the record cache mutexes and
  atomics are sequential; races inside an operation, such as the read of an entry after its shard lock
  is released, are outside the model, except for the epochs. \<open>rangeRemove\<close> of \<open>BTreeLL.cpp\<close>, which does not
  invalidate the record cache, is not a step of the system. Buffer manager, page providers, generic
  B-tree with latch coupling, transactions, logging, profiling, utilities and benchmarks are not modelled:
  they consist of I/O, system calls and optimistic latching with non-local jumps. \<open>std::hash\<close>, \<open>std::pow\<close>,
  \<open>std::log\<close>, the visibility test of the concurrency control and the outcome of latch validation are
  parameters.
\<close>

end
